(* ===== verification/Kaya_Prelude.thy ===== *)
theory Kaya_Prelude
  imports Main "HOL-Library.Word" "HOL-Library.List_Lexorder" "HOL-Library.Sublist"
begin

text \<open>
  Shared ground of the development: the machine integers and byte strings of the Rust
  sources, little- and big-endian integer encodings (\<^verbatim>\<open>to_le_bytes\<close>, \<^verbatim>\<open>from_be_bytes\<close>
  and their kin), slices, Rust strings as UTF-8 byte sequences, number formatting, and the
  generic lemmas the components use.

  Conventions. A fixed-width integer is a word. \<^verbatim>\<open>usize\<close> is \<^typ>\<open>nat\<close>: it only ever
  holds lengths and offsets of byte strings that exist in memory. A cast \<^verbatim>\<open>x as usize\<close>
  from a word is \<^const>\<open>unat\<close>, a cast \<^verbatim>\<open>n as u32\<close> of a length is \<^const>\<open>word_of_nat\<close>
  and truncates. A Rust \<^verbatim>\<open>String\<close> is a \<^typ>\<open>string\<close> whose characters are its UTF-8
  bytes. A fallible operation returns a sum, with \<^const>\<open>Inl\<close> for the error.
\<close>

unbundle bit_operations_syntax

type_synonym u8 = "8 word"
type_synonym u16 = "16 word"
type_synonym u32 = "32 word"
type_synonym u64 = "64 word"
type_synonym bytes = "u8 list"

named_theorems wire_simps \<open>lengths and reads of encoded integers and fields\<close>
named_theorems wire_defs \<open>definitions of wire-format helpers\<close>

section \<open>Integers as byte strings\<close>

fun to_le :: "nat \<Rightarrow> 'a::len word \<Rightarrow> bytes" where
  "to_le 0 w = []"
| "to_le (Suc n) w = ucast w # to_le n (drop_bit 8 w)"

fun from_le :: "bytes \<Rightarrow> 'a::len word" where
  "from_le [] = 0"
| "from_le (b # bs) = ucast b OR push_bit 8 (from_le bs)"

definition to_be :: "nat \<Rightarrow> 'a::len word \<Rightarrow> bytes" where
  "to_be n w = rev (to_le n w)"

definition from_be :: "bytes \<Rightarrow> 'a::len word" where
  "from_be bs = from_le (rev bs)"

abbreviation u16_le :: "u16 \<Rightarrow> bytes" where "u16_le \<equiv> to_le 2"
abbreviation u32_le :: "u32 \<Rightarrow> bytes" where "u32_le \<equiv> to_le 4"
abbreviation u64_le :: "u64 \<Rightarrow> bytes" where "u64_le \<equiv> to_le 8"
abbreviation u64_be :: "u64 \<Rightarrow> bytes" where "u64_be \<equiv> to_be 8"

lemma length_to_le [simp, wire_simps]: "length (to_le n w) = n"
  by (induction n arbitrary: w) auto

lemma length_to_be [simp, wire_simps]: "length (to_be n w) = n"
  by (simp add: to_be_def)

lemma from_le_to_le_take_bit: "from_le (to_le n w) = take_bit (8 * n) w"
proof (induction n arbitrary: w)
  case 0
  then show ?case by simp
next
  case (Suc n)
  have "ucast (ucast w :: u8) OR push_bit 8 (take_bit (8 * n) (drop_bit 8 w)) = take_bit (8 * Suc n) w"
    by (rule bit_word_eqI) (auto simp: bit_simps)
  then show ?case by (simp add: Suc)
qed

lemma from_le_to_le [simp]:
  "LENGTH('a) \<le> 8 * n \<Longrightarrow> from_le (to_le n w) = (w :: 'a::len word)"
  by (simp add: from_le_to_le_take_bit take_bit_word_eq_self)

lemma from_be_to_be [simp]:
  "LENGTH('a) \<le> 8 * n \<Longrightarrow> from_be (to_be n w) = (w :: 'a::len word)"
  by (simp add: from_be_def to_be_def)

lemma to_le_from_le:
  "length bs = n \<Longrightarrow> 8 * n \<le> LENGTH('a) \<Longrightarrow> to_le n (from_le bs :: 'a::len word) = bs"
proof (induction bs arbitrary: n)
  case Nil
  then show ?case by simp
next
  case (Cons b bs)
  then obtain m where n: "n = Suc m" and m: "length bs = m" by auto
  have len: "8 + 8 * m \<le> LENGTH('a)" using Cons.prems n by simp
  let ?r = "from_le bs :: 'a word"
  have low: "ucast (ucast b OR push_bit 8 ?r :: 'a word) = b"
    using len by (intro bit_word_eqI) (auto simp: bit_simps)
  have bnd: "bit ?r j \<Longrightarrow> 8 + j < LENGTH('a)" for j
  proof -
    assume j: "bit ?r j"
    have "to_le m ?r = bs" using Cons.IH[OF m] len by simp
    then have "?r = take_bit (8 * m) ?r" using from_le_to_le_take_bit[of m ?r] by simp
    then have "j < 8 * m" using j by (metis bit_take_bit_iff)
    then show ?thesis using len by simp
  qed
  have high: "drop_bit 8 (ucast b OR push_bit 8 ?r :: 'a word) = ?r"
    using len bnd by (intro bit_word_eqI) (auto simp: bit_simps dest: bit_imp_le_length)
  show ?case using n low high Cons.IH[OF m] len by simp
qed

lemma from_le_inject:
  "length xs = n \<Longrightarrow> length ys = n \<Longrightarrow> 8 * n \<le> LENGTH('a) \<Longrightarrow>
   from_le xs = (from_le ys :: 'a::len word) \<longleftrightarrow> xs = ys"
  by (metis to_le_from_le)

lemma to_le_inject:
  "LENGTH('a) \<le> 8 * n \<Longrightarrow> to_le n x = to_le n (y :: 'a::len word) \<longleftrightarrow> x = y"
  by (metis from_le_to_le)

lemma to_be_inject:
  "LENGTH('a) \<le> 8 * n \<Longrightarrow> to_be n x = to_be n (y :: 'a::len word) \<longleftrightarrow> x = y"
  by (metis from_be_to_be)

section \<open>Slices\<close>

definition subrange :: "nat \<Rightarrow> nat \<Rightarrow> 'a list \<Rightarrow> 'a list" where
  "subrange i j xs = take (j - i) (drop i xs)"

lemma length_subrange [simp]: "j \<le> length xs \<Longrightarrow> length (subrange i j xs) = j - i"
  by (simp add: subrange_def)

lemma subrange_append_left [simp]: "j \<le> length xs \<Longrightarrow> subrange i j (xs @ ys) = subrange i j xs"
  by (simp add: subrange_def)

lemma subrange_append_right [simp]:
  "length xs \<le> i \<Longrightarrow> subrange i j (xs @ ys) = subrange (i - length xs) (j - length xs) ys"
proof -
  assume "length xs \<le> i"
  then have "j - length xs - (i - length xs) = j - i" by simp
  then show ?thesis using \<open>length xs \<le> i\<close> by (simp add: subrange_def)
qed

lemma subrange_all: "length xs = j \<Longrightarrow> subrange 0 j xs = xs"
  by (simp add: subrange_def)

lemma subrange_length [simp]: "subrange 0 (length xs) xs = xs"
  by (simp add: subrange_def)

lemma subrange_to_le [simp]: "subrange 0 n (to_le n w) = to_le n w"
  by (simp add: subrange_all)

lemma subrange_eq_drop: "length xs \<le> j \<Longrightarrow> subrange i j xs = drop i xs"
  by (simp add: subrange_def)

lemma subrange_0_take: "subrange 0 j xs = take j xs"
  by (simp add: subrange_def)

lemma subrange_join: "i \<le> j \<Longrightarrow> j \<le> k \<Longrightarrow> subrange i j xs @ subrange j k xs = subrange i k xs"
proof -
  assume le: "i \<le> j" "j \<le> k"
  have "take (k - i) (drop i xs) = take (j - i) (drop i xs) @ take (k - i - (j - i)) (drop (j - i) (drop i xs))"
    using le by (metis add_diff_inverse_nat diff_le_mono linorder_not_less take_add)
  then show ?thesis using le by (simp add: subrange_def)
qed

lemma subrange_append_drop: "i \<le> j \<Longrightarrow> subrange i j xs @ drop j xs = drop i xs"
proof -
  assume "i \<le> j"
  then have "drop j xs = drop (j - i) (drop i xs)" by simp
  then show ?thesis unfolding subrange_def by (metis append_take_drop_id)
qed

lemma subrange_replace [simp]:
  "length ys = j - i \<Longrightarrow> i \<le> j \<Longrightarrow> j \<le> length xs \<Longrightarrow>
   subrange i j (take i xs @ ys @ drop j xs) = ys"
  by (simp add: subrange_def)

lemma to_le_from_le_subrange [wire_simps]:
  "j \<le> length xs \<Longrightarrow> n = j - i \<Longrightarrow> 8 * n \<le> LENGTH('a) \<Longrightarrow>
   to_le n (from_le (subrange i j xs) :: 'a::len word) = subrange i j xs"
  by (rule to_le_from_le) simp_all

text \<open>Arithmetic on \<^verbatim>\<open>usize\<close>, 64 bits wide on the supported targets.\<close>

definition usize_checked_add :: "nat \<Rightarrow> nat \<Rightarrow> nat option" where
  "usize_checked_add a b = (if a + b < 2 ^ 64 then Some (a + b) else None)"

definition u32_try_from :: "nat \<Rightarrow> u32 option" where
  "u32_try_from n = (if n < 2 ^ 32 then Some (word_of_nat n) else None)"

lemma u32_try_from_Some [simp]: "u32_try_from n = Some w \<longleftrightarrow> n < 2 ^ 32 \<and> w = word_of_nat n"
  by (auto simp: u32_try_from_def)

lemma u32_try_from_None [simp]: "u32_try_from n = None \<longleftrightarrow> 2 ^ 32 \<le> n"
  by (auto simp: u32_try_from_def)

section \<open>Strings\<close>

definition is_cont :: "u8 \<Rightarrow> bool" where
  "is_cont b \<longleftrightarrow> 0x80 \<le> b \<and> b \<le> 0xBF"

text \<open>Well-formed UTF-8, the check of \<^verbatim>\<open>String::from_utf8\<close>.\<close>

fun utf8_valid :: "bytes \<Rightarrow> bool" where
  "utf8_valid [] = True"
| "utf8_valid (b # bs) =
    (if b < 0x80 then utf8_valid bs
     else if 0xC2 \<le> b \<and> b \<le> 0xDF then
       (case bs of c1 # r \<Rightarrow> is_cont c1 \<and> utf8_valid r | _ \<Rightarrow> False)
     else if 0xE0 \<le> b \<and> b \<le> 0xEF then
       (case bs of c1 # c2 # r \<Rightarrow>
          (if b = 0xE0 then 0xA0 \<le> c1 \<and> c1 \<le> 0xBF
           else if b = 0xED then 0x80 \<le> c1 \<and> c1 \<le> 0x9F else is_cont c1)
          \<and> is_cont c2 \<and> utf8_valid r
        | _ \<Rightarrow> False)
     else if 0xF0 \<le> b \<and> b \<le> 0xF4 then
       (case bs of c1 # c2 # c3 # r \<Rightarrow>
          (if b = 0xF0 then 0x90 \<le> c1 \<and> c1 \<le> 0xBF
           else if b = 0xF4 then 0x80 \<le> c1 \<and> c1 \<le> 0x8F else is_cont c1)
          \<and> is_cont c2 \<and> is_cont c3 \<and> utf8_valid r
        | _ \<Rightarrow> False)
     else False)"

definition as_bytes :: "string \<Rightarrow> bytes" where
  "as_bytes s = map (\<lambda>c. word_of_nat (of_char c)) s"

definition string_of_bytes :: "bytes \<Rightarrow> string" where
  "string_of_bytes bs = map (\<lambda>b. char_of (unat b)) bs"

definition from_utf8 :: "bytes \<Rightarrow> string option" where
  "from_utf8 bs = (if utf8_valid bs then Some (string_of_bytes bs) else None)"

lemma string_of_bytes_as_bytes [simp]: "string_of_bytes (as_bytes s) = s"
proof -
  have "char_of (unat (word_of_nat (of_char c) :: u8)) = c" for c
  proof -
    have "(of_char c :: nat) < 256" by (rule nat_of_char_less_256)
    then have "unat (word_of_nat (of_char c) :: u8) = of_char c"
      by (simp add: unat_of_nat)
    then show ?thesis by simp
  qed
  then show ?thesis by (simp add: string_of_bytes_def as_bytes_def map_idI)
qed

lemma as_bytes_string_of_bytes [simp]: "as_bytes (string_of_bytes bs) = bs"
proof -
  have "(word_of_nat (of_char (char_of (unat b) :: char)) :: u8) = b" for b :: u8
  proof -
    have "unat b < 256" using unsigned_less[of b, where ?'a = nat] by simp
    then show ?thesis by simp
  qed
  then show ?thesis by (simp add: string_of_bytes_def as_bytes_def map_idI)
qed

lemma length_as_bytes [simp]: "length (as_bytes s) = length s"
  by (simp add: as_bytes_def)

lemma from_utf8_as_bytes [simp]: "utf8_valid (as_bytes s) \<Longrightarrow> from_utf8 (as_bytes s) = Some s"
  by (simp add: from_utf8_def)

definition digit_char :: "nat \<Rightarrow> char" where
  "digit_char d = (if d < 10 then char_of (48 + d) else char_of (87 + d))"

text \<open>The formats \<^verbatim>\<open>{}\<close>, \<^verbatim>\<open>{:x}\<close> and \<^verbatim>\<open>{:0wx}\<close> of an unsigned integer.\<close>

fun fmt_radix :: "nat \<Rightarrow> nat \<Rightarrow> string" where
  "fmt_radix r n =
    (if r < 2 \<or> n < r then [digit_char n] else fmt_radix r (n div r) @ [digit_char (n mod r)])"

declare fmt_radix.simps [simp del]

definition fmt_dec :: "nat \<Rightarrow> string" where
  "fmt_dec n = fmt_radix 10 n"

definition fmt_hex :: "nat \<Rightarrow> nat \<Rightarrow> string" where
  "fmt_hex w n = (let s = fmt_radix 16 n in replicate (w - length s) (CHR ''0'') @ s)"

section \<open>Words\<close>

definition saturating_add :: "'a::len word \<Rightarrow> 'a word \<Rightarrow> 'a word" where
  "saturating_add a b = (if a \<le> a + b then a + b else - 1)"

definition saturating_sub :: "'a::len word \<Rightarrow> 'a word \<Rightarrow> 'a word" where
  "saturating_sub a b = (if b \<le> a then a - b else 0)"

lemma unat_saturating_add:
  "unat (saturating_add a b) = min (unat a + unat b) (2 ^ LENGTH('a) - 1)" for a b :: "'a::len word"
proof (cases "a \<le> a + b")
  case True
  then have "unat (a + b) = unat a + unat b" by (simp add: unat_plus_simple)
  moreover have "unat (a + b) < 2 ^ LENGTH('a)" by simp
  ultimately show ?thesis using True by (simp add: saturating_add_def)
next
  case False
  then have "\<not> unat a + unat b < 2 ^ LENGTH('a)"
    using no_olen_add_nat by blast
  then show ?thesis using False by (simp add: saturating_add_def unsigned_minus_1_eq_mask mask_eq_exp_minus_1)
qed

lemma unat_saturating_sub: "unat (saturating_sub a b) = unat a - unat b"
  by (simp add: saturating_sub_def unat_sub word_le_nat_alt)

lemma word_max_le [simp]: "(x :: 'a::len word) \<le> - 1"
  by (rule word_n1_ge)

lemma unat_max: "unat (max a b) = max (unat a) (unat b)"
  by (simp add: max_def word_le_nat_alt)

lemma unat_word_of_nat_small:
  "n < 2 ^ LENGTH('a) \<Longrightarrow> unat (word_of_nat n :: 'a::len word) = n"
  by (simp add: unat_of_nat)

lemma xor_cancel_right [simp]: "x XOR z = y XOR z \<longleftrightarrow> x = y" for x y z :: "'a::len word"
proof
  assume "x XOR z = y XOR z"
  then have "(x XOR z) XOR z = (y XOR z) XOR z" by (rule arg_cong)
  then show "x = y" by (simp add: xor.assoc)
qed simp

lemma xor_cancel_left [simp]: "z XOR x = z XOR y \<longleftrightarrow> x = y" for x y z :: "'a::len word"
  by (simp add: xor.commute)

lemma word_less_Suc: "x \<noteq> - 1 \<Longrightarrow> x < x + 1" for x :: "'a::len word"
proof -
  assume "x \<noteq> - 1"
  then have "1 + x \<noteq> 0" by (metis add.inverse_unique)
  then have "unat (1 + x) = Suc (unat x)" by (rule unatSuc)
  then show ?thesis by (simp add: word_less_nat_alt add.commute)
qed

section \<open>Lists\<close>

lemma list_update_split:
  "i < length xs \<Longrightarrow> xs[i := v] = take i xs @ v # drop (Suc i) xs"
  by (rule upd_conv_take_nth_drop)

end
