(* ===== verification/Kaya_Core.thy ===== *)
theory Kaya_Core
  imports Kaya_Prelude
begin

text \<open>
  The crate \<^verbatim>\<open>kaya-core\<close>: the error type with its exit codes and messages, sequence
  numbers and configuration records, and the CRC-32C checksum every on-disk format relies on
  (\<^verbatim>\<open>src/crates/kaya-core/src/lib.rs\<close>).

  The checksum is shown to separate any two byte strings that differ in exactly one byte,
  which is what the decoders of the WAL, the manifest and the SSTables rest on.
\<close>

section \<open>Errors\<close>

datatype kaya_error =
    InvalidArgument string
  | NotFound
  | Corruption string
  | Io string
  | DiskFull
  | FsyncFailed
  | UnsupportedVersion u16
  | LockConflict
  | TxnConflict
  | InvariantViolation string string
  | Internal string
  | ClockSkew string

type_synonym 'a result = "kaya_error + 'a"

fun error_to_string :: "kaya_error \<Rightarrow> string" where
  "error_to_string (InvalidArgument m) = ''invalid argument: '' @ m"
| "error_to_string NotFound = ''not found''"
| "error_to_string (Corruption m) = ''corruption: '' @ m"
| "error_to_string (Io m) = ''io error: '' @ m"
| "error_to_string DiskFull = ''disk full''"
| "error_to_string FsyncFailed = ''fsync failed''"
| "error_to_string (UnsupportedVersion v) = ''unsupported version: '' @ fmt_dec (unat v)"
| "error_to_string LockConflict = ''data directory lock conflict''"
| "error_to_string TxnConflict = ''transaction conflict''"
| "error_to_string (InvariantViolation i m) = ''invariant violation '' @ i @ '': '' @ m"
| "error_to_string (Internal m) = ''internal error: '' @ m"
| "error_to_string (ClockSkew m) = ''clock skew exceeded: '' @ m"

fun exit_code :: "kaya_error \<Rightarrow> int" where
  "exit_code NotFound = 2"
| "exit_code (Corruption _) = 3"
| "exit_code (InvalidArgument _) = 4"
| "exit_code (UnsupportedVersion _) = 4"
| "exit_code (InvariantViolation _ _) = 5"
| "exit_code LockConflict = 6"
| "exit_code TxnConflict = 7"
| "exit_code (ClockSkew _) = 8"
| "exit_code (Io _) = 1"
| "exit_code DiskFull = 1"
| "exit_code FsyncFailed = 1"
| "exit_code (Internal _) = 1"

text \<open>The operator \<^verbatim>\<open>?\<close>.\<close>

definition res_bind :: "'e + 'a \<Rightarrow> ('a \<Rightarrow> 'e + 'b) \<Rightarrow> 'e + 'b" where
  "res_bind r f = (case r of Inl e \<Rightarrow> Inl e | Inr x \<Rightarrow> f x)"

lemma res_bind_simps [simp]: "res_bind (Inr x) f = f x" "res_bind (Inl e) f = Inl e"
  by (simp_all add: res_bind_def)

lemma res_bind_Inr_iff: "res_bind r f = Inr y \<longleftrightarrow> (\<exists>x. r = Inr x \<and> f x = Inr y)"
  by (cases r) auto

section \<open>Sequence numbers and configuration\<close>

type_synonym lsn = u64
type_synonym seqno = u64

definition LSN_FIRST :: lsn where "LSN_FIRST = 1"
definition SEQ_FIRST :: seqno where "SEQ_FIRST = 1"

text \<open>\<^verbatim>\<open>Lsn::next\<close> and \<^verbatim>\<open>SequenceNumber::next\<close>: \<open>+ 1\<close> on a \<^verbatim>\<open>u64\<close>.\<close>

definition lsn_next :: "lsn \<Rightarrow> lsn" where "lsn_next l = l + 1"
definition seq_next :: "seqno \<Rightarrow> seqno" where "seq_next s = s + 1"

record key_value =
  kv_key :: bytes
  kv_value :: bytes

datatype durability_mode = Strict | Relaxed

record wal_batch_config =
  batch_max_records :: nat
  batch_max_bytes :: nat
  batch_flush_interval_us :: u64

record wal_config =
  segment_max_bytes :: u64
  max_record_bytes :: u32
  batch_cfg :: wal_batch_config

record sstable_config =
  block_target_bytes :: nat
  cfg_bloom_bits_per_key :: u32
  block_cache_capacity :: nat
  cfg_compression_lz4 :: bool
  cfg_compression_zstd :: bool
  cfg_prefix_compression :: bool

record limits_config =
  max_key_len :: nat
  max_value_len :: nat
  max_scan_results :: nat
  max_scan_bytes :: nat

datatype compaction_policy_kind = L0Merge | Leveled | SizeTiered

record compaction_config =
  policy :: compaction_policy_kind
  cfg_level_count :: u32
  cfg_l0_compaction_trigger :: nat
  cfg_min_tables :: nat
  cfg_ratio_x1000 :: u32

definition default_wal_batch_config :: wal_batch_config where
  "default_wal_batch_config =
    \<lparr>batch_max_records = 1, batch_max_bytes = 0, batch_flush_interval_us = 0\<rparr>"

definition default_wal_config :: wal_config where
  "default_wal_config =
    \<lparr>segment_max_bytes = 64 * 1024 * 1024, max_record_bytes = 32 * 1024 * 1024,
     batch_cfg = default_wal_batch_config\<rparr>"

definition default_limits_config :: limits_config where
  "default_limits_config =
    \<lparr>max_key_len = 4 * 1024, max_value_len = 16 * 1024 * 1024,
     max_scan_results = 100000, max_scan_bytes = 64 * 1024 * 1024\<rparr>"

section \<open>CRC-32C\<close>

definition crc_bit :: "u32 \<Rightarrow> u32" where
  "crc_bit crc = drop_bit 1 crc XOR (0x82f63b78 AND (- (crc AND 1)))"

definition crc_byte :: "u32 \<Rightarrow> u8 \<Rightarrow> u32" where
  "crc_byte crc b = (crc_bit ^^ 8) (crc XOR ucast b)"

definition crc32c :: "bytes \<Rightarrow> u32" where
  "crc32c bs = NOT (foldl crc_byte (NOT 0) bs)"

lemma neg_and_one: "- ((w :: u32) AND 1) = (if odd w then - 1 else 0)"
  by (simp add: and_one_eq mod_2_eq_odd)

lemma crc_bit_top: "bit (crc_bit w) 31 \<longleftrightarrow> odd w"
proof -
  have "bit (0x82f63b78 :: u32) 31" by simp
  moreover have "\<not> bit (drop_bit 1 w) 31"
    by (auto simp: bit_drop_bit_eq dest: bit_imp_le_length)
  ultimately show ?thesis
    by (simp add: crc_bit_def neg_and_one bit_xor_iff bit_and_iff)
qed

text \<open>One step of the register is invertible: its top bit tells whether the polynomial was added.\<close>

lemma inj_crc_bit: "inj crc_bit"
proof (rule injI)
  fix x y :: u32
  assume eq: "crc_bit x = crc_bit y"
  then have par: "odd x \<longleftrightarrow> odd y" by (metis crc_bit_top)
  then have "drop_bit 1 x XOR (0x82f63b78 AND (- (x AND 1))) =
      drop_bit 1 y XOR (0x82f63b78 AND (- (x AND 1)))"
    using eq by (simp add: crc_bit_def neg_and_one)
  then have "drop_bit 1 x = drop_bit 1 y"
    by simp
  then have "x div 2 = y div 2" by (simp add: drop_bit_eq_div)
  moreover have "x mod 2 = y mod 2" using par by (simp add: mod_2_eq_odd)
  ultimately show "x = y" by (metis mult_div_mod_eq)
qed

lemma inj_crc_bit8: "inj (crc_bit ^^ n)"
  by (rule inj_fn[OF inj_crc_bit])

lemma crc_byte_inject_state: "crc_byte x b = crc_byte y b \<longleftrightarrow> x = y"
proof -
  have "x XOR ucast b = y XOR ucast b \<longleftrightarrow> x = y" by simp
  then show ?thesis using inj_crc_bit8[of 8] by (auto simp: crc_byte_def inj_eq)
qed

lemma crc_byte_inject_byte: "crc_byte x a = crc_byte x b \<longleftrightarrow> a = b"
proof -
  have "ucast (ucast c :: u32) = c" for c :: u8
    by (rule bit_word_eqI) (auto simp: bit_simps)
  then have "(ucast a :: u32) = ucast b \<longleftrightarrow> a = b"
    by metis
  then show ?thesis using inj_crc_bit8[of 8] by (auto simp: crc_byte_def inj_eq)
qed

lemma foldl_crc_inject: "foldl crc_byte x bs = foldl crc_byte y bs \<longleftrightarrow> x = y"
  by (induction bs arbitrary: x y) (auto simp: crc_byte_inject_state)

text \<open>Two strings that differ in one byte have different checksums.\<close>

lemma crc32c_one_byte: "crc32c (xs @ a # ys) = crc32c (xs @ b # ys) \<longleftrightarrow> a = b"
  by (simp add: crc32c_def foldl_crc_inject crc_byte_inject_byte)

lemma crc32c_list_update:
  "i < length xs \<Longrightarrow> v \<noteq> xs ! i \<Longrightarrow> crc32c (xs[i := v]) \<noteq> crc32c xs"
  by (metis crc32c_one_byte id_take_nth_drop list_update_split)

end
