(* ===== verification/Kaya_Hlc.thy ===== *)
theory Kaya_Hlc
  imports Kaya_Core
begin

text \<open>
  The hybrid logical clock of \<^verbatim>\<open>src/crates/kaya-core/src/hlc.rs\<close>: the merge rule, the
  guarded merge that rejects a remote sample too far ahead of the wall clock, and the packed
  64-bit commit timestamp. The clock is shown to dominate both of its inputs, strictly unless
  the 16-bit logical counter is saturated; its packed form is order preserving; and a guarded
  merge leads the wall clock by no more than the configured offset or than the clock led it before.
\<close>

section \<open>Hybrid logical clock\<close>

datatype hlc = Hlc (physical_ms: u64) (logical: u16)

instantiation hlc :: linorder
begin

definition less_eq_hlc :: "hlc \<Rightarrow> hlc \<Rightarrow> bool" where
  "less_eq_hlc a b \<longleftrightarrow>
    physical_ms a < physical_ms b \<or> physical_ms a = physical_ms b \<and> logical a \<le> logical b"

definition less_hlc :: "hlc \<Rightarrow> hlc \<Rightarrow> bool" where
  "less_hlc a b \<longleftrightarrow>
    physical_ms a < physical_ms b \<or> physical_ms a = physical_ms b \<and> logical a < logical b"

instance
  by standard (auto simp: less_eq_hlc_def less_hlc_def hlc.expand)

end

lemmas hlc_order_defs = less_eq_hlc_def less_hlc_def

definition hlc_zero :: hlc where "hlc_zero = Hlc 0 0"

text \<open>\<^verbatim>\<open>Hlc::update\<close>. The source mutates the clock and returns its copy: one value here.\<close>

definition hlc_update :: "hlc \<Rightarrow> u64 \<Rightarrow> hlc option \<Rightarrow> hlc" where
  "hlc_update self now_ms remote_opt =
    (let remote = (case remote_opt of Some r \<Rightarrow> r | None \<Rightarrow> hlc_zero);
         pt = max (max now_ms (physical_ms self)) (physical_ms remote);
         lg = (if pt = physical_ms self \<and> pt = physical_ms remote
               then saturating_add (max (logical self) (logical remote)) 1
               else if pt = physical_ms self then saturating_add (logical self) 1
               else if pt = physical_ms remote then saturating_add (logical remote) 1
               else 0)
     in Hlc pt lg)"

definition hlc_tick :: "hlc \<Rightarrow> u64 \<Rightarrow> hlc" where
  "hlc_tick self now_ms = hlc_update self now_ms None"

record clock_skew_exceeded =
  local_now_ms :: u64
  remote_physical_ms :: u64
  max_offset_ms :: u64

definition hlc_checked_update ::
  "hlc \<Rightarrow> u64 \<Rightarrow> hlc option \<Rightarrow> u64 \<Rightarrow> clock_skew_exceeded + hlc" where
  "hlc_checked_update self now_ms remote max_off =
    (case remote of
       Some r \<Rightarrow>
         if physical_ms r > saturating_add now_ms max_off
         then Inl \<lparr>local_now_ms = now_ms, remote_physical_ms = physical_ms r, max_offset_ms = max_off\<rparr>
         else Inr (hlc_update self now_ms remote)
     | None \<Rightarrow> Inr (hlc_update self now_ms remote))"

definition lead_over_wall_ms :: "hlc \<Rightarrow> u64 \<Rightarrow> u64" where
  "lead_over_wall_ms self now_ms = saturating_sub (physical_ms self) now_ms"

definition hlc_to_u64 :: "hlc \<Rightarrow> u64" where
  "hlc_to_u64 self =
    (let phys = min (physical_ms self) (drop_bit 16 (- 1))
     in push_bit 16 phys OR ucast (logical self))"

definition hlc_from_u64 :: "u64 \<Rightarrow> hlc" where
  "hlc_from_u64 v = Hlc (drop_bit 16 v) (ucast (v AND 0xFFFF))"

lemma saturating_add_one_gt: "x \<noteq> - 1 \<Longrightarrow> x < saturating_add x 1" for x :: "'a::len word"
proof -
  assume "x \<noteq> - 1"
  then have "x < x + 1" by (rule word_less_Suc)
  then show ?thesis by (simp add: saturating_add_def less_imp_le)
qed

lemma saturating_add_one_ge: "x \<le> saturating_add x 1" for x :: "'a::len word"
  by (simp add: saturating_add_def)

lemma hlc_update_physical:
  "physical_ms (hlc_update s now r) =
    max (max now (physical_ms s)) (case r of Some r \<Rightarrow> physical_ms r | None \<Rightarrow> 0)"
  by (auto simp: hlc_update_def Let_def hlc_zero_def split: option.splits)

lemma hlc_update_ge_self: "s \<le> hlc_update s now r"
  by (auto simp: hlc_update_def Let_def less_eq_hlc_def max_def not_le
      intro: order_trans[OF _ saturating_add_one_ge] less_imp_le)

lemma hlc_update_ge_remote: "r \<le> hlc_update s now (Some r)"
  by (auto simp: hlc_update_def Let_def less_eq_hlc_def max_def not_le
      intro: order_trans[OF _ saturating_add_one_ge] less_imp_le)

lemma hlc_update_sound:
  assumes "logical s \<noteq> - 1" and "logical r \<noteq> - 1"
  shows "s < hlc_update s now (Some r)" "r < hlc_update s now (Some r)"
proof -
  have m: "max (logical s) (logical r) \<noteq> - 1" using assms by (simp add: max_def)
  show "s < hlc_update s now (Some r)"
    using assms saturating_add_one_gt[OF m] saturating_add_one_gt[OF assms(1)]
    by (auto simp: hlc_update_def Let_def less_hlc_def max_def not_le split: if_splits)
  show "r < hlc_update s now (Some r)"
    using assms saturating_add_one_gt[OF m] saturating_add_one_gt[OF assms(2)]
    by (auto simp: hlc_update_def Let_def less_hlc_def max_def not_le split: if_splits)
qed

lemma hlc_tick_unfold:
  "hlc_tick s now =
    (if physical_ms s < now then Hlc now 0
     else Hlc (physical_ms s) (saturating_add (logical s) 1))"
proof -
  have z: "(0 :: u16) \<le> logical s" "(0 :: u64) \<le> physical_ms s" by simp_all
  show ?thesis
  proof (cases "physical_ms s < now")
    case True
    then have "now \<noteq> 0" "now \<noteq> physical_ms s" by auto
    then show ?thesis using True
      by (simp add: hlc_tick_def hlc_update_def Let_def hlc_zero_def max_absorb1)
  next
    case False
    then have "max now (physical_ms s) = physical_ms s" by simp
    then show ?thesis using False z
      by (simp add: hlc_tick_def hlc_update_def Let_def hlc_zero_def max_absorb1)
  qed
qed

section \<open>The packed timestamp\<close>

lemma max_phys: "drop_bit 16 (- 1 :: u64) = mask 48"
  by (rule bit_word_eqI) (auto simp: bit_simps)

lemma hlc_pack_small:
  "physical_ms h \<le> mask 48 \<Longrightarrow> hlc_to_u64 h = push_bit 16 (physical_ms h) OR ucast (logical h)"
  by (simp add: hlc_to_u64_def max_phys min_absorb1)

lemma le_mask_bits: "(x :: u64) \<le> mask 48 \<Longrightarrow> bit x n \<Longrightarrow> n < 48"
proof -
  assume "x \<le> mask 48" "bit x n"
  then have "unat x < 2 ^ 48" by (simp add: word_le_nat_alt mask_eq_exp_minus_1)
  then have "take_bit 48 x = x"
    by (simp add: word_unat_eq_iff unsigned_take_bit_eq take_bit_nat_eq_self)
  then show "n < 48" using \<open>bit x n\<close> by (metis bit_take_bit_iff)
qed

lemma hlc_unpack_pack:
  assumes "physical_ms h \<le> mask 48"
  shows "hlc_from_u64 (hlc_to_u64 h) = h"
proof -
  have p: "drop_bit 16 (push_bit 16 (physical_ms h) OR ucast (logical h)) = physical_ms h"
    using le_mask_bits[OF assms]
    by (intro bit_word_eqI) (auto simp: bit_simps dest: bit_imp_le_length)
  have "(0xFFFF :: u64) = mask 16" by (simp add: mask_eq_exp_minus_1)
  then have l: "ucast ((push_bit 16 (physical_ms h) OR ucast (logical h)) AND 0xFFFF) = logical h"
    unfolding \<open>0xFFFF = mask 16\<close> by (intro bit_word_eqI) (auto simp: bit_and_iff bit_or_iff bit_mask_iff bit_push_bit_iff bit_unsigned_iff)
  show ?thesis using p l by (simp add: hlc_from_u64_def hlc_pack_small[OF assms])
qed

lemma unat_hlc_pack:
  assumes "physical_ms h \<le> mask 48"
  shows "unat (hlc_to_u64 h) = unat (physical_ms h) * 65536 + unat (logical h)"
proof -
  have disj: "push_bit 16 (physical_ms h) AND ucast (logical h) = 0"
    by (rule bit_word_eqI) (auto simp: bit_simps dest: bit_imp_le_length)
  have "unat (physical_ms h) \<le> unat (mask 48 :: u64)"
    using assms by (simp add: word_le_nat_alt)
  then have b: "unat (physical_ms h) < 2 ^ 48"
    by (simp add: mask_eq_exp_minus_1)
  have l: "unat (logical h) < 2 ^ 16" using unsigned_less[of "logical h", where ?'a = nat] by simp
  have "push_bit 16 (physical_ms h) OR ucast (logical h) = push_bit 16 (physical_ms h) + ucast (logical h)"
    using disj by (simp add: disjunctive_add_eq_or)
  then have "hlc_to_u64 h = physical_ms h * 65536 + ucast (logical h)"
    by (simp add: hlc_pack_small[OF assms] push_bit_eq_mult)
  moreover have "unat (physical_ms h * 65536 :: u64) = unat (physical_ms h) * 65536"
    using b by (simp add: unat_word_ariths)
  moreover have "unat (ucast (logical h) :: u64) = unat (logical h)"
    using l by (simp add: unsigned_ucast_eq take_bit_nat_eq_self)
  ultimately show ?thesis using b l by (simp add: unat_word_ariths)
qed

lemma hlc_pack_less_iff:
  assumes a: "physical_ms a \<le> mask 48" and b: "physical_ms b \<le> mask 48"
  shows "hlc_to_u64 a < hlc_to_u64 b \<longleftrightarrow> a < b"
proof -
  have l: "unat (logical h) < 65536" for h
    using unsigned_less[of "logical h", where ?'a = nat] by simp
  have "unat (physical_ms a) * 65536 + unat (logical a) < unat (physical_ms b) * 65536 + unat (logical b)
     \<longleftrightarrow> unat (physical_ms a) < unat (physical_ms b) \<or>
         unat (physical_ms a) = unat (physical_ms b) \<and> unat (logical a) < unat (logical b)"
    using l[of a] l[of b] by (auto; presburger)
  then show ?thesis
    by (simp add: word_less_nat_alt[of "hlc_to_u64 a"] unat_hlc_pack[OF a] unat_hlc_pack[OF b]
        less_hlc_def word_less_nat_alt word_unat_eq_iff)
qed

section \<open>Properties\<close>

lemma saturating_add_one_gt_iff: "x < saturating_add x 1 \<longleftrightarrow> x \<noteq> - 1" for x :: "'a::len word"
  using saturating_add_one_gt[of x] word_order.extremum_strict[of "saturating_add x 1"] by auto

text \<open>
  C9. A local tick never moves the clock back, and it fails to move it strictly forward exactly when
  the wall clock has not passed the clock's physical part and the 16-bit logical counter is
  saturated. So ticks are unique until 65535 of them fall within one millisecond.
\<close>

theorem hlc_tick_advances_iff:
  "s \<le> hlc_tick s now \<and> (hlc_tick s now \<le> s \<longleftrightarrow> now \<le> physical_ms s \<and> logical s = - 1)"
proof -
  have "saturating_add (logical s) 1 \<le> logical s \<longleftrightarrow> logical s = - 1"
    by (metis not_less saturating_add_one_gt_iff)
  then show ?thesis
    by (auto simp: hlc_tick_unfold less_eq_hlc_def saturating_add_one_ge)
qed

text \<open>
  C7. Receiving a timestamp through the guarded merge: an accepted merge dominates the local
  clock, the remote sample and the wall clock, strictly dominates both samples while no logical
  counter is saturated, and leads the wall clock by no more than the larger of the configured offset and
  the lead the clock had before: a clock that is already further ahead stays so.
\<close>

theorem hlc_checked_update_sound:
  assumes "hlc_checked_update s now (Some r) off = Inr s'"
  shows "s \<le> s' \<and> r \<le> s' \<and> now \<le> physical_ms s' \<and>
    (logical s \<noteq> - 1 \<and> logical r \<noteq> - 1 \<longrightarrow> s < s' \<and> r < s') \<and>
    lead_over_wall_ms s' now \<le> max off (lead_over_wall_ms s now)"
proof (intro conjI)
  show "s \<le> s'" "r \<le> s'" "now \<le> physical_ms s'"
    and "logical s \<noteq> - 1 \<and> logical r \<noteq> - 1 \<longrightarrow> s < s' \<and> r < s'"
    using assms hlc_update_ge_self[of s now "Some r"] hlc_update_ge_remote[of r s now]
      hlc_update_physical[of s now "Some r"] hlc_update_sound[of s r now]
    by (auto simp: hlc_checked_update_def max_def split: if_splits)
  have le: "physical_ms r \<le> saturating_add now off" and s': "s' = hlc_update s now (Some r)"
    using assms by (auto simp: hlc_checked_update_def not_less split: if_splits)
  have "unat (physical_ms r) \<le> unat now + unat off"
    using le unat_saturating_add[of now off] by (simp add: word_le_nat_alt)
  then show "lead_over_wall_ms s' now \<le> max off (lead_over_wall_ms s now)"
    by (auto simp: s' lead_over_wall_ms_def hlc_update_physical word_le_nat_alt unat_saturating_sub unat_max)
qed

theorem hlc_checked_update_sound_witness:
  "hlc_checked_update (Hlc 10 2) 11 (Some (Hlc 14 3)) 5 = Inr (Hlc 14 4) \<and>
   Hlc 10 2 < Hlc 14 4 \<and> lead_over_wall_ms (Hlc 14 4) 11 \<le> max 5 (lead_over_wall_ms (Hlc 10 2) 11)"
proof -
  have e: "hlc_checked_update (Hlc 10 2) 11 (Some (Hlc 14 3)) 5 = Inr (Hlc 14 4)"
    by (simp add: hlc_checked_update_def hlc_update_def saturating_add_def Let_def)
  show ?thesis using e hlc_checked_update_sound[OF e] by simp
qed

text \<open>
  C8. The packed commit timestamp. While the physical part fits 48 bits, unpacking a packed
  clock gives it back and packed timestamps compare as the clocks do, so sorting versions by
  their packed timestamp is sorting them by clock.
\<close>

theorem hlc_packed_order:
  assumes "physical_ms a \<le> mask 48" and "physical_ms b \<le> mask 48"
  shows "hlc_from_u64 (hlc_to_u64 a) = a \<and> (hlc_to_u64 a < hlc_to_u64 b \<longleftrightarrow> a < b)"
  using assms by (simp add: hlc_unpack_pack hlc_pack_less_iff)

theorem hlc_packed_order_witness:
  "hlc_from_u64 (hlc_to_u64 (Hlc 1700000000000 65535)) = Hlc 1700000000000 65535 \<and>
   hlc_to_u64 (Hlc 1700000000000 65535) < hlc_to_u64 (Hlc 1700000000001 0)"
  using hlc_packed_order[of "Hlc 1700000000000 65535" "Hlc 1700000000001 0"]
  by (simp add: mask_eq_exp_minus_1 less_hlc_def)

end
