(* ===== verification/Wal_Codec.thy ===== *)
theory Wal_Codec
  imports Kaya_Core
begin

text \<open>
  The record format of the write-ahead log, \<^verbatim>\<open>src/crates/kaya-wal/src/codec.rs\<close>: a fixed
  40-byte header (magic, version, header length, flags, record type, LSN, sequence, payload
  length, header CRC, payload CRC) followed by the payload.

  Shown here: a record that was encoded is decoded again, whatever follows it in the
  segment; the decoder accepts nothing but encodings; and a record in which any single byte was
  changed is never accepted.
\<close>

definition WAL_MAGIC :: u32 where "WAL_MAGIC = 0x4b415941"
definition WAL_VERSION :: u16 where "WAL_VERSION = 1"
definition WAL_HEADER_LEN :: nat where "WAL_HEADER_LEN = 40"

datatype wal_record_type = RecPut | RecDelete | RecNoop

definition from_wire :: "u16 \<Rightarrow> wal_record_type option" where
  "from_wire v =
    (if v = 1 then Some RecPut else if v = 2 then Some RecDelete
     else if v = 3 then Some RecNoop else None)"

fun as_wire :: "wal_record_type \<Rightarrow> u16" where
  "as_wire RecPut = 1"
| "as_wire RecDelete = 2"
| "as_wire RecNoop = 3"

datatype wal_payload = Put bytes bytes | Delete bytes | Noop

fun payload_record_type :: "wal_payload \<Rightarrow> wal_record_type" where
  "payload_record_type (Put _ _) = RecPut"
| "payload_record_type (Delete _) = RecDelete"
| "payload_record_type Noop = RecNoop"

fun payload_key_len :: "wal_payload \<Rightarrow> nat option" where
  "payload_key_len (Put k _) = Some (length k)"
| "payload_key_len (Delete k) = Some (length k)"
| "payload_key_len Noop = None"

fun payload_value_len :: "wal_payload \<Rightarrow> nat option" where
  "payload_value_len (Put _ v) = Some (length v)"
| "payload_value_len (Delete _) = None"
| "payload_value_len Noop = None"

record wal_record =
  wr_flags :: u16
  wr_lsn :: lsn
  wr_sequence :: seqno
  wr_payload :: wal_payload

definition new_record :: "lsn \<Rightarrow> seqno \<Rightarrow> wal_payload \<Rightarrow> wal_record" where
  "new_record l s p = \<lparr>wr_flags = 0, wr_lsn = l, wr_sequence = s, wr_payload = p\<rparr>"

definition record_type :: "wal_record \<Rightarrow> wal_record_type" where
  "record_type r = payload_record_type (wr_payload r)"

datatype wal_warning =
    PartialHeader u64
  | PartialPayload u64 nat nat
  | BadMagic u64 u32
  | UnsupportedWalVersion u64 u16
  | BadHeaderLength u64 u16
  | UnknownFlags u64 u16
  | UnknownRecordType u64 u16
  | OversizedPayload u64 u32 u32
  | BadHeaderChecksum u64 u32 u32
  | BadPayloadChecksum u64 u32 u32
  | MalformedPayload u64 string
  | NonMonotonicLsn u64 u64 u64
  | TailTruncated string u64 u64
  | TrailingSegmentsIgnored nat

datatype decode_record_result =
    Complete wal_record nat
  | Incomplete wal_warning
  | Invalid wal_warning

section \<open>Encoding\<close>

fun encode_payload :: "wal_payload \<Rightarrow> bytes result" where
  "encode_payload (Put key value) =
    (case u32_try_from (length key) of
       None \<Rightarrow> Inl (InvalidArgument ''WAL PUT key length does not fit into u32'')
     | Some key_len \<Rightarrow>
         (case u32_try_from (length value) of
            None \<Rightarrow> Inl (InvalidArgument ''WAL PUT value length does not fit into u32'')
          | Some value_len \<Rightarrow> Inr (u32_le key_len @ u32_le value_len @ key @ value)))"
| "encode_payload (Delete key) =
    (case u32_try_from (length key) of
       None \<Rightarrow> Inl (InvalidArgument ''WAL DELETE key length does not fit into u32'')
     | Some key_len \<Rightarrow> Inr (u32_le key_len @ key))"
| "encode_payload Noop = Inr []"

text \<open>The header with a zero header CRC, which is what the header CRC is computed over.\<close>

definition header_zeroed :: "u16 \<Rightarrow> wal_record_type \<Rightarrow> lsn \<Rightarrow> seqno \<Rightarrow> u32 \<Rightarrow> u32 \<Rightarrow> bytes" where
  "header_zeroed flags rt l s payload_len payload_crc =
    u32_le WAL_MAGIC @ u16_le WAL_VERSION @ u16_le (word_of_nat WAL_HEADER_LEN) @ u16_le flags
    @ u16_le (as_wire rt) @ u64_le l @ u64_le s @ u32_le payload_len @ u32_le 0
    @ u32_le payload_crc"

definition encode_record :: "wal_record \<Rightarrow> bytes result" where
  "encode_record r =
    (case encode_payload (wr_payload r) of
       Inl e \<Rightarrow> Inl e
     | Inr payload \<Rightarrow>
         (case u32_try_from (length payload) of
            None \<Rightarrow> Inl (InvalidArgument ''WAL payload length does not fit into u32'')
          | Some payload_len \<Rightarrow>
              let payload_crc = crc32c payload;
                  encoded = header_zeroed (wr_flags r) (record_type r) (wr_lsn r) (wr_sequence r)
                    payload_len payload_crc;
                  header_crc = crc32c (take WAL_HEADER_LEN encoded)
              in Inr (take 32 encoded @ u32_le header_crc @ drop 36 encoded @ payload)))"

section \<open>Decoding\<close>

definition decode_payload :: "wal_record_type \<Rightarrow> bytes \<Rightarrow> wal_payload result" where
  "decode_payload rt payload =
    (case rt of
       RecPut \<Rightarrow>
         if length payload < 8 then Inl (Corruption ''PUT payload header is too short'')
         else
           let key_len = unat (from_le (subrange 0 4 payload) :: u32);
               value_len = unat (from_le (subrange 4 8 payload) :: u32)
           in (case Option.bind (usize_checked_add 8 key_len) (\<lambda>len. usize_checked_add len value_len) of
                 None \<Rightarrow> Inl (Corruption ''PUT payload length overflows usize'')
               | Some expected \<Rightarrow>
                   if length payload \<noteq> expected
                   then Inl (Corruption (''PUT payload length mismatch: expected '' @ fmt_dec expected
                          @ '', got '' @ fmt_dec (length payload)))
                   else Inr (Put (subrange 8 (8 + key_len) payload) (drop (8 + key_len) payload)))
     | RecDelete \<Rightarrow>
         if length payload < 4 then Inl (Corruption ''DELETE payload header is too short'')
         else
           let key_len = unat (from_le (subrange 0 4 payload) :: u32)
           in (case usize_checked_add 4 key_len of
                 None \<Rightarrow> Inl (Corruption ''DELETE payload length overflows usize'')
               | Some expected \<Rightarrow>
                   if length payload \<noteq> expected
                   then Inl (Corruption (''DELETE payload length mismatch: expected '' @ fmt_dec expected
                          @ '', got '' @ fmt_dec (length payload)))
                   else Inr (Delete (drop 4 payload)))
     | RecNoop \<Rightarrow>
         if payload \<noteq> [] then Inl (Corruption ''NOOP payload must be empty'') else Inr Noop)"

definition decode_record :: "bytes \<Rightarrow> u64 \<Rightarrow> u32 \<Rightarrow> decode_record_result" where
  "decode_record input offset max_payload_len =
    (if input = [] then Incomplete (PartialHeader offset)
     else if length input < WAL_HEADER_LEN then Incomplete (PartialHeader offset)
     else
     let magic = from_le (subrange 0 4 input) in
     if magic \<noteq> WAL_MAGIC then Invalid (BadMagic offset magic)
     else
     let version = from_le (subrange 4 6 input) in
     if version \<noteq> WAL_VERSION then Invalid (UnsupportedWalVersion offset version)
     else
     let header_len = from_le (subrange 6 8 input) in
     if unat header_len \<noteq> WAL_HEADER_LEN then Invalid (BadHeaderLength offset header_len)
     else
     let flags = from_le (subrange 8 10 input) in
     if flags \<noteq> 0 then Invalid (UnknownFlags offset flags)
     else
     let record_type_raw = from_le (subrange 10 12 input) in
     (case from_wire record_type_raw of
        None \<Rightarrow> Invalid (UnknownRecordType offset record_type_raw)
      | Some rt \<Rightarrow>
        let lsn = from_le (subrange 12 20 input);
            sequence = from_le (subrange 20 28 input);
            payload_len = from_le (subrange 28 32 input)
        in
        if payload_len > max_payload_len
        then Invalid (OversizedPayload offset payload_len max_payload_len)
        else
        let actual_header_crc = from_le (subrange 32 36 input);
            header = take 32 input @ u32_le 0 @ subrange 36 40 input;
            expected_header_crc = crc32c header
        in
        if actual_header_crc \<noteq> expected_header_crc
        then Invalid (BadHeaderChecksum offset expected_header_crc actual_header_crc)
        else
        let actual_payload_crc = from_le (subrange 36 40 input);
            total_len = WAL_HEADER_LEN + unat payload_len
        in
        if length input < total_len
        then Incomplete (PartialPayload offset total_len (length input))
        else
        let payload_bytes = subrange WAL_HEADER_LEN total_len input;
            expected_payload_crc = crc32c payload_bytes
        in
        if actual_payload_crc \<noteq> expected_payload_crc
        then Invalid (BadPayloadChecksum offset expected_payload_crc actual_payload_crc)
        else
        (case decode_payload rt payload_bytes of
           Inl e \<Rightarrow> Invalid (MalformedPayload offset (error_to_string e))
         | Inr payload \<Rightarrow>
             Complete \<lparr>wr_flags = flags, wr_lsn = lsn, wr_sequence = sequence, wr_payload = payload\<rparr>
               total_len)))"

section \<open>Payloads\<close>

lemma unat_u32_bound: "unat (w :: u32) < 4294967296"
  using unsigned_less[of w, where ?'a = nat] by simp

lemma from_wire_as_wire [simp]: "from_wire (as_wire rt) = Some rt"
  by (cases rt) (simp_all add: from_wire_def)

lemma from_wire_Some: "from_wire v = Some rt \<Longrightarrow> as_wire rt = v"
  by (auto simp: from_wire_def split: if_splits)

lemma decode_encode_payload:
  assumes "encode_payload p = Inr bs"
  shows "decode_payload (payload_record_type p) bs = Inr p"
proof (cases p)
  case (Put k v)
  let ?k = "word_of_nat (length k) :: u32" and ?v = "word_of_nat (length v) :: u32"
  have small: "length k < 2 ^ 32" "length v < 2 ^ 32"
    and bs: "bs = u32_le ?k @ u32_le ?v @ k @ v"
    using assms Put by (simp_all split: option.splits)
  have u: "unat ?k = length k" "unat ?v = length v"
    using small by (simp_all add: unat_of_nat)
  have sl: "subrange 0 4 bs = u32_le ?k" "subrange 4 8 bs = u32_le ?v"
    "subrange 8 (8 + length k) bs = k" "drop (8 + length k) bs = v"
    by (simp_all add: bs)
  have "8 + length k + length v < 2 ^ 64" using small by simp
  then show ?thesis
    using sl u by (simp add: Put decode_payload_def Let_def usize_checked_add_def) (simp add: bs)
next
  case (Delete k)
  let ?k = "word_of_nat (length k) :: u32"
  have small: "length k < 2 ^ 32" and bs: "bs = u32_le ?k @ k"
    using assms Delete by (simp_all split: option.splits)
  have u: "unat ?k = length k"
    using small by (simp_all add: unat_of_nat)
  have sl: "subrange 0 4 bs = u32_le ?k" "drop 4 bs = k" by (simp_all add: bs)
  have "4 + length k < 2 ^ 64" using small by simp
  then show ?thesis
    by (simp add: Delete decode_payload_def sl Let_def u usize_checked_add_def bs)
next
  case Noop
  with assms show ?thesis by (simp add: decode_payload_def)
qed

lemma encode_decode_payload:
  assumes "decode_payload rt bs = Inr p"
  shows "payload_record_type p = rt \<and> encode_payload p = Inr bs"
proof (cases rt)
  case RecPut
  let ?k = "unat (from_le (subrange 0 4 bs) :: u32)"
  let ?v = "unat (from_le (subrange 4 8 bs) :: u32)"
  have len: "8 \<le> length bs" "length bs = 8 + ?k + ?v"
    and p: "p = Put (subrange 8 (8 + ?k) bs) (drop (8 + ?k) bs)"
    using assms RecPut
    by (auto simp: decode_payload_def Let_def usize_checked_add_def split: if_splits option.splits)
  have l: "length (subrange 8 (8 + ?k) bs) = ?k" "length (drop (8 + ?k) bs) = ?v"
    using len by simp_all
  have "u32_le (from_le (subrange 0 4 bs)) = subrange 0 4 bs" "u32_le (from_le (subrange 4 8 bs)) = subrange 4 8 bs"
    using len by (simp_all add: to_le_from_le)
  then have "u32_le (word_of_nat ?k) @ u32_le (word_of_nat ?v) = take 8 bs"
    using subrange_join[of 0 4 8 bs] by (simp add: subrange_0_take)
  moreover have "subrange 8 (8 + ?k) bs @ drop (8 + ?k) bs = drop 8 bs"
    by (rule subrange_append_drop) simp
  ultimately have "u32_le (word_of_nat ?k) @ u32_le (word_of_nat ?v) @ subrange 8 (8 + ?k) bs @ drop (8 + ?k) bs = bs"
    by (metis append.assoc append_take_drop_id)
  then show ?thesis using p l RecPut unat_u32_bound
    by (auto simp: u32_try_from_def)
next
  case RecDelete
  let ?k = "unat (from_le (subrange 0 4 bs) :: u32)"
  have len: "4 \<le> length bs" "length bs = 4 + ?k" and p: "p = Delete (drop 4 bs)"
    using assms RecDelete
    by (auto simp: decode_payload_def Let_def usize_checked_add_def split: if_splits option.splits)
  have l: "length (drop 4 bs) = ?k" using len by simp
  have "u32_le (from_le (subrange 0 4 bs)) = subrange 0 4 bs" using len by (simp add: to_le_from_le)
  then have "u32_le (word_of_nat ?k) @ drop 4 bs = bs" by (simp add: subrange_0_take)
  then show ?thesis using p l RecDelete unat_u32_bound by (auto simp: u32_try_from_def)
next
  case RecNoop
  with assms show ?thesis by (auto simp: decode_payload_def split: if_splits)
qed

section \<open>Records\<close>

text \<open>The first 32 bytes of a header, in the order the encoder writes them.\<close>

definition header_prefix :: "u16 \<Rightarrow> wal_record_type \<Rightarrow> lsn \<Rightarrow> seqno \<Rightarrow> u32 \<Rightarrow> bytes" where
  "header_prefix flags rt l s payload_len =
    u32_le WAL_MAGIC @ u16_le WAL_VERSION @ u16_le (word_of_nat WAL_HEADER_LEN) @ u16_le flags
    @ u16_le (as_wire rt) @ u64_le l @ u64_le s @ u32_le payload_len"

lemma length_header_prefix [simp]: "length (header_prefix f rt l s n) = 32"
  by (simp add: header_prefix_def)

lemma header_zeroed_eq: "header_zeroed f rt l s n c = header_prefix f rt l s n @ u32_le 0 @ u32_le c"
  by (simp add: header_zeroed_def header_prefix_def)

lemma encode_record_layout:
  "encode_record r = Inr bs \<longleftrightarrow>
    (\<exists>payload. encode_payload (wr_payload r) = Inr payload \<and> length payload < 2 ^ 32 \<and>
      (let hp = header_prefix (wr_flags r) (record_type r) (wr_lsn r) (wr_sequence r)
                  (word_of_nat (length payload));
           pc = u32_le (crc32c payload)
       in bs = hp @ u32_le (crc32c (hp @ u32_le 0 @ pc)) @ pc @ payload))"
  by (auto simp: encode_record_def Let_def header_zeroed_eq WAL_HEADER_LEN_def
      split: sum.splits option.splits)

lemma header_prefix_reads:
  assumes "inp = header_prefix f rt l s n @ rest"
  shows "from_le (subrange 0 4 inp) = WAL_MAGIC" "from_le (subrange 4 6 inp) = WAL_VERSION"
    "from_le (subrange 6 8 inp) = (40 :: u16)" "from_le (subrange 8 10 inp) = f"
    "from_le (subrange 10 12 inp) = as_wire rt" "from_le (subrange 12 20 inp) = l"
    "from_le (subrange 20 28 inp) = s" "from_le (subrange 28 32 inp) = n"
  using assms by (simp_all add: header_prefix_def WAL_HEADER_LEN_def)

text \<open>A header prefix is determined by its fields.\<close>

lemma header_prefix_of_reads:
  assumes "32 \<le> length inp" "from_le (subrange 0 4 inp) = WAL_MAGIC"
    "from_le (subrange 4 6 inp) = WAL_VERSION" "unat (from_le (subrange 6 8 inp) :: u16) = 40"
    "from_le (subrange 10 12 inp) = as_wire rt"
  shows "take 32 inp = header_prefix (from_le (subrange 8 10 inp)) rt (from_le (subrange 12 20 inp))
    (from_le (subrange 20 28 inp)) (from_le (subrange 28 32 inp))"
proof -
  have h: "from_le (subrange 6 8 inp) = (word_of_nat WAL_HEADER_LEN :: u16)"
    using assms(4) by (simp add: word_unat_eq_iff WAL_HEADER_LEN_def)
  have "header_prefix (from_le (subrange 8 10 inp)) rt (from_le (subrange 12 20 inp))
    (from_le (subrange 20 28 inp)) (from_le (subrange 28 32 inp)) =
    subrange 0 4 inp @ subrange 4 6 inp @ subrange 6 8 inp @ subrange 8 10 inp @ subrange 10 12 inp
    @ subrange 12 20 inp @ subrange 20 28 inp @ subrange 28 32 inp"
    unfolding header_prefix_def assms(2,3,5)[symmetric] h[symmetric]
    using assms(1) by (simp add: to_le_from_le_subrange)
  also have "\<dots> = take 32 inp"
    using subrange_join[of 20 28 32 inp] subrange_join[of 12 20 32 inp] subrange_join[of 10 12 32 inp]
      subrange_join[of 8 10 32 inp] subrange_join[of 6 8 32 inp] subrange_join[of 4 6 32 inp]
      subrange_join[of 0 4 32 inp]
    by (simp add: subrange_0_take)
  finally show ?thesis by simp
qed

lemma decode_encode_record:
  assumes enc: "encode_record r = Inr bs" and fl: "wr_flags r = 0"
    and size: "length bs - WAL_HEADER_LEN \<le> unat max_len"
  shows "decode_record (bs @ rest) off max_len = Complete r (length bs)"
proof -
  obtain payload where p: "encode_payload (wr_payload r) = Inr payload" and small: "length payload < 2 ^ 32"
    and bs: "bs = header_prefix (wr_flags r) (record_type r) (wr_lsn r) (wr_sequence r)
         (word_of_nat (length payload)) @
       u32_le (crc32c (header_prefix (wr_flags r) (record_type r) (wr_lsn r) (wr_sequence r)
         (word_of_nat (length payload)) @ u32_le 0 @ u32_le (crc32c payload))) @
       u32_le (crc32c payload) @ payload"
    using enc unfolding encode_record_layout Let_def by blast
  let ?hp = "header_prefix (wr_flags r) (record_type r) (wr_lsn r) (wr_sequence r)
         (word_of_nat (length payload))"
  define inp where "inp = bs @ rest"
  have len: "length bs = 40 + length payload" by (simp add: bs)
  have u: "unat (word_of_nat (length payload) :: u32) = length payload"
    using small by (simp add: unat_of_nat)
  have le: "\<not> word_of_nat (length payload) > max_len"
    using size u by (simp add: len WAL_HEADER_LEN_def word_less_nat_alt)
  have inp: "inp = ?hp @ u32_le (crc32c (?hp @ u32_le 0 @ u32_le (crc32c payload))) @
      u32_le (crc32c payload) @ payload @ rest" by (simp add: inp_def bs)
  have reads: "subrange 32 36 inp = u32_le (crc32c (?hp @ u32_le 0 @ u32_le (crc32c payload)))"
    "subrange 36 40 inp = u32_le (crc32c payload)" "take 32 inp = ?hp"
    "subrange 40 (40 + length payload) inp = payload"
    by (simp_all add: inp)
  have "length inp = 40 + length payload + length rest" by (simp add: inp)
  then have ne: "inp \<noteq> []" "\<not> length inp < 40" "\<not> length inp < 40 + length payload"
    by auto
  have dp: "decode_payload (record_type r) payload = Inr (wr_payload r)"
    using decode_encode_payload[OF p] by (simp add: record_type_def)
  have "decode_record inp off max_len = Complete r (length bs)"
    using ne le by (simp add: decode_record_def Let_def header_prefix_reads[OF inp] reads fl u
        WAL_HEADER_LEN_def dp len)
  then show ?thesis by (simp add: inp_def)
qed

text \<open>What the decoder has established when it returns a record.\<close>

lemma decode_record_CompleteD:
  assumes "decode_record inp off m = Complete r n"
  shows "40 \<le> length inp" "from_le (subrange 0 4 inp) = WAL_MAGIC"
    "from_le (subrange 4 6 inp) = WAL_VERSION" "unat (from_le (subrange 6 8 inp) :: u16) = 40"
    "from_le (subrange 8 10 inp) = (0 :: u16)"
    "from_wire (from_le (subrange 10 12 inp)) = Some (record_type r)"
    "from_le (subrange 28 32 inp) \<le> m"
    "from_le (subrange 32 36 inp) = crc32c (take 32 inp @ u32_le 0 @ subrange 36 40 inp)"
    "n = 40 + unat (from_le (subrange 28 32 inp) :: u32)" "n \<le> length inp"
    "from_le (subrange 36 40 inp) = crc32c (subrange 40 n inp)"
    "encode_payload (wr_payload r) = Inr (subrange 40 n inp)"
    "wr_flags r = 0" "wr_lsn r = from_le (subrange 12 20 inp)"
    "wr_sequence r = from_le (subrange 20 28 inp)"
  using assms
  by (auto simp: decode_record_def Let_def WAL_HEADER_LEN_def record_type_def not_less
      dest: encode_decode_payload split: if_splits option.splits sum.splits)

lemma encode_of_decode:
  assumes d: "decode_record inp off m = Complete r n"
  shows "encode_record r = Inr (take n inp)"
proof -
  note D = decode_record_CompleteD[OF d]
  let ?pl = "subrange 40 n inp"
  have rt: "from_le (subrange 10 12 inp) = as_wire (record_type r)"
    using D(6) by (simp add: from_wire_Some)
  have lp: "length ?pl = unat (from_le (subrange 28 32 inp) :: u32)"
    using D(9,10) by simp
  have hp: "take 32 inp = header_prefix (wr_flags r) (record_type r) (wr_lsn r) (wr_sequence r)
      (word_of_nat (length ?pl))"
    using header_prefix_of_reads[of inp "record_type r"] D rt lp by simp
  have c: "subrange 36 40 inp = u32_le (crc32c ?pl)"
    using D(1) by (simp add: D(11)[symmetric] to_le_from_le)
  have h: "subrange 32 36 inp = u32_le (crc32c (take 32 inp @ u32_le 0 @ u32_le (crc32c ?pl)))"
    using D(1) by (simp add: c[symmetric] D(8)[symmetric] to_le_from_le)
  have "take n inp = take 32 inp @ subrange 32 36 inp @ subrange 36 40 inp @ ?pl"
    using D(9) subrange_join[of 36 40 n inp] subrange_join[of 32 36 n inp] subrange_join[of 0 32 n inp]
    by (simp add: subrange_0_take)
  then show ?thesis
    unfolding encode_record_layout Let_def
    using D(12) lp h c hp unat_u32_bound by (intro exI[of _ ?pl]) simp
qed

text \<open>
  The decoder accepts exactly the encodings of records with no flags whose payload fits the
  limit, and reports exactly the bytes the encoding takes.
\<close>

lemma decode_record_Complete_iff:
  "decode_record inp off m = Complete r n \<longleftrightarrow>
    wr_flags r = 0 \<and> n \<le> length inp \<and> encode_record r = Inr (take n inp) \<and>
    n - WAL_HEADER_LEN \<le> unat m"
proof
  assume d: "decode_record inp off m = Complete r n"
  note D = decode_record_CompleteD[OF d]
  show "wr_flags r = 0 \<and> n \<le> length inp \<and> encode_record r = Inr (take n inp) \<and>
    n - WAL_HEADER_LEN \<le> unat m"
    using D(7,9,10,13) encode_of_decode[OF d] by (simp add: WAL_HEADER_LEN_def word_le_nat_alt)
next
  assume "wr_flags r = 0 \<and> n \<le> length inp \<and> encode_record r = Inr (take n inp) \<and>
    n - WAL_HEADER_LEN \<le> unat m"
  then show "decode_record inp off m = Complete r n"
    using decode_encode_record[of r "take n inp" m "drop n inp" off] by (simp add: min_absorb2)
qed

section \<open>Corruption\<close>

lemma encode_record_parts:
  assumes "encode_record r = Inr bs"
  obtains hp hc pc pl where "bs = hp @ hc @ pc @ pl" "length hp = 32" "length hc = 4" "length pc = 4"
    "from_le (subrange 28 32 hp) = (word_of_nat (length pl) :: u32)" "length pl < 2 ^ 32"
    "from_le hc = crc32c (hp @ u32_le 0 @ pc)" "from_le pc = crc32c pl"
proof -
  obtain pl where pl: "length pl < 2 ^ 32" and bs: "bs = header_prefix (wr_flags r) (record_type r)
      (wr_lsn r) (wr_sequence r) (word_of_nat (length pl)) @
      u32_le (crc32c (header_prefix (wr_flags r) (record_type r) (wr_lsn r) (wr_sequence r)
        (word_of_nat (length pl)) @ u32_le 0 @ u32_le (crc32c pl))) @ u32_le (crc32c pl) @ pl"
    using assms unfolding encode_record_layout Let_def by blast
  show thesis
    using pl by (intro that[OF bs]) (simp_all add: header_prefix_reads(8)[of _ _ _ _ _ _ "[]"])
qed

text \<open>
  If a decoded input starts with the parts of an encoded record, with one part replaced, the
  checks of the decoder pin every part down again.
\<close>

lemma decode_Complete_parts:
  assumes d: "decode_record (hp @ hc @ pc @ pl @ rest) off m = Complete r n"
    and len: "length hp = 32" "length hc = 4" "length pc = 4"
  shows "from_le hc = crc32c (hp @ u32_le 0 @ pc)"
    and "from_le (subrange 28 32 hp) = (word_of_nat (length pl) :: u32) \<Longrightarrow> length pl < 2 ^ 32 \<Longrightarrow>
      from_le pc = crc32c pl"
proof -
  note D = decode_record_CompleteD[OF d]
  show "from_le hc = crc32c (hp @ u32_le 0 @ pc)"
    using D(8) len by (simp add: subrange_all)
  assume n: "from_le (subrange 28 32 hp) = (word_of_nat (length pl) :: u32)" and s: "length pl < 2 ^ 32"
  have "n = 40 + length pl" using D(9) n s len by (simp add: unat_of_nat)
  then show "from_le pc = crc32c pl" using D(11) len by (simp add: subrange_all)
qed

lemma decode_detects_one_byte:
  assumes enc: "encode_record r = Inr bs" and i: "i < length bs" and v: "v \<noteq> bs ! i"
  shows "decode_record (bs[i := v] @ rest) off m \<noteq> Complete r' n"
proof
  assume d: "decode_record (bs[i := v] @ rest) off m = Complete r' n"
  obtain hp hc pc pl where bs: "bs = hp @ hc @ pc @ pl" and len: "length hp = 32" "length hc = 4" "length pc = 4"
    and pn: "from_le (subrange 28 32 hp) = (word_of_nat (length pl) :: u32)" "length pl < 2 ^ 32"
    and crc: "from_le hc = crc32c (hp @ u32_le 0 @ pc)" "from_le pc = crc32c pl"
    by (rule encode_record_parts[OF enc])
  consider "i < 32" | "32 \<le> i" "i < 36" | "36 \<le> i" "i < 40" | "40 \<le> i" by linarith
  then show False
  proof cases
    case 1
    then have "bs[i := v] @ rest = hp[i := v] @ hc @ pc @ pl @ rest"
      using len by (simp add: bs list_update_append)
    then have "from_le hc = crc32c ((hp @ u32_le 0 @ pc)[i := v])"
      using decode_Complete_parts(1)[of "hp[i := v]" hc pc pl] d len 1
      by (simp add: list_update_append)
    moreover have "v \<noteq> (hp @ u32_le 0 @ pc) ! i" using v 1 len by (simp add: bs nth_append)
    ultimately show False
      using crc(1) crc32c_list_update[of i "hp @ u32_le 0 @ pc" v] 1 len by simp
  next
    case 2
    then have j: "i - 32 < 4" by linarith
    have "bs[i := v] @ rest = hp @ hc[i - 32 := v] @ pc @ pl @ rest"
      using len j 2 by (simp add: bs list_update_append)
    then have "from_le (hc[i - 32 := v]) = (from_le hc :: u32)"
      using decode_Complete_parts(1)[of hp "hc[i - 32 := v]" pc pl] d len crc(1) by simp
    then have "hc[i - 32 := v] = hc" using len from_le_inject[of _ 4 _, where 'a = 32] by simp
    moreover have "v \<noteq> hc ! (i - 32)" using v 2 j len by (simp add: bs nth_append)
    ultimately show False using j len by (metis nth_list_update_eq)
  next
    case 3
    then have j: "i - 36 < 4" "\<not> i - 32 < 4" "\<not> i < 32" by linarith+
    have "bs[i := v] @ rest = hp @ hc @ pc[i - 36 := v] @ pl @ rest"
      using len j 3 by (simp add: bs list_update_append)
    then have "from_le hc = crc32c (hp @ u32_le 0 @ pc[i - 36 := v])"
      using decode_Complete_parts(1)[of hp hc "pc[i - 36 := v]" pl] d len by simp
    moreover have "v \<noteq> (hp @ u32_le 0 @ pc) ! i" using v j 3 len by (simp add: bs nth_append)
    ultimately show False
      using crc(1) crc32c_list_update[of i "hp @ u32_le 0 @ pc" v] 3 j len by (simp add: list_update_append)
  next
    case 4
    then have j: "\<not> i - 36 < 4" "\<not> i - 32 < 4" "\<not> i < 32" by linarith+
    have "bs[i := v] @ rest = hp @ hc @ pc @ pl[i - 40 := v] @ rest"
      using len j 4 by (simp add: bs list_update_append)
    then have "from_le pc = crc32c (pl[i - 40 := v])"
      using decode_Complete_parts(2)[of hp hc pc "pl[i - 40 := v]"] d len pn by simp
    moreover have "v \<noteq> pl ! (i - 40)" using v j 4 len by (simp add: bs nth_append)
    moreover have "i - 40 < length pl" using i j 4 len by (simp add: bs)
    ultimately show False using crc(2) crc32c_list_update[of "i - 40" pl v] by simp
  qed
qed

section \<open>Properties\<close>

fun payload_len :: "wal_payload \<Rightarrow> nat" where
  "payload_len (Put k v) = 8 + length k + length v"
| "payload_len (Delete k) = 4 + length k"
| "payload_len Noop = 0"

lemma encode_record_total:
  assumes "payload_len (wr_payload r) < 2 ^ 32"
  shows "\<exists>bs. encode_record r = Inr bs \<and> length bs = WAL_HEADER_LEN + payload_len (wr_payload r)"
  using assms by (cases "wr_payload r")
    (auto simp: encode_record_def u32_try_from_def Let_def header_zeroed_def WAL_HEADER_LEN_def)


text \<open>
  C5. The decoder accepts exactly the encodings: at the start of a buffer it returns a
  complete record of \<^verbatim>\<open>n\<close> bytes if and only if the first \<^verbatim>\<open>n\<close> bytes are that record's encoding,
  its flags are zero and its payload is within the configured limit. Whatever follows in the
  segment, at whatever offset, plays no part.
\<close>

theorem decode_record_exact:
  "decode_record input off m = Complete r n \<longleftrightarrow>
    (\<exists>bs rest. input = bs @ rest \<and> encode_record r = Inr bs \<and> n = length bs \<and> wr_flags r = 0 \<and>
      length bs - WAL_HEADER_LEN \<le> unat m)"
  unfolding decode_record_Complete_iff
proof (intro iffI; elim exE conjE)
  assume *: "wr_flags r = 0" "n \<le> length input" "encode_record r = Inr (take n input)"
    "n - WAL_HEADER_LEN \<le> unat m"
  then show "\<exists>bs rest. input = bs @ rest \<and> encode_record r = Inr bs \<and> n = length bs \<and> wr_flags r = 0 \<and>
      length bs - WAL_HEADER_LEN \<le> unat m"
    by (intro exI[of _ "take n input"] exI[of _ "drop n input"]) simp
qed simp

text \<open>
  C4. Damage is noticed: when any one byte of an encoded record is replaced by another value,
  the decoder accepts no record at that place, neither the original nor any other, whatever bytes
  follow it.
\<close>

theorem wal_record_one_byte_damage:
  assumes "encode_record r = Inr bs" and "i < length bs" and "v \<noteq> bs ! i"
  shows "decode_record (bs[i := v] @ rest) off m \<noteq> Complete r' n"
  using assms by (rule decode_detects_one_byte)

theorem wal_record_one_byte_damage_witness:
  "\<exists>bs. encode_record (new_record 1 1 (Put [1] [2])) = Inr bs \<and> 28 < length bs \<and>
    decode_record (bs[28 := bs ! 28 + 1]) 0 (- 1) \<noteq> Complete (new_record 1 1 (Put [1] [2])) 50"
proof -
  obtain bs where e: "encode_record (new_record 1 1 (Put [1] [2])) = Inr bs" and l: "28 < length bs"
    using encode_record_total[of "new_record 1 1 (Put [1] [2])"]
    by (auto simp: new_record_def WAL_HEADER_LEN_def)
  show ?thesis
    using e l wal_record_one_byte_damage[OF e l, of "bs ! 28 + 1" "[]"] by auto
qed

end
