(* ===== verification/Rel_Path.thy ===== *)
theory Rel_Path
  imports Kaya_Core "HOL-Library.Sublist"
begin

text \<open>
  Paths relative to the data directory, \<^verbatim>\<open>src/crates/kaya-io/src/path.rs\<close>: the normaliser
  \<^verbatim>\<open>RelativePath::new\<close> and the operations on normalised paths. A normalised path never has an
  empty, \<^verbatim>\<open>.\<close> or \<^verbatim>\<open>..\<close> component, so it stays below the directory it is joined to. Strings are
  their UTF-8 bytes; trimming removes the encodings of the Unicode white space characters.
\<close>

section \<open>The string operations of the standard library\<close>

definition white_space :: "string list" where
  "white_space =
    map (\<lambda>n. [char_of n]) [9, 10, 11, 12, 13, 32 :: nat]
    @ map (map char_of) [[0xC2, 0x85], [0xC2, 0xA0], [0xE1, 0x9A, 0x80 :: nat]]
    @ map (\<lambda>n. map char_of [0xE2, 0x80, n]) ([0x80..<0x8B] @ [0xA8, 0xA9, 0xAF :: nat])
    @ map (map char_of) [[0xE2, 0x81, 0x9F], [0xE3, 0x80, 0x80 :: nat]]"

function trim_start_of :: "string list \<Rightarrow> string \<Rightarrow> string" where
  "trim_start_of ws s =
    (case find (\<lambda>w. w \<noteq> [] \<and> prefix w s) ws of
       None \<Rightarrow> s
     | Some w \<Rightarrow> trim_start_of ws (drop (length w) s))"
  by pat_completeness auto
termination
  by (relation "measure (length \<circ> snd)") (auto simp: find_Some_iff prefix_def)

declare trim_start_of.simps [simp del]

definition trim :: "string \<Rightarrow> string" where
  "trim s = rev (trim_start_of (map rev white_space) (rev (trim_start_of white_space s)))"

fun split_on :: "char \<Rightarrow> string \<Rightarrow> string list" where
  "split_on c [] = [[]]"
| "split_on c (x # xs) =
    (if x = c then [] # split_on c xs
     else (case split_on c xs of [] \<Rightarrow> [[x]] | y # ys \<Rightarrow> (x # y) # ys))"

fun join_with :: "string \<Rightarrow> string list \<Rightarrow> string" where
  "join_with sep [] = []"
| "join_with sep [x] = x"
| "join_with sep (x # y # ys) = x @ sep @ join_with sep (y # ys)"

section \<open>Relative paths\<close>

datatype relative_path = RelativePath (as_str: string)

definition path_new :: "string \<Rightarrow> relative_path result" where
  "path_new path =
    (let raw = map (\<lambda>c. if c = CHR 0x5C then CHR ''/'' else c) path;
         trimmed = trim raw
     in if trimmed = [] \<or> trimmed = ''.'' then Inr (RelativePath [])
        else if take 1 trimmed = ''/'' \<or> (1 < length trimmed \<and> trimmed ! 1 = CHR '':'')
        then Inl (InvalidArgument (''relative path must not be absolute: '' @ trimmed))
        else if ''..'' \<in> set (split_on CHR ''/'' trimmed)
        then Inl (InvalidArgument (''relative path must not contain '' @ [CHR 0x27] @ ''..'' @ [CHR 0x27] @ '': '' @ trimmed))
        else Inr (RelativePath (join_with ''/''
          (filter (\<lambda>part. part \<noteq> [] \<and> part \<noteq> ''.'') (split_on CHR ''/'' trimmed)))))"

definition path_root :: relative_path where "path_root = RelativePath []"

definition is_root :: "relative_path \<Rightarrow> bool" where "is_root p \<longleftrightarrow> as_str p = []"

definition path_join :: "relative_path \<Rightarrow> string \<Rightarrow> relative_path result" where
  "path_join self child_str =
    (case path_new child_str of
       Inl e \<Rightarrow> Inl e
     | Inr child \<Rightarrow>
         if is_root self then Inr child
         else if is_root child then Inr self
         else path_new (as_str self @ ''/'' @ as_str child))"

definition file_name :: "relative_path \<Rightarrow> string option" where
  "file_name p =
    (let name = last (split_on CHR ''/'' (as_str p)) in if name = [] then None else Some name)"

definition components :: "relative_path \<Rightarrow> string list" where
  "components p = filter (\<lambda>part. part \<noteq> []) (split_on CHR ''/'' (as_str p))"

definition path_display :: "relative_path \<Rightarrow> string" where
  "path_display p = (if is_root p then ''.'' else as_str p)"

section \<open>Splitting and joining\<close>

lemma split_on_ne [simp]: "split_on c s \<noteq> []"
  by (induction s) (auto split: list.splits)

lemma split_on_no_sep: "x \<in> set (split_on c s) \<Longrightarrow> c \<notin> set x"
  by (induction s arbitrary: x) (auto split: if_splits list.splits)

lemma split_on_plain: "c \<notin> set x \<Longrightarrow> split_on c x = [x]"
  by (induction x) auto

lemma split_on_append_sep: "c \<notin> set x \<Longrightarrow> split_on c (x @ c # s) = x # split_on c s"
  by (induction x) auto

lemma split_on_join:
  "\<forall>x \<in> set xs. c \<notin> set x \<Longrightarrow> xs \<noteq> [] \<Longrightarrow> split_on c (join_with [c] xs) = xs"
  by (induction "[c]" xs rule: join_with.induct) (auto simp: split_on_plain split_on_append_sep)

lemma last_split_on_append: "split_on c (s @ c # t) = split_on c s @ split_on c t"
  by (induction s) (auto simp: Cons_eq_append_conv split: list.splits)

lemma components_path_new:
  assumes "path_new s = Inr p"
  shows "\<forall>part \<in> set (components p). part \<noteq> [] \<and> part \<noteq> ''.'' \<and> part \<noteq> ''..'' \<and> CHR ''/'' \<notin> set part"
    and "take 1 (as_str p) \<noteq> ''/''"
proof -
  define t where "t = trim (map (\<lambda>c. if c = CHR 0x5C then CHR ''/'' else c) s)"
  define ps where "ps = filter (\<lambda>part. part \<noteq> [] \<and> part \<noteq> ''.'') (split_on CHR ''/'' t)"
  consider "p = RelativePath []" | "''..'' \<notin> set (split_on CHR ''/'' t)" "p = RelativePath (join_with ''/'' ps)"
    using assms by (auto simp: path_new_def Let_def t_def ps_def split: if_splits)
  then have "(\<forall>part \<in> set (components p). part \<noteq> [] \<and> part \<noteq> ''.'' \<and> part \<noteq> ''..'' \<and> CHR ''/'' \<notin> set part)
    \<and> take 1 (as_str p) \<noteq> ''/''"
  proof cases
    case 1
    then show ?thesis by (simp add: components_def)
  next
    case 2
    have ok: "\<forall>x \<in> set ps. CHR ''/'' \<notin> set x \<and> x \<noteq> [] \<and> x \<noteq> ''.'' \<and> x \<noteq> ''..''"
      using 2(1) by (auto simp: ps_def dest: split_on_no_sep)
    show ?thesis
    proof (cases ps)
      case Nil
      then show ?thesis using 2 by (simp add: components_def)
    next
      case (Cons a as)
      then have "split_on CHR ''/'' (join_with ''/'' ps) = ps" using split_on_join ok by simp
      moreover have "take 1 (join_with ''/'' ps) \<noteq> ''/''"
        using Cons ok by (cases a; cases as) auto
      ultimately show ?thesis using 2(2) ok by (auto simp: components_def)
    qed
  qed
  then show "\<forall>part \<in> set (components p). part \<noteq> [] \<and> part \<noteq> ''.'' \<and> part \<noteq> ''..'' \<and> CHR ''/'' \<notin> set part"
    and "take 1 (as_str p) \<noteq> ''/''" by auto
qed

section \<open>Plain paths\<close>

text \<open>Paths built from plain components, such as the ones the storage code uses, are normal already.\<close>

definition plain_char :: "char \<Rightarrow> bool" where
  "plain_char c \<longleftrightarrow> 32 < (of_char c :: nat) \<and> (of_char c :: nat) < 127 \<and> c \<noteq> CHR ''/'' \<and> c \<noteq> CHR '':'' \<and> c \<noteq> CHR 0x5C"

definition plain_component :: "string \<Rightarrow> bool" where
  "plain_component s \<longleftrightarrow> s \<noteq> [] \<and> s \<noteq> ''.'' \<and> s \<noteq> ''..'' \<and> (\<forall>c \<in> set s. plain_char c)"

lemma trim_start_of_id:
  assumes "\<forall>w \<in> set ws. \<not> (w \<noteq> [] \<and> prefix w s)"
  shows "trim_start_of ws s = s"
proof -
  have "find (\<lambda>w. w \<noteq> [] \<and> prefix w s) ws = None" using assms by (simp add: find_None_iff)
  then show ?thesis by (subst trim_start_of.simps) simp
qed

lemma white_space_ends:
  "w \<in> set white_space \<Longrightarrow> w \<noteq> [] \<and> \<not> (32 < (of_char (hd w) :: nat) \<and> (of_char (hd w) :: nat) < 127) \<and>
    \<not> (32 < (of_char (last w) :: nat) \<and> (of_char (last w) :: nat) < 127)"
  by (auto simp: white_space_def upt_rec)

lemma prefix_hd: "prefix w s \<Longrightarrow> w \<noteq> [] \<Longrightarrow> s \<noteq> [] \<and> hd w = hd s"
  by (auto simp: prefix_def)

lemma trim_plain:
  assumes "s \<noteq> []" "32 < (of_char (hd s) :: nat)" "(of_char (hd s) :: nat) < 127"
    "32 < (of_char (last s) :: nat)" "(of_char (last s) :: nat) < 127"
  shows "trim s = s"
proof -
  have 1: "trim_start_of white_space s = s"
  proof (rule trim_start_of_id, intro ballI notI)
    fix w assume "w \<in> set white_space" "w \<noteq> [] \<and> prefix w s"
    then show False using white_space_ends[of w] prefix_hd[of w s] assms by simp
  qed
  have 2: "trim_start_of (map rev white_space) (rev s) = rev s"
  proof (rule trim_start_of_id, intro ballI notI)
    fix w' assume w': "w' \<in> set (map rev white_space)" "w' \<noteq> [] \<and> prefix w' (rev s)"
    then obtain w where w: "w \<in> set white_space" "w' = rev w" by auto
    then show False using white_space_ends[OF w(1)] prefix_hd[of w' "rev s"] w' assms
      by (simp add: hd_rev)
  qed
  show ?thesis unfolding trim_def 1 2 by simp
qed

lemma join_with_props:
  assumes "\<forall>x \<in> set xs. plain_component x" "xs \<noteq> []"
  shows "join_with ''/'' xs \<noteq> []" "hd (join_with ''/'' xs) = hd (hd xs)"
    "last (join_with ''/'' xs) = last (last xs)"
    "set (join_with ''/'' xs) \<subseteq> insert CHR ''/'' (\<Union> (set ` set xs))"
  using assms
  by (induction "''/''" xs rule: join_with.induct) (auto simp: plain_component_def)

lemma path_new_plain:
  assumes pl: "\<forall>x \<in> set xs. plain_component x" and ne: "xs \<noteq> []"
  shows "path_new (join_with ''/'' xs) = Inr (RelativePath (join_with ''/'' xs))"
proof -
  define s where "s = join_with ''/'' xs"
  note J = join_with_props[OF pl ne, folded s_def]
  have pc: "plain_char c" if "c \<in> set s" "c \<noteq> CHR ''/''" for c
    using J(4) pl that by (auto simp: plain_component_def)
  have "plain_component (hd xs)" "plain_component (last xs)" using pl ne by auto
  then have comp: "hd xs \<noteq> []" "last xs \<noteq> []" "plain_char (hd (hd xs))" "plain_char (last (last xs))"
    by (auto simp: plain_component_def)
  have raw: "map (\<lambda>c. if c = CHR 0x5C then CHR ''/'' else c) s = s"
    using pc by (intro map_idI) (auto simp: plain_char_def)
  have tr: "trim s = s"
    using J comp by (intro trim_plain) (auto simp: plain_char_def)
  have colon: "\<not> (1 < length s \<and> s ! 1 = CHR '':'')"
    using pc[of "CHR '':''"] by (auto simp: plain_char_def dest: nth_mem)
  have sl: "take 1 s \<noteq> ''/''"
    using J(1,2) comp(3) by (cases s) (auto simp: plain_char_def)
  have sp: "split_on CHR ''/'' s = xs"
    using pl ne by (auto simp: s_def plain_component_def plain_char_def intro!: split_on_join)
  have fl: "filter (\<lambda>part. part \<noteq> [] \<and> part \<noteq> ''.'') xs = xs" "''..'' \<notin> set xs"
    using pl by (auto simp: plain_component_def filter_id_conv)
  have dot: "s \<noteq> ''.''"
    using pl ne sp by (auto simp: plain_component_def)
  show ?thesis
    unfolding s_def[symmetric] path_new_def raw Let_def tr sp fl(1)
    using J(1) colon sl fl(2) dot by (simp add: s_def)
qed

lemma file_name_join:
  assumes "CHR ''/'' \<notin> set n" "n \<noteq> []"
  shows "file_name (RelativePath (d @ ''/'' @ n)) = Some n"
  using assms by (simp add: file_name_def last_split_on_append split_on_plain)

section \<open>Properties\<close>

text \<open>
  C10. Normalisation keeps paths below the data directory: an accepted path, joined or not, has no
  empty, \<^verbatim>\<open>.\<close> or \<^verbatim>\<open>..\<close> component and does not begin with a slash. The check for a drive letter, however,
  is made before the \<^verbatim>\<open>.\<close> components are dropped: \<^verbatim>\<open>./C:/x\<close> is accepted and becomes \<^verbatim>\<open>C:/x\<close>, which the
  same function rejects as absolute.
\<close>

theorem path_new_contained:
  assumes "path_new s = Inr p \<or> path_join base s = Inr p \<and> path_new b = Inr base"
  shows "(\<forall>part \<in> set (components p). part \<noteq> [] \<and> part \<noteq> ''.'' \<and> part \<noteq> ''..'') \<and>
    take 1 (as_str p) \<noteq> ''/'' \<and>
    path_new ''./C:/x'' = Inr (RelativePath ''C:/x'') \<and> isl (path_new ''C:/x'')"
proof -
  have "\<exists>s'. path_new s' = Inr p"
    using assms by (auto simp: path_join_def split: sum.splits if_splits)
  then have 1: "(\<forall>part \<in> set (components p). part \<noteq> [] \<and> part \<noteq> ''.'' \<and> part \<noteq> ''..'') \<and> take 1 (as_str p) \<noteq> ''/''"
    using components_path_new by blast
  have t: "trim ''./C:/x'' = ''./C:/x''" "trim ''C:/x'' = ''C:/x''" by (rule trim_plain; simp)+
  have 2: "path_new ''./C:/x'' = Inr (RelativePath ''C:/x'')" by (simp add: path_new_def t)
  have 3: "isl (path_new ''C:/x'')" by (simp add: path_new_def t)
  show ?thesis using 1 2 3 by blast
qed

theorem path_new_contained_witness:
  "path_new ''wal/./0001.wal'' = Inr (RelativePath ''wal/0001.wal'') \<and>
   ''..'' \<notin> set (components (RelativePath ''wal/0001.wal''))"
proof -
  have "trim ''wal/./0001.wal'' = ''wal/./0001.wal''" by (rule trim_plain; simp)
  then have e: "path_new ''wal/./0001.wal'' = Inr (RelativePath ''wal/0001.wal'')"
    by (simp add: path_new_def)
  show ?thesis using e path_new_contained[of "''wal/./0001.wal''" "RelativePath ''wal/0001.wal''"] by blast
qed

end
