(* ===== verification/Btree_Map.thy ===== *)
theory Btree_Map
  imports Kaya_Prelude "HOL-Library.List_Lexorder" "HOL-Library.Char_ord"
begin

text \<open>
  The standard library's ordered map and set. A \<^verbatim>\<open>BTreeMap\<close> is the strictly sorted list of its
  entries, which is what iterating over it yields; a \<^verbatim>\<open>BTreeSet\<close> is a map to \<^verbatim>\<open>()\<close>. Byte
  strings and character strings are ordered lexicographically, as Rust orders
  \<^verbatim>\<open>Vec<u8>\<close> and \<^verbatim>\<open>String\<close>.

  What the components rely on is the locale \<^verbatim>\<open>ordered_map\<close>; it is interpreted on the sorted
  lists at the end.
\<close>

type_synonym ('k, 'v) btree_map = "('k \<times> 'v) list"
type_synonym 'k btree_set = "('k, unit) btree_map"

definition bt_inv :: "('k::linorder, 'v) btree_map \<Rightarrow> bool" where
  "bt_inv m \<longleftrightarrow> sorted_wrt (<) (map fst m)"

definition bt_empty :: "('k, 'v) btree_map" where "bt_empty = []"

definition bt_get :: "'k \<Rightarrow> ('k, 'v) btree_map \<Rightarrow> 'v option" where
  "bt_get k m = map_of m k"

fun bt_insert :: "'k::linorder \<Rightarrow> 'v \<Rightarrow> ('k, 'v) btree_map \<Rightarrow> ('k, 'v) btree_map" where
  "bt_insert k v [] = [(k, v)]"
| "bt_insert k v ((k', v') # m) =
    (if k < k' then (k, v) # (k', v') # m
     else if k = k' then (k, v) # m
     else (k', v') # bt_insert k v m)"

definition bt_remove :: "'k \<Rightarrow> ('k, 'v) btree_map \<Rightarrow> ('k, 'v) btree_map" where
  "bt_remove k m = filter (\<lambda>e. fst e \<noteq> k) m"

definition bt_contains :: "'k \<Rightarrow> ('k, 'v) btree_map \<Rightarrow> bool" where
  "bt_contains k m \<longleftrightarrow> bt_get k m \<noteq> None"

text \<open>\<^verbatim>\<open>range(k..)\<close>: the entries from key \<^verbatim>\<open>k\<close> on.\<close>

definition bt_range_from :: "'k::linorder \<Rightarrow> ('k, 'v) btree_map \<Rightarrow> ('k, 'v) btree_map" where
  "bt_range_from k m = dropWhile (\<lambda>e. fst e < k) m"

section \<open>Laws\<close>

lemma bt_inv_Nil [simp]: "bt_inv []" by (simp add: bt_inv_def)

lemma bt_inv_Cons: "bt_inv ((k, v) # m) \<longleftrightarrow> (\<forall>k' \<in> fst ` set m. k < k') \<and> bt_inv m"
  by (auto simp: bt_inv_def)

lemma fst_set_bt_insert [simp]: "fst ` set (bt_insert k v m) = insert k (fst ` set m)"
  by (induction k v m rule: bt_insert.induct) auto

lemma bt_inv_insert [simp]: "bt_inv m \<Longrightarrow> bt_inv (bt_insert k v m)"
  by (induction k v m rule: bt_insert.induct) (auto simp: bt_inv_Cons)

lemma bt_inv_filter [simp]: "bt_inv m \<Longrightarrow> bt_inv (filter P m)"
  by (simp add: bt_inv_def sorted_wrt_map sorted_wrt_filter)

lemma bt_inv_remove [simp]: "bt_inv m \<Longrightarrow> bt_inv (bt_remove k m)"
  by (simp add: bt_remove_def)

lemma bt_inv_distinct: "bt_inv m \<Longrightarrow> distinct (map fst m)"
  by (simp add: bt_inv_def strict_sorted_iff)

lemma bt_inv_map_values [simp]: "bt_inv (map (\<lambda>(k, v). (k, f k v)) m) \<longleftrightarrow> bt_inv m"
  by (simp add: bt_inv_def sorted_wrt_map case_prod_beta)

lemma bt_get_empty [simp]: "bt_get k [] = None"
  by (simp add: bt_get_def)

lemma bt_get_insert [simp]:
  "bt_inv m \<Longrightarrow> bt_get k' (bt_insert k v m) = (if k' = k then Some v else bt_get k' m)"
  by (induction k v m rule: bt_insert.induct) (auto simp: bt_get_def bt_inv_Cons)

lemma bt_get_remove [simp]: "bt_get k' (bt_remove k m) = (if k' = k then None else bt_get k' m)"
  by (induction m) (auto simp: bt_get_def bt_remove_def)

lemma bt_get_filter:
  "bt_inv m \<Longrightarrow> bt_get k (filter (\<lambda>e. P (fst e)) m) = (if P k then bt_get k m else None)"
  by (induction m) (auto simp: bt_get_def bt_inv_def)

lemma bt_get_map_values [simp]:
  "bt_get k (map (\<lambda>(k, v). (k, f k v)) m) = map_option (f k) (bt_get k m)"
  by (simp add: bt_get_def map_of_map_restrict case_prod_beta') (induction m; auto)

lemma bt_get_mem: "bt_get k m = Some v \<Longrightarrow> (k, v) \<in> set m"
  by (simp add: bt_get_def map_of_SomeD)

lemma bt_get_iff_mem: "bt_inv m \<Longrightarrow> bt_get k m = Some v \<longleftrightarrow> (k, v) \<in> set m"
  by (simp add: bt_get_def bt_inv_distinct)

lemma bt_get_None_iff: "bt_get k m = None \<longleftrightarrow> k \<notin> fst ` set m"
  by (simp add: bt_get_def map_of_eq_None_iff)

lemma bt_contains_iff: "bt_contains k m \<longleftrightarrow> k \<in> fst ` set m"
  by (simp add: bt_contains_def bt_get_None_iff)

text \<open>The representation is canonical: the entries are determined by what lookup returns.\<close>

lemma bt_eqI:
  assumes "bt_inv m" "bt_inv m'" "\<And>k. bt_get k m = bt_get k m'"
  shows "m = m'"
proof (rule map_sorted_distinct_set_unique)
  show "inj_on fst (set m \<union> set m')"
    using assms by (auto simp: inj_on_def simp flip: bt_get_iff_mem)
  show "sorted (map fst m)" "distinct (map fst m)" "sorted (map fst m')" "distinct (map fst m')"
    using assms by (auto simp: bt_inv_def strict_sorted_iff)
  show "set m = set m'"
    using assms by (auto simp flip: bt_get_iff_mem)
qed

lemma bt_insert_same: "bt_inv m \<Longrightarrow> bt_get k m = Some v \<Longrightarrow> bt_insert k v m = m"
  by (rule bt_eqI) auto

lemma bt_range_from_eq: "bt_inv m \<Longrightarrow> bt_range_from k m = filter (\<lambda>e. k \<le> fst e) m"
  by (induction m) (auto simp: bt_range_from_def bt_inv_def not_less intro!: filter_True[symmetric])

section \<open>The interface\<close>

locale ordered_map =
  fixes empty :: 'm
    and get :: "'k \<Rightarrow> 'm \<Rightarrow> 'v option"
    and ins :: "'k \<Rightarrow> 'v \<Rightarrow> 'm \<Rightarrow> 'm"
    and rem :: "'k \<Rightarrow> 'm \<Rightarrow> 'm"
    and entries :: "'m \<Rightarrow> ('k \<times> 'v) list"
    and inv :: "'m \<Rightarrow> bool"
  assumes inv_empty: "inv empty"
    and inv_ins: "inv m \<Longrightarrow> inv (ins k v m)"
    and inv_rem: "inv m \<Longrightarrow> inv (rem k m)"
    and get_empty: "get k empty = None"
    and get_ins: "inv m \<Longrightarrow> get k' (ins k v m) = (if k' = k then Some v else get k' m)"
    and get_rem: "inv m \<Longrightarrow> get k' (rem k m) = (if k' = k then None else get k' m)"
    and entries_get: "inv m \<Longrightarrow> (k, v) \<in> set (entries m) \<longleftrightarrow> get k m = Some v"
begin

text \<open>Inserting a list of entries one by one: the last entry of a key is the one that stays.\<close>

definition ins_all :: "('k \<times> 'v) list \<Rightarrow> 'm \<Rightarrow> 'm" where
  "ins_all xs m = fold (\<lambda>(k, v). ins k v) xs m"

lemma inv_ins_all: "inv m \<Longrightarrow> inv (ins_all xs m)"
  unfolding ins_all_def by (induction xs arbitrary: m) (auto simp: inv_ins)

lemma get_ins_all:
  "inv m \<Longrightarrow> get k (ins_all xs m) = (case map_of (rev xs) k of None \<Rightarrow> get k m | Some v \<Rightarrow> Some v)"
  unfolding ins_all_def
  by (induction xs arbitrary: m) (auto simp: inv_ins get_ins map_add_def split: option.splits)

lemma entries_ins_all:
  "set (entries (ins_all xs empty)) = {(k, v). map_of (rev xs) k = Some v}"
  using inv_ins_all[OF inv_empty]
  by (auto simp: entries_get get_ins_all[OF inv_empty] get_empty split: option.splits)

end

interpretation btree: ordered_map bt_empty bt_get bt_insert bt_remove "\<lambda>m. m" bt_inv
  by unfold_locales (simp_all add: bt_empty_def bt_get_iff_mem)

end
