(* ===== verification/Sim_Disk.thy ===== *)
theory Sim_Disk
  imports Rel_Path Btree_Map
begin

text \<open>
  The simulated disk, \<^verbatim>\<open>src/crates/kaya-io/src/sim.rs\<close>, on which the storage code is tested and on
  which it is verified here. A file has volatile and stable bytes; \<^verbatim>\<open>fsync_file\<close> makes the
  volatile bytes stable and a crash falls back to the stable ones. In strict namespace mode
  directory entries are volatile too until \<^verbatim>\<open>fsync_dir\<close>. Every write operation first consults the
  fault schedule.

  Operations take the disk and return a result and the new disk: the disk changes on failing
  calls too, since each one advances the operation counter. Lengths and file offsets are
  natural numbers (the length of a \<^verbatim>\<open>Vec\<close> is below \<^verbatim>\<open>2^63\<close>, so no cast loses bits); reading
  returns the bytes copied into the buffer, whose number is the result of \<^verbatim>\<open>read_at\<close>.

  The interface the write-ahead log relies on is the locale \<^verbatim>\<open>crash_disk\<close>, interpreted on the
  simulated disk at the end.
\<close>

section \<open>State\<close>

datatype fault_kind = FsyncFault | IoFault | DiskFullFault | PartialWrite nat

record fault_rule =
  operation_index :: u64
  fault :: fault_kind

record fault_sched =
  seed :: u64
  rules :: "fault_rule list"

record sim_disk_event =
  event_id :: u64
  event_kind :: string
  event_path :: string
  event_offset :: "nat option"
  requested_len :: "nat option"
  actual_len :: "nat option"
  event_result :: string

record crash_report =
  files_restored :: nat
  lost_bytes :: nat

record sim_file =
  volatile :: bytes
  stable :: bytes

record sim_state =
  files :: "(string, sim_file) btree_map"
  events :: "sim_disk_event list"
  next_event_id :: u64
  write_op_count :: u64
  fault_schedule :: "fault_sched option"
  strict_namespace :: bool
  durable_names :: "string btree_set"
  shadow :: "(string, sim_file) btree_map"

record dir_entry =
  entry_path :: relative_path
  is_dir :: bool
  entry_len :: nat

definition default_sim_file :: sim_file where
  "default_sim_file = \<lparr>volatile = [], stable = []\<rparr>"

definition sim_disk_new :: sim_state where
  "sim_disk_new = \<lparr>files = bt_empty, events = [], next_event_id = 0, write_op_count = 0,
    fault_schedule = None, strict_namespace = False, durable_names = bt_empty, shadow = bt_empty\<rparr>"

definition with_faults :: "fault_sched \<Rightarrow> sim_state" where
  "with_faults schedule = sim_disk_new\<lparr>fault_schedule := Some schedule\<rparr>"

definition with_strict_namespace :: "sim_state \<Rightarrow> sim_state" where
  "with_strict_namespace d = d\<lparr>strict_namespace := True\<rparr>"

definition parent_dir :: "string \<Rightarrow> string" where
  "parent_dir name =
    (let parts = split_on CHR ''/'' name in if length parts \<le> 1 then [] else join_with ''/'' (butlast parts))"

fun fault_to_error :: "fault_kind \<Rightarrow> kaya_error" where
  "fault_to_error FsyncFault = FsyncFailed"
| "fault_to_error IoFault = Io ''simulated io error''"
| "fault_to_error DiskFullFault = DiskFull"
| "fault_to_error (PartialWrite _) = Io ''simulated io error''"

fun fault_result_str :: "fault_kind \<Rightarrow> string" where
  "fault_result_str FsyncFault = ''fsync_failed''"
| "fault_result_str IoFault = ''io_error''"
| "fault_result_str DiskFullFault = ''disk_full''"
| "fault_result_str (PartialWrite _) = ''partial_write''"

fun is_partial_write :: "fault_kind \<Rightarrow> bool" where
  "is_partial_write (PartialWrite _) \<longleftrightarrow> True"
| "is_partial_write _ \<longleftrightarrow> False"

definition take_fault :: "sim_state \<Rightarrow> fault_kind option \<times> sim_state" where
  "take_fault d =
    (let index = write_op_count d
     in (case fault_schedule d of
           None \<Rightarrow> None
         | Some sched \<Rightarrow> map_option fault (find (\<lambda>r. operation_index r = index) (rules sched)),
         d\<lparr>write_op_count := index + 1\<rparr>))"

definition record_event ::
  "string \<Rightarrow> relative_path \<Rightarrow> nat option \<Rightarrow> nat option \<Rightarrow> nat option \<Rightarrow> string \<Rightarrow> sim_state \<Rightarrow> sim_state" where
  "record_event kind path offset requested actual res d =
    d\<lparr>events := events d @ [\<lparr>event_id = next_event_id d, event_kind = kind, event_path = as_str path,
        event_offset = offset, requested_len = requested, actual_len = actual, event_result = res\<rparr>],
      next_event_id := next_event_id d + 1\<rparr>"

definition get_file :: "sim_state \<Rightarrow> string \<Rightarrow> sim_file option" where
  "get_file d k = bt_get k (files d)"

definition put_file :: "string \<Rightarrow> sim_file \<Rightarrow> sim_state \<Rightarrow> sim_state" where
  "put_file k f d = d\<lparr>files := bt_insert k f (files d)\<rparr>"

text \<open>\<^verbatim>\<open>files.entry(key).or_default()\<close>.\<close>

definition file_or_default :: "sim_state \<Rightarrow> string \<Rightarrow> sim_file" where
  "file_or_default d k = (case get_file d k of Some f \<Rightarrow> f | None \<Rightarrow> default_sim_file)"

section \<open>Reading\<close>

definition read_at :: "relative_path \<Rightarrow> nat \<Rightarrow> nat \<Rightarrow> sim_state \<Rightarrow> bytes result \<times> sim_state" where
  "read_at path offset buf_len d =
    (case get_file d (as_str path) of
       None \<Rightarrow> (Inl NotFound, d)
     | Some file \<Rightarrow>
         if offset \<ge> length (volatile file)
         then (Inr [], record_event ''read_at'' path (Some offset) (Some buf_len) (Some 0) ''eof'' d)
         else
           let available = length (volatile file) - offset;
               actual = min available buf_len
           in (Inr (subrange offset (offset + actual) (volatile file)),
               record_event ''read_at'' path (Some offset) (Some buf_len) (Some actual) ''ok'' d))"

definition file_len :: "relative_path \<Rightarrow> sim_state \<Rightarrow> nat result" where
  "file_len path d =
    (case get_file d (as_str path) of
       None \<Rightarrow> Inl NotFound
     | Some file \<Rightarrow> Inr (length (volatile file)))"

fun list_dir_loop ::
  "relative_path \<Rightarrow> string \<Rightarrow> (string \<times> sim_file) list \<Rightarrow> string btree_set \<Rightarrow> dir_entry list result" where
  "list_dir_loop path pfx [] seen = Inr []"
| "list_dir_loop path pfx ((file_path, file) # rest) seen =
    (if \<not> prefix pfx file_path then list_dir_loop path pfx rest seen
     else
       let remainder = drop (length pfx) file_path
       in if remainder = [] then list_dir_loop path pfx rest seen
          else
            let first = hd (split_on CHR ''/'' remainder)
            in if bt_contains first seen then list_dir_loop path pfx rest seen
               else
                 (case path_join path first of
                    Inl e \<Rightarrow> Inl e
                  | Inr child \<Rightarrow>
                      let dir = CHR ''/'' \<in> set remainder;
                          entry = \<lparr>entry_path = child, is_dir = dir,
                            entry_len = (if dir then 0 else length (volatile file))\<rparr>
                      in (case list_dir_loop path pfx rest (bt_insert first () seen) of
                            Inl e \<Rightarrow> Inl e
                          | Inr entries \<Rightarrow> Inr (entry # entries))))"

definition list_dir :: "relative_path \<Rightarrow> sim_state \<Rightarrow> dir_entry list result" where
  "list_dir path d =
    list_dir_loop path (if is_root path then [] else as_str path @ ''/'') (files d) bt_empty"

section \<open>Writing\<close>

definition write_at :: "relative_path \<Rightarrow> nat \<Rightarrow> bytes \<Rightarrow> sim_state \<Rightarrow> nat result \<times> sim_state" where
  "write_at path offset buf d0 =
    (let (flt, d) = take_fault d0
     in (case flt of
           Some fl \<Rightarrow>
             (Inl (fault_to_error fl),
              record_event ''write_at'' path (Some offset) (Some (length buf)) (Some 0) (fault_result_str fl) d)
         | None \<Rightarrow>
             let file = file_or_default d (as_str path);
                 end = offset + length buf;
                 v = (if length (volatile file) < end
                      then volatile file @ replicate (end - length (volatile file)) 0
                      else volatile file)
             in (Inr (length buf),
                 record_event ''write_at'' path (Some offset) (Some (length buf)) (Some (length buf)) ''ok''
                   (put_file (as_str path) (file\<lparr>volatile := take offset v @ buf @ drop end v\<rparr>) d))))"

definition append_file :: "relative_path \<Rightarrow> bytes \<Rightarrow> sim_state \<Rightarrow> nat result \<times> sim_state" where
  "append_file path buf d0 =
    (let (flt, d) = take_fault d0;
         file = file_or_default d (as_str path);
         offset = length (volatile file)
     in (case flt of
           Some (PartialWrite n) \<Rightarrow>
             let write_len = min n (length buf)
             in (Inr offset,
                 record_event ''append'' path (Some offset) (Some (length buf)) (Some write_len) ''partial_write''
                   (put_file (as_str path) (file\<lparr>volatile := volatile file @ take write_len buf\<rparr>) d))
         | Some other \<Rightarrow>
             (Inl (fault_to_error other),
              record_event ''append'' path None (Some (length buf)) (Some 0) (fault_result_str other) d)
         | None \<Rightarrow>
             (Inr offset,
              record_event ''append'' path (Some offset) (Some (length buf)) (Some (length buf)) ''ok''
                (put_file (as_str path) (file\<lparr>volatile := volatile file @ buf\<rparr>) d))))"

definition fsync_file :: "relative_path \<Rightarrow> sim_state \<Rightarrow> unit result \<times> sim_state" where
  "fsync_file path d0 =
    (let (flt, d) = take_fault d0
     in if flt \<noteq> None \<and> \<not> is_partial_write (the flt)
        then (Inl (fault_to_error (the flt)),
              record_event ''fsync_file'' path None None None (fault_result_str (the flt)) d)
        else
          (case get_file d (as_str path) of
             None \<Rightarrow> (Inl NotFound, d)
           | Some file \<Rightarrow>
               (Inr (), record_event ''fsync_file'' path None None None ''ok''
                 (put_file (as_str path) (file\<lparr>stable := volatile file\<rparr>) d))))"

text \<open>The block of \<^verbatim>\<open>fsync_dir\<close> that runs in strict namespace mode.\<close>

definition sync_names :: "string \<Rightarrow> sim_state \<Rightarrow> sim_state" where
  "sync_names target d =
    (let present = filter (\<lambda>name. parent_dir name = target) (map fst (files d));
         durable = fold (\<lambda>name. bt_insert name ()) present (durable_names d);
         removed = filter (\<lambda>name. parent_dir name = target \<and> \<not> bt_contains name (files d)) (map fst durable)
     in d\<lparr>durable_names := fold bt_remove removed durable, shadow := fold bt_remove removed (shadow d)\<rparr>)"

definition fsync_dir :: "relative_path \<Rightarrow> sim_state \<Rightarrow> unit result \<times> sim_state" where
  "fsync_dir path d0 =
    (let (flt, d) = take_fault d0
     in if flt \<noteq> None \<and> \<not> is_partial_write (the flt)
        then (Inl (fault_to_error (the flt)),
              record_event ''fsync_dir'' path None None None (fault_result_str (the flt)) d)
        else
          (Inr (), record_event ''fsync_dir'' path None None None ''ok''
            (if strict_namespace d then sync_names (as_str path) d else d)))"

definition truncate_file :: "relative_path \<Rightarrow> nat \<Rightarrow> sim_state \<Rightarrow> unit result \<times> sim_state" where
  "truncate_file path len d0 =
    (let d = snd (take_fault d0)
     in (case get_file d (as_str path) of
           None \<Rightarrow> (Inl NotFound, d)
         | Some file \<Rightarrow>
             (Inr (), record_event ''truncate'' path None None None ''ok''
               (put_file (as_str path)
                 (file\<lparr>volatile := take len (volatile file),
                   stable := (if length (stable file) > len then take len (stable file) else stable file)\<rparr>) d))))"

definition durable_snapshot :: "sim_file \<Rightarrow> sim_file" where
  "durable_snapshot file = \<lparr>volatile = stable file, stable = stable file\<rparr>"

definition rename_file :: "relative_path \<Rightarrow> relative_path \<Rightarrow> sim_state \<Rightarrow> unit result \<times> sim_state" where
  "rename_file src dst d0 =
    (let d = snd (take_fault d0)
     in (case get_file d (as_str src) of
           None \<Rightarrow> (Inl NotFound, d)
         | Some file \<Rightarrow>
             let d1 = d\<lparr>files := bt_remove (as_str src) (files d)\<rparr>;
                 d2 = (if strict_namespace d
                       then d1\<lparr>shadow := (if bt_contains (as_str src) (durable_names d)
                                 then bt_insert (as_str src) (durable_snapshot file) (shadow d) else shadow d),
                               durable_names := bt_remove (as_str dst) (durable_names d)\<rparr>
                       else d1)
             in (Inr (), record_event ''rename'' src None None None (as_str dst)
                   (put_file (as_str dst) file d2))))"

definition remove_file :: "relative_path \<Rightarrow> sim_state \<Rightarrow> unit result \<times> sim_state" where
  "remove_file path d0 =
    (let d = snd (take_fault d0);
         removed = get_file d (as_str path);
         d1 = d\<lparr>files := bt_remove (as_str path) (files d)\<rparr>;
         d2 = (case removed of
                 Some file \<Rightarrow>
                   if strict_namespace d \<and> bt_contains (as_str path) (durable_names d)
                   then d1\<lparr>shadow := bt_insert (as_str path) (durable_snapshot file) (shadow d)\<rparr>
                   else d1
               | None \<Rightarrow> d1)
     in (Inr (), record_event ''remove_file'' path None None None ''ok'' d2))"

section \<open>Crash\<close>

fun restore_names ::
  "string list \<Rightarrow> (string, sim_file) btree_map \<Rightarrow> (string, sim_file) btree_map \<Rightarrow> (string, sim_file) btree_map" where
  "restore_names [] sh fs = fs"
| "restore_names (name # names) sh fs =
    restore_names names sh
      (if bt_contains name fs then fs
       else (case bt_get name sh of Some snapshot \<Rightarrow> bt_insert name snapshot fs | None \<Rightarrow> fs))"

definition crash :: "sim_state \<Rightarrow> crash_report \<times> sim_state" where
  "crash d =
    (let dropped = (if strict_namespace d
            then filter (\<lambda>e. \<not> bt_contains (fst e) (durable_names d)) (files d) else []);
         fs = (if strict_namespace d
            then restore_names (map fst (durable_names d)) (shadow d)
              (fold bt_remove (map fst dropped) (files d))
            else files d);
         lost = sum_list (map (length \<circ> volatile \<circ> snd) dropped)
           + sum_list (map (\<lambda>(_, f). length (volatile f) - length (stable f)) fs);
         fs' = map (\<lambda>(k, f). (k, f\<lparr>volatile := stable f\<rparr>)) fs
     in (\<lparr>files_restored = length fs', lost_bytes = lost\<rparr>, d\<lparr>files := fs'\<rparr>))"

definition fsync_file_count :: "string option \<Rightarrow> sim_state \<Rightarrow> nat" where
  "fsync_file_count path_prefix d =
    length (filter (\<lambda>e. event_kind e = ''fsync_file'' \<and> event_result e = ''ok'' \<and>
      (case path_prefix of None \<Rightarrow> True | Some p \<Rightarrow> prefix p (event_path e))) (events d))"

section \<open>The state a client sees\<close>

definition disk_inv :: "sim_state \<Rightarrow> bool" where
  "disk_inv d \<longleftrightarrow> bt_inv (files d) \<and> bt_inv (durable_names d) \<and> bt_inv (shadow d)"

text \<open>No torn write is scheduled: an append that reports success has written all its bytes.\<close>

definition no_torn_writes :: "sim_state \<Rightarrow> bool" where
  "no_torn_writes d \<longleftrightarrow>
    (case fault_schedule d of None \<Rightarrow> True | Some sched \<Rightarrow> list_all (\<lambda>r. \<not> is_partial_write (fault r)) (rules sched))"

definition disk_ok :: "sim_state \<Rightarrow> bool" where
  "disk_ok d \<longleftrightarrow> disk_inv d \<and> no_torn_writes d"

definition content :: "sim_state \<Rightarrow> string \<Rightarrow> bytes option" where
  "content d k = map_option volatile (get_file d k)"

text \<open>What a crash leaves: the names whose entry survives, and their bytes.\<close>

definition entry_durable :: "sim_state \<Rightarrow> string \<Rightarrow> bool" where
  "entry_durable d k \<longleftrightarrow>
    (if strict_namespace d
     then bt_contains k (durable_names d) \<and> (bt_contains k (files d) \<or> bt_contains k (shadow d))
     else bt_contains k (files d))"

definition synced :: "sim_state \<Rightarrow> string \<Rightarrow> bytes" where
  "synced d k =
    (case get_file d k of
       Some f \<Rightarrow> stable f
     | None \<Rightarrow> (case bt_get k (shadow d) of Some f \<Rightarrow> stable f | None \<Rightarrow> []))"

lemmas client_defs = content_def entry_durable_def synced_def get_file_def bt_contains_def

lemma take_fault_simps [simp]:
  "snd (take_fault d) = d\<lparr>write_op_count := write_op_count d + 1\<rparr>"
  by (simp add: take_fault_def Let_def)

lemma take_fault_no_torn: "no_torn_writes d \<Longrightarrow> fst (take_fault d) \<noteq> Some (PartialWrite n)"
  by (auto simp: take_fault_def Let_def no_torn_writes_def find_Some_iff list_all_length split: option.splits)

lemma record_event_client [simp]:
  "content (record_event a p b c e f d) = content d"
  "synced (record_event a p b c e f d) = synced d"
  "entry_durable (record_event a p b c e f d) = entry_durable d"
  "disk_ok (record_event a p b c e f d) = disk_ok d"
  "files (record_event a p b c e f d) = files d"
  "strict_namespace (record_event a p b c e f d) = strict_namespace d"
  "durable_names (record_event a p b c e f d) = durable_names d"
  "shadow (record_event a p b c e f d) = shadow d"
  by (auto simp: record_event_def client_defs disk_ok_def disk_inv_def no_torn_writes_def fun_eq_iff
      split: option.splits)

lemma counter_client [simp]:
  "content (d\<lparr>write_op_count := n\<rparr>) = content d"
  "synced (d\<lparr>write_op_count := n\<rparr>) = synced d"
  "entry_durable (d\<lparr>write_op_count := n\<rparr>) = entry_durable d"
  "disk_ok (d\<lparr>write_op_count := n\<rparr>) = disk_ok d"
  "get_file (d\<lparr>write_op_count := n\<rparr>) = get_file d"
  "file_or_default (d\<lparr>write_op_count := n\<rparr>) = file_or_default d"
  by (auto simp: client_defs disk_ok_def disk_inv_def no_torn_writes_def file_or_default_def fun_eq_iff
      split: option.splits)

lemma put_file_client:
  assumes "disk_ok d"
  shows "content (put_file k f d) = (content d)(k \<mapsto> volatile f)"
    "synced (put_file k f d) = (synced d)(k := stable f)"
    "disk_ok (put_file k f d)"
    "q \<noteq> k \<Longrightarrow> entry_durable (put_file k f d) q = entry_durable d q"
    "entry_durable d k \<Longrightarrow> entry_durable (put_file k f d) k"
    "get_file d k \<noteq> None \<Longrightarrow> entry_durable (put_file k f d) k = entry_durable d k"
  using assms
  by (auto simp: put_file_def client_defs disk_ok_def disk_inv_def no_torn_writes_def fun_eq_iff split: option.splits)

definition bytes_of :: "bytes option \<Rightarrow> bytes" where
  "bytes_of c = (case c of Some b \<Rightarrow> b | None \<Rightarrow> [])"

lemma volatile_file_or_default: "volatile (file_or_default d k) = bytes_of (content d k)"
  by (simp add: file_or_default_def content_def bytes_of_def default_sim_file_def split: option.splits)

lemma stable_file_or_default:
  "stable (file_or_default d k) = (if content d k = None then [] else synced d k)"
  by (simp add: file_or_default_def content_def synced_def default_sim_file_def split: option.splits)

lemma append_file_cases:
  assumes ok: "disk_ok d" and a: "append_file p b d = (r, d')"
  shows "(\<exists>e. r = Inl e \<and> content d' = content d \<and> synced d' = synced d \<and> entry_durable d' = entry_durable d
        \<and> disk_ok d')
    \<or> (r = Inr (length (bytes_of (content d (as_str p))))
        \<and> content d' = (content d)(as_str p \<mapsto> bytes_of (content d (as_str p)) @ b)
        \<and> synced d' = (synced d)(as_str p := if content d (as_str p) = None then [] else synced d (as_str p))
        \<and> (\<forall>q. q \<noteq> as_str p \<longrightarrow> entry_durable d' q = entry_durable d q)
        \<and> (entry_durable d (as_str p) \<longrightarrow> entry_durable d' (as_str p)) \<and> disk_ok d')"
proof -
  define d1 where "d1 = d\<lparr>write_op_count := write_op_count d + 1\<rparr>"
  have d1: "disk_ok d1" "content d1 = content d" "synced d1 = synced d" "entry_durable d1 = entry_durable d"
    using ok by (simp_all add: d1_def)
  obtain flt where t: "take_fault d = (flt, d1)" by (metis d1_def prod.collapse take_fault_simps)
  have nt: "flt \<noteq> Some (PartialWrite n)" for n
    using take_fault_no_torn[of d] ok t by (simp add: disk_ok_def)
  note P = put_file_client[OF d1(1), where k = "as_str p"]
  show ?thesis
  proof (cases flt)
    case None
    have "r = Inr (length (bytes_of (content d (as_str p))))"
      "content d' = (content d)(as_str p \<mapsto> bytes_of (content d (as_str p)) @ b)"
      "synced d' = (synced d)(as_str p := if content d (as_str p) = None then [] else synced d (as_str p))"
      "disk_ok d'"
      using a None d1 P(1-3) by (auto simp: append_file_def t Let_def volatile_file_or_default stable_file_or_default)
    moreover have "\<forall>q. q \<noteq> as_str p \<longrightarrow> entry_durable d' q = entry_durable d q"
      "entry_durable d (as_str p) \<longrightarrow> entry_durable d' (as_str p)"
      using a None d1(4) P(4,5) by (auto simp: append_file_def t Let_def)
    ultimately show ?thesis by blast
  next
    case (Some fl)
    then have "\<not> is_partial_write fl" using nt by (cases fl) auto
    then have "r = Inl (fault_to_error fl)" "d' = record_event ''append'' p None (Some (length b)) (Some 0)
        (fault_result_str fl) d1"
      using a Some by (cases fl; simp add: append_file_def t Let_def)+
    then show ?thesis using d1 by simp
  qed
qed

lemma fsync_file_cases:
  assumes ok: "disk_ok d" and a: "fsync_file p d = (r, d')"
  shows "(\<exists>e. r = Inl e \<and> content d' = content d \<and> synced d' = synced d \<and> entry_durable d' = entry_durable d
        \<and> disk_ok d')
    \<or> (\<exists>b. r = Inr () \<and> content d (as_str p) = Some b \<and> content d' = content d
        \<and> synced d' = (synced d)(as_str p := b) \<and> entry_durable d' = entry_durable d \<and> disk_ok d')"
proof -
  define d1 where "d1 = d\<lparr>write_op_count := write_op_count d + 1\<rparr>"
  have d1: "disk_ok d1" "content d1 = content d" "synced d1 = synced d" "entry_durable d1 = entry_durable d"
    "get_file d1 = get_file d"
    using ok by (simp_all add: d1_def)
  obtain flt where t: "take_fault d = (flt, d1)" by (metis d1_def prod.collapse take_fault_simps)
  note P = put_file_client[OF d1(1), where k = "as_str p"]
  show ?thesis
  proof (cases "(\<exists>fl. flt = Some fl \<and> \<not> is_partial_write fl) \<or> get_file d (as_str p) = None")
    case True
    then show ?thesis using a d1 by (auto simp: fsync_file_def t split: if_splits)
  next
    case False
    then obtain f where f: "get_file d (as_str p) = Some f" by auto
    have d': "r = Inr ()" "d' = record_event ''fsync_file'' p None None None ''ok''
      (put_file (as_str p) (f\<lparr>stable := volatile f\<rparr>) d1)"
      using False a f d1 by (cases flt; auto simp: fsync_file_def t)+
    have e: "entry_durable (put_file (as_str p) g d1) = entry_durable d" for g
    proof
      fix q show "entry_durable (put_file (as_str p) g d1) q = entry_durable d q"
        using P(4,6) f d1 by (cases "q = as_str p") auto
    qed
    have c: "content d (as_str p) = Some (volatile f)" by (simp add: content_def f)
    then have "content d' = content d" "synced d' = (synced d)(as_str p := volatile f)"
      "entry_durable d' = entry_durable d" "disk_ok d'"
      using d' d1 P(1-3) e by (auto simp: fun_upd_idem)
    then show ?thesis using d'(1) c by blast
  qed
qed

lemma bt_inv_fold_insert: "bt_inv m \<Longrightarrow> bt_inv (fold (\<lambda>k. bt_insert k (f k)) ks m)"
  by (induction ks arbitrary: m) auto

lemma bt_contains_fold_insert:
  "bt_inv m \<Longrightarrow> bt_contains q (fold (\<lambda>k. bt_insert k (f k)) ks m) \<longleftrightarrow> q \<in> set ks \<or> bt_contains q m"
  by (induction ks arbitrary: m) (auto simp: bt_contains_def)

lemma bt_inv_fold_remove: "bt_inv m \<Longrightarrow> bt_inv (fold bt_remove ks m)"
  by (induction ks arbitrary: m) auto

lemma bt_get_fold_remove: "bt_get q (fold bt_remove ks m) = (if q \<in> set ks then None else bt_get q m)"
  by (induction ks arbitrary: m) auto

lemma bt_contains_fold_remove: "bt_contains q (fold bt_remove ks m) \<longleftrightarrow> q \<notin> set ks \<and> bt_contains q m"
  by (auto simp: bt_contains_def bt_get_fold_remove)

text \<open>Syncing a directory makes the entries of its files durable, and their removal.\<close>

lemma sync_names_client:
  assumes ok: "disk_ok d" and st: "strict_namespace d"
  shows "disk_ok (sync_names t d)" "content (sync_names t d) = content d"
    "entry_durable (sync_names t d) q = (if parent_dir q = t then content d q \<noteq> None else entry_durable d q)"
    "content d q \<noteq> None \<or> parent_dir q \<noteq> t \<Longrightarrow> synced (sync_names t d) q = synced d q"
proof -
  define durable where "durable = fold (\<lambda>name. bt_insert name ())
    (filter (\<lambda>name. parent_dir name = t) (map fst (files d))) (durable_names d)"
  define removed where "removed = filter (\<lambda>name. parent_dir name = t \<and> \<not> bt_contains name (files d))
    (map fst durable)"
  have inv: "bt_inv (files d)" "bt_inv (durable_names d)" "bt_inv (shadow d)"
    using ok by (auto simp: disk_ok_def disk_inv_def)
  have d': "sync_names t d =
      d\<lparr>durable_names := fold bt_remove removed durable, shadow := fold bt_remove removed (shadow d)\<rparr>"
    by (simp add: sync_names_def Let_def durable_def removed_def)
  have dur: "bt_contains q durable \<longleftrightarrow> parent_dir q = t \<and> bt_contains q (files d) \<or> bt_contains q (durable_names d)" for q
    unfolding durable_def by (subst bt_contains_fold_insert) (auto simp: inv bt_contains_iff)
  have rem: "q \<in> set removed \<longleftrightarrow> parent_dir q = t \<and> \<not> bt_contains q (files d) \<and> bt_contains q durable" for q
    by (auto simp: removed_def bt_contains_iff)
  have present: "content d q \<noteq> None \<longleftrightarrow> bt_contains q (files d)" for q
    by (simp add: content_def get_file_def bt_contains_def)
  show "disk_ok (sync_names t d)"
    using ok inv by (simp add: d' disk_ok_def disk_inv_def no_torn_writes_def durable_def
        bt_inv_fold_remove bt_inv_fold_insert)
  show "content (sync_names t d) = content d"
    by (rule ext) (simp add: d' content_def get_file_def)
  show "entry_durable (sync_names t d) q = (if parent_dir q = t then content d q \<noteq> None else entry_durable d q)"
    unfolding present using st dur[of q] rem[of q]
    by (simp add: d' entry_durable_def bt_contains_fold_remove) blast
  show "content d q \<noteq> None \<or> parent_dir q \<noteq> t \<Longrightarrow> synced (sync_names t d) q = synced d q"
    using rem[of q] unfolding present
    by (cases "bt_get q (files d)") (auto simp: d' synced_def get_file_def bt_get_fold_remove bt_contains_def)
qed

lemma fsync_dir_cases:
  assumes ok: "disk_ok d" and a: "fsync_dir p d = (r, d')"
  shows "(\<exists>e. r = Inl e \<and> content d' = content d \<and> synced d' = synced d \<and> entry_durable d' = entry_durable d
        \<and> disk_ok d')
    \<or> (r = Inr () \<and> content d' = content d
        \<and> (\<forall>q. content d q \<noteq> None \<longrightarrow> synced d' q = synced d q)
        \<and> (\<forall>q. parent_dir q = as_str p \<longrightarrow> entry_durable d' q = (content d q \<noteq> None))
        \<and> (\<forall>q. parent_dir q \<noteq> as_str p \<longrightarrow> entry_durable d' q = entry_durable d q \<and> synced d' q = synced d q)
        \<and> disk_ok d')"
proof -
  define d1 where "d1 = d\<lparr>write_op_count := write_op_count d + 1\<rparr>"
  have d1: "disk_ok d1" "content d1 = content d" "synced d1 = synced d" "entry_durable d1 = entry_durable d"
    "strict_namespace d1 = strict_namespace d"
    using ok by (simp_all add: d1_def)
  obtain flt where t: "take_fault d = (flt, d1)" by (metis d1_def prod.collapse take_fault_simps)
  show ?thesis
  proof (cases "flt \<noteq> None \<and> \<not> is_partial_write (the flt)")
    case True
    then show ?thesis using a d1 by (auto simp: fsync_dir_def t)
  next
    case False
    then have r: "r = Inr ()" and d': "d' = record_event ''fsync_dir'' p None None None ''ok''
        (if strict_namespace d1 then sync_names (as_str p) d1 else d1)"
      using a by (auto simp: fsync_dir_def t)
    show ?thesis
    proof (cases "strict_namespace d1")
      case True
      note S = sync_names_client[OF d1(1) True, where t = "as_str p", unfolded d1]
      have "content d' = content d" "synced d' = synced (sync_names (as_str p) d1)" "disk_ok d'"
        "entry_durable d' = entry_durable (sync_names (as_str p) d1)"
        using True S(1,2) by (simp_all add: d')
      then show ?thesis using r S(3,4) by (intro disjI2) simp
    next
      case False
      then have "entry_durable d q = (content d q \<noteq> None)" for q
        using d1(5) by (simp add: entry_durable_def content_def get_file_def bt_contains_def)
      then show ?thesis using False r d1 by (intro disjI2) (simp add: d')
    qed
  qed
qed

lemma restore_names_inv: "bt_inv fs \<Longrightarrow> bt_inv (restore_names ns sh fs)"
  by (induction ns sh fs rule: restore_names.induct) (auto split: option.splits)

lemma bt_get_restore_names:
  "bt_inv fs \<Longrightarrow> bt_get k (restore_names ns sh fs) =
    (case bt_get k fs of Some f \<Rightarrow> Some f | None \<Rightarrow> if k \<in> set ns then bt_get k sh else None)"
  by (induction ns sh fs rule: restore_names.induct) (auto simp: bt_contains_def split: option.splits)

lemma bt_get_drop_undurable:
  "bt_get k (fold bt_remove (map fst (filter (\<lambda>e. \<not> bt_contains (fst e) ns) m)) m) =
    (if bt_contains k ns then bt_get k m else None)"
proof -
  have "k \<in> set (map fst (filter (\<lambda>e. \<not> bt_contains (fst e) ns) m)) \<longleftrightarrow> bt_contains k m \<and> \<not> bt_contains k ns"
    by (auto simp: bt_contains_iff[of _ m])
  then show ?thesis by (simp add: bt_get_fold_remove bt_contains_def[of k m])
qed

lemma get_file_crash:
  assumes "disk_inv d"
  shows "get_file (snd (crash d)) k =
    (if entry_durable d k then Some \<lparr>volatile = synced d k, stable = synced d k\<rparr> else None)"
proof -
  have inv: "bt_inv (fold bt_remove ks (files d))" for ks
    using assms by (simp add: disk_inv_def bt_inv_fold_remove)
  show ?thesis
  proof (cases "strict_namespace d")
    case False
    then have "get_file (snd (crash d)) k = map_option (\<lambda>f. f\<lparr>volatile := stable f\<rparr>) (bt_get k (files d))"
      by (simp add: crash_def Let_def get_file_def)
    then show ?thesis using False
      by (cases "bt_get k (files d)") (simp_all add: entry_durable_def synced_def get_file_def bt_contains_def)
  next
    case True
    have "get_file (snd (crash d)) k = map_option (\<lambda>f. f\<lparr>volatile := stable f\<rparr>)
      (bt_get k (restore_names (map fst (durable_names d)) (shadow d)
        (fold bt_remove (map fst (filter (\<lambda>e. \<not> bt_contains (fst e) (durable_names d)) (files d))) (files d))))"
      using True by (simp add: crash_def Let_def get_file_def)
    also have "\<dots> = map_option (\<lambda>f. f\<lparr>volatile := stable f\<rparr>)
      (if bt_contains k (durable_names d)
       then (case bt_get k (files d) of Some f \<Rightarrow> Some f | None \<Rightarrow> bt_get k (shadow d)) else None)"
      unfolding bt_get_restore_names[OF inv] bt_get_drop_undurable
      by (auto simp: bt_contains_iff split: option.splits)
    also have "\<dots> = (if entry_durable d k then Some \<lparr>volatile = synced d k, stable = synced d k\<rparr> else None)"
      using True by (cases "bt_get k (files d)"; cases "bt_get k (shadow d)")
        (simp_all add: entry_durable_def synced_def get_file_def bt_contains_def)
    finally show ?thesis .
  qed
qed

lemma disk_ok_crash: "disk_ok d \<Longrightarrow> disk_ok (snd (crash d))"
  by (auto simp: disk_ok_def disk_inv_def no_torn_writes_def crash_def Let_def restore_names_inv bt_inv_fold_remove)

lemma crash_client:
  assumes "disk_ok d"
  shows "content (snd (crash d)) k = (if entry_durable d k then Some (synced d k) else None)"
    and "entry_durable d k \<Longrightarrow> synced (snd (crash d)) k = synced d k"
    and "entry_durable (snd (crash d)) k = entry_durable d k"
proof -
  note g = get_file_crash[of d] and inv = assms[unfolded disk_ok_def]
  show "content (snd (crash d)) k = (if entry_durable d k then Some (synced d k) else None)"
    using inv by (simp add: content_def g)
  show "entry_durable d k \<Longrightarrow> synced (snd (crash d)) k = synced d k"
    using inv by (simp add: synced_def[of "snd (crash d)"] g)
  have "bt_contains k (files (snd (crash d))) \<longleftrightarrow> entry_durable d k"
    using inv g by (simp add: bt_contains_def flip: get_file_def)
  moreover have "strict_namespace (snd (crash d)) = strict_namespace d"
    "durable_names (snd (crash d)) = durable_names d" "shadow (snd (crash d)) = shadow d"
    by (simp_all add: crash_def Let_def)
  ultimately show "entry_durable (snd (crash d)) k = entry_durable d k"
    by (auto simp: entry_durable_def)
qed

section \<open>The interface\<close>

text \<open>
  The contract of a disk that can crash, in terms of what a client reads (\<^verbatim>\<open>cont\<close>), the bytes that
  are on stable storage (\<^verbatim>\<open>stab\<close>) and the directory entries that are (\<^verbatim>\<open>dent\<close>). It does not cover torn writes;
  \<^verbatim>\<open>ok\<close> excludes them.
\<close>

locale crash_disk =
  fixes ok :: "'d \<Rightarrow> bool"
    and cont :: "'d \<Rightarrow> string \<Rightarrow> bytes option"
    and stab :: "'d \<Rightarrow> string \<Rightarrow> bytes"
    and dent :: "'d \<Rightarrow> string \<Rightarrow> bool"
    and app :: "relative_path \<Rightarrow> bytes \<Rightarrow> 'd \<Rightarrow> nat result \<times> 'd"
    and fsync :: "relative_path \<Rightarrow> 'd \<Rightarrow> unit result \<times> 'd"
    and dsync :: "relative_path \<Rightarrow> 'd \<Rightarrow> unit result \<times> 'd"
    and crsh :: "'d \<Rightarrow> 'd"
  assumes app_ok: "ok d \<Longrightarrow> app p b d = (Inr off, d') \<Longrightarrow>
      ok d' \<and> off = length (bytes_of (cont d (as_str p))) \<and>
      cont d' = (cont d)(as_str p \<mapsto> bytes_of (cont d (as_str p)) @ b) \<and>
      stab d' = (stab d)(as_str p := if cont d (as_str p) = None then [] else stab d (as_str p)) \<and>
      (\<forall>q. q \<noteq> as_str p \<longrightarrow> dent d' q = dent d q) \<and> (dent d (as_str p) \<longrightarrow> dent d' (as_str p))"
    and app_err: "ok d \<Longrightarrow> app p b d = (Inl e, d') \<Longrightarrow>
      ok d' \<and> cont d' = cont d \<and> stab d' = stab d \<and> dent d' = dent d"
    and fsync_ok: "ok d \<Longrightarrow> fsync p d = (Inr u, d') \<Longrightarrow>
      ok d' \<and> cont d (as_str p) \<noteq> None \<and> cont d' = cont d \<and>
      stab d' = (stab d)(as_str p := the (cont d (as_str p))) \<and> dent d' = dent d"
    and fsync_err: "ok d \<Longrightarrow> fsync p d = (Inl e, d') \<Longrightarrow>
      ok d' \<and> cont d' = cont d \<and> stab d' = stab d \<and> dent d' = dent d"
    and dsync_ok: "ok d \<Longrightarrow> dsync p d = (Inr u, d') \<Longrightarrow>
      ok d' \<and> cont d' = cont d \<and> (\<forall>q. cont d q \<noteq> None \<longrightarrow> stab d' q = stab d q) \<and>
      (\<forall>q. parent_dir q = as_str p \<longrightarrow> dent d' q = (cont d q \<noteq> None)) \<and>
      (\<forall>q. parent_dir q \<noteq> as_str p \<longrightarrow> dent d' q = dent d q \<and> stab d' q = stab d q)"
    and dsync_err: "ok d \<Longrightarrow> dsync p d = (Inl e, d') \<Longrightarrow>
      ok d' \<and> cont d' = cont d \<and> stab d' = stab d \<and> dent d' = dent d"
    and crsh_ok: "ok d \<Longrightarrow> ok (crsh d)"
    and crsh_cont: "ok d \<Longrightarrow> cont (crsh d) q = (if dent d q then Some (stab d q) else None)"
    and crsh_stab: "ok d \<Longrightarrow> dent d q \<Longrightarrow> stab (crsh d) q = stab d q"
    and crsh_dent: "ok d \<Longrightarrow> dent (crsh d) q = dent d q"
begin

text \<open>The sequence that makes a new file's bytes durable: append, sync the directory, sync the file.\<close>

lemma append_sync_survives:
  assumes ok: "ok d" and a: "app p b d = (Inr off, d1)" and ds: "dsync dir d1 = (Inr u, d2)"
    and par: "parent_dir (as_str p) = as_str dir" and fs: "fsync p d2 = (Inr v, d3)"
  shows "ok d3" "cont (crsh d3) (as_str p) = Some (bytes_of (cont d (as_str p)) @ b)"
proof -
  note A = app_ok[OF ok a]
  note B = dsync_ok[OF conjunct1[OF A] ds]
  note C = fsync_ok[OF conjunct1[OF B] fs]
  show "ok d3" using C by simp
  have "dent d3 (as_str p)" "stab d3 (as_str p) = bytes_of (cont d (as_str p)) @ b"
    using A B C par by auto
  then show "cont (crsh d3) (as_str p) = Some (bytes_of (cont d (as_str p)) @ b)"
    using crsh_cont[OF \<open>ok d3\<close>] by simp
qed

text \<open>What a crash would leave, and how the operations change it.\<close>

definition after_crash :: "'d \<Rightarrow> string \<Rightarrow> bytes option" where
  "after_crash d q = cont (crsh d) q"

lemma after_crash_unchanged:
  assumes "ok d" "ok d'" "stab d' = stab d" "dent d' = dent d"
  shows "after_crash d' = after_crash d"
  using assms by (auto simp: after_crash_def crsh_cont)

lemma app_err_after: "ok d \<Longrightarrow> app p b d = (Inl e, d') \<Longrightarrow> after_crash d' = after_crash d"
  using app_err after_crash_unchanged by blast

lemma fsync_err_after: "ok d \<Longrightarrow> fsync p d = (Inl e, d') \<Longrightarrow> after_crash d' = after_crash d"
  using fsync_err after_crash_unchanged by blast

lemma dsync_err_after: "ok d \<Longrightarrow> dsync p d = (Inl e, d') \<Longrightarrow> after_crash d' = after_crash d"
  using dsync_err after_crash_unchanged by blast

lemma app_ok_after:
  assumes "ok d" "app p b d = (Inr off, d')"
  shows "q \<noteq> as_str p \<or> cont d q \<noteq> None \<and> after_crash d q \<noteq> None \<Longrightarrow> after_crash d' q = after_crash d q"
    "cont d (as_str p) = None \<Longrightarrow> after_crash d' (as_str p) = None \<or> after_crash d' (as_str p) = Some []"
  using app_ok[OF assms] assms(1) by (auto simp: after_crash_def crsh_cont split: if_splits)

lemma fsync_ok_after:
  assumes "ok d" "fsync p d = (Inr u, d')" "after_crash d (as_str p) \<noteq> None"
  shows "after_crash d' = (after_crash d)(as_str p := cont d (as_str p))"
  using fsync_ok[OF assms(1,2)] assms(1,3) by (auto simp: after_crash_def crsh_cont fun_eq_iff split: if_splits)

lemma create_after:
  assumes ok: "ok d" and a: "app p b d = (Inr off, d1)" and ds: "dsync dir d1 = (Inr u, d2)"
    and par: "parent_dir (as_str p) = as_str dir" and new: "cont d (as_str p) = None"
  shows "after_crash d2 (as_str p) = Some []"
    "q \<noteq> as_str p \<Longrightarrow> cont d q \<noteq> None \<and> after_crash d q \<noteq> None \<or> cont d q = None \<and> after_crash d q = None
      \<Longrightarrow> after_crash d2 q = after_crash d q"
proof -
  note A = app_ok[OF ok a]
  note B = dsync_ok[OF conjunct1[OF A] ds]
  show "after_crash d2 (as_str p) = Some []"
    using A B par new by (simp add: after_crash_def crsh_cont)
  show "q \<noteq> as_str p \<Longrightarrow> cont d q \<noteq> None \<and> after_crash d q \<noteq> None \<or> cont d q = None \<and> after_crash d q = None
      \<Longrightarrow> after_crash d2 q = after_crash d q"
    using A B ok by (cases "parent_dir q = as_str dir") (auto simp: after_crash_def crsh_cont split: if_splits)
qed

text \<open>A second crash finds what the first one left.\<close>

lemma crash_idem: "ok d \<Longrightarrow> cont (crsh (crsh d)) q = cont (crsh d) q"
  using crsh_ok[of d] by (simp add: crsh_cont crsh_dent crsh_stab)

text \<open>An unsynced append is either lost as a whole or was to a file that did not exist.\<close>

lemma unsynced_append_lost:
  assumes "ok d" "app p b d = (Inr off, d1)" "cont d (as_str p) \<noteq> None" "dent d (as_str p)"
  shows "cont (crsh d1) (as_str p) = cont (crsh d) (as_str p)"
  using app_ok[OF assms(1,2)] assms(1,3,4) crsh_cont[of d] crsh_cont[of d1] by auto

end

interpretation simdisk: crash_disk disk_ok content synced entry_durable append_file fsync_file fsync_dir
  "\<lambda>d. snd (crash d)"
proof (unfold_locales, goal_cases)
  case 1 from append_file_cases[OF 1] show ?case by (elim disjE exE conjE) simp_all
next
  case 2 from append_file_cases[OF 2] show ?case by (elim disjE exE conjE) simp_all
next
  case 3 from fsync_file_cases[OF 3] show ?case by (elim disjE exE conjE) simp_all
next
  case 4 from fsync_file_cases[OF 4] show ?case by (elim disjE exE conjE) simp_all
next
  case 5 from fsync_dir_cases[OF 5] show ?case by (elim disjE exE conjE) simp_all
next
  case 6 from fsync_dir_cases[OF 6] show ?case by (elim disjE exE conjE) simp_all
qed (simp_all add: crash_client disk_ok_crash)

end
