(* ===== verification/Wal_Log.thy ===== *)
theory Wal_Log
  imports Wal_Codec Sim_Disk
begin

text \<open>
  The write-ahead log proper: group commit (\<^verbatim>\<open>batch.rs\<close>), the segment writer (\<^verbatim>\<open>writer.rs\<close>),
  recovery (\<^verbatim>\<open>recovery.rs\<close>) and inspection (\<^verbatim>\<open>inspect.rs\<close>) of \<^verbatim>\<open>src/crates/kaya-wal/src\<close>, over the
  simulated disk.

  The clock is an argument: \<^verbatim>\<open>now\<close> is what \<^verbatim>\<open>Instant::now()\<close> returns, in microseconds, and \<^verbatim>\<open>dur\<close> the
  measured duration of an fsync. The one-shot channels of group commit are identified by the LSN of
  the append that waits on them; \<^verbatim>\<open>settled\<close> is what has happened to the channels so far: a duration
  was sent, or the sender was dropped.
\<close>

section \<open>Segment names\<close>

definition hex_digit :: "char \<Rightarrow> nat option" where
  "hex_digit c =
    (let n = of_char c
     in if 48 \<le> n \<and> n \<le> 57 then Some (n - 48)
        else if 97 \<le> n \<and> n \<le> 102 then Some (n - 87)
        else if 65 \<le> n \<and> n \<le> 70 then Some (n - 55)
        else None)"

fun parse_digits :: "nat \<Rightarrow> string \<Rightarrow> nat option" where
  "parse_digits acc [] = Some acc"
| "parse_digits acc (c # cs) =
    (case hex_digit c of
       None \<Rightarrow> None
     | Some d \<Rightarrow> if acc * 16 + d < 2 ^ 64 then parse_digits (acc * 16 + d) cs else None)"

text \<open>\<^verbatim>\<open>u64::from_str_radix(_, 16)\<close>; a leading plus sign is accepted.\<close>

definition u64_from_str_radix16 :: "string \<Rightarrow> u64 option" where
  "u64_from_str_radix16 s =
    (let digits = (if 1 < length s \<and> hd s = CHR ''+'' then tl s else s)
     in if digits = [] then None else map_option word_of_nat (parse_digits 0 digits))"

definition segment_path :: "u64 \<Rightarrow> relative_path result" where
  "segment_path segment_id = path_new (''wal/'' @ fmt_hex 16 (unat segment_id) @ ''.wal'')"

definition strip_suffix :: "string \<Rightarrow> string \<Rightarrow> string option" where
  "strip_suffix sfx s = (if suffix sfx s then Some (take (length s - length sfx) s) else None)"

definition parse_segment_id :: "relative_path \<Rightarrow> u64 option" where
  "parse_segment_id path =
    (case file_name path of
       None \<Rightarrow> None
     | Some name \<Rightarrow>
         (case strip_suffix ''.wal'' name of
            None \<Rightarrow> None
          | Some hex \<Rightarrow> u64_from_str_radix16 hex))"

section \<open>Group commit\<close>

record wal_batch_writer =
  bw_max_records :: nat
  bw_max_bytes :: nat
  bw_flush_interval :: nat
  pending_count :: nat
  pending_bytes :: nat
  batch_started_at :: "nat option"
  waiters :: "lsn list"
  settled :: "(lsn \<times> u64 option) list"

datatype batch_action = FlushNow | WaitForFlush lsn

definition batch_new :: "wal_batch_config \<Rightarrow> wal_batch_writer" where
  "batch_new config =
    \<lparr>bw_max_records = batch_max_records config, bw_max_bytes = batch_max_bytes config,
     bw_flush_interval = unat (batch_flush_interval_us config), pending_count = 0, pending_bytes = 0,
     batch_started_at = None, waiters = [], settled = []\<rparr>"

definition batch_enabled :: "wal_batch_writer \<Rightarrow> bool" where
  "batch_enabled b \<longleftrightarrow> bw_max_records b > 1 \<or> bw_max_bytes b > 0 \<or> bw_flush_interval b \<noteq> 0"

definition has_pending :: "wal_batch_writer \<Rightarrow> bool" where
  "has_pending b \<longleftrightarrow> pending_count b > 0"

definition interval_expired :: "nat \<Rightarrow> wal_batch_writer \<Rightarrow> bool" where
  "interval_expired now b \<longleftrightarrow>
    bw_flush_interval b \<noteq> 0 \<and>
    (case batch_started_at b of None \<Rightarrow> False | Some started \<Rightarrow> now - started \<ge> bw_flush_interval b)"

definition should_flush_now :: "nat \<Rightarrow> wal_batch_writer \<Rightarrow> bool" where
  "should_flush_now now b \<longleftrightarrow>
    (let count_limit = (if bw_max_records b > 1 then bw_max_records b else 2 ^ 64 - 1);
         count_full = pending_count b \<ge> count_limit;
         bytes_full = bw_max_bytes b > 0 \<and> pending_bytes b \<ge> bw_max_bytes b;
         time_full = interval_expired now b
     in count_full \<or> bytes_full \<or> time_full)"

definition after_record_appended ::
  "nat \<Rightarrow> lsn \<Rightarrow> nat \<Rightarrow> wal_batch_writer \<Rightarrow> batch_action \<times> wal_batch_writer" where
  "after_record_appended now chan encoded_len b =
    (if \<not> batch_enabled b then (FlushNow, b)
     else
       let b' = b\<lparr>pending_count := pending_count b + 1, pending_bytes := pending_bytes b + encoded_len,
             batch_started_at := (if batch_started_at b = None then Some now else batch_started_at b)\<rparr>
       in if should_flush_now now b' then (FlushNow, b')
          else (WaitForFlush chan, b'\<lparr>waiters := waiters b' @ [chan]\<rparr>))"

definition batch_reset :: "wal_batch_writer \<Rightarrow> wal_batch_writer" where
  "batch_reset b = b\<lparr>pending_count := 0, pending_bytes := 0, batch_started_at := None\<rparr>"

definition complete_flush :: "u64 \<Rightarrow> wal_batch_writer \<Rightarrow> wal_batch_writer" where
  "complete_flush duration_us b =
    batch_reset (b\<lparr>settled := settled b @ map (\<lambda>w. (w, Some duration_us)) (waiters b), waiters := []\<rparr>)"

definition fail_flush :: "wal_batch_writer \<Rightarrow> wal_batch_writer" where
  "fail_flush b = batch_reset (b\<lparr>settled := settled b @ map (\<lambda>w. (w, None)) (waiters b), waiters := []\<rparr>)"

section \<open>The writer\<close>

record append_result =
  ar_lsn :: lsn
  ar_sequence :: seqno
  ar_segment_id :: u64
  ar_offset :: nat
  ar_encoded_len :: u32
  ar_durable :: bool
  ar_fsync_duration_us :: "u64 option"

record wal_writer =
  ww_config :: wal_config
  active_segment_id :: u64
  active_path :: relative_path
  active_len :: nat
  active_dir_synced :: bool
  next_lsn :: lsn
  next_sequence :: seqno
  batch :: wal_batch_writer

text \<open>
  An append returns, fails, or is left waiting on its channel; when the duration arrives on the
  channel the call returns the result given, and when the sender is dropped it fails.
\<close>

datatype append_outcome = Acked append_result | AppendFailed kaya_error | Waiting lsn append_result

definition ensure_min_sequence :: "u64 \<Rightarrow> wal_writer \<Rightarrow> wal_writer" where
  "ensure_min_sequence min_seq w = (if min_seq > next_sequence w then w\<lparr>next_sequence := min_seq\<rparr> else w)"

definition wal_open_at :: "wal_config \<Rightarrow> sim_state \<Rightarrow> lsn \<Rightarrow> seqno \<Rightarrow> wal_writer result" where
  "wal_open_at config d lsn sequence =
    (case path_new ''wal'' of
       Inl e \<Rightarrow> Inl e
     | Inr wal_dir \<Rightarrow>
         (case list_dir wal_dir d of
            Inl e \<Rightarrow> Inl e
          | Inr segments \<Rightarrow>
              let ids = List.map_filter (\<lambda>entry. parse_segment_id (entry_path entry)) segments;
                  active_id = (if ids = [] then 1 else Max (set ids))
              in (case segment_path active_id of
                    Inl e \<Rightarrow> Inl e
                  | Inr path \<Rightarrow>
                      (case (case file_len path d of
                               Inr len \<Rightarrow> Inr (len, True)
                             | Inl NotFound \<Rightarrow> Inr (0, False)
                             | Inl error \<Rightarrow> Inl error) of
                         Inl error \<Rightarrow> Inl error
                       | Inr (len, synced_dir) \<Rightarrow>
                           Inr \<lparr>ww_config = config, active_segment_id = active_id, active_path = path,
                             active_len = len, active_dir_synced = synced_dir, next_lsn = lsn,
                             next_sequence = sequence, batch = batch_new (batch_cfg config)\<rparr>))))"

definition wal_open :: "wal_config \<Rightarrow> sim_state \<Rightarrow> wal_writer result" where
  "wal_open config d = wal_open_at config d LSN_FIRST SEQ_FIRST"

definition flush_strict_batch :: "u64 \<Rightarrow> wal_writer \<Rightarrow> sim_state \<Rightarrow> u64 result \<times> wal_writer \<times> sim_state" where
  "flush_strict_batch dur w d =
    (case fsync_file (active_path w) d of
       (Inr _, d') \<Rightarrow> (Inr dur, w\<lparr>batch := complete_flush dur (batch w)\<rparr>, d')
     | (Inl error, d') \<Rightarrow> (Inl error, w\<lparr>batch := fail_flush (batch w)\<rparr>, d'))"

definition flush_pending_batch :: "u64 \<Rightarrow> wal_writer \<Rightarrow> sim_state \<Rightarrow> unit result \<times> wal_writer \<times> sim_state" where
  "flush_pending_batch dur w d =
    (if has_pending (batch w)
     then (case flush_strict_batch dur w d of
             (Inl e, w', d') \<Rightarrow> (Inl e, w', d')
           | (Inr _, w', d') \<Rightarrow> (Inr (), w', d'))
     else (Inr (), w, d))"

definition rotate_segment :: "wal_writer \<Rightarrow> unit result \<times> wal_writer" where
  "rotate_segment w =
    (let w1 = w\<lparr>active_segment_id := active_segment_id w + 1\<rparr>
     in (case segment_path (active_segment_id w1) of
           Inl e \<Rightarrow> (Inl e, w1)
         | Inr path \<Rightarrow> (Inr (), w1\<lparr>active_path := path, active_len := 0, active_dir_synced := False\<rparr>)))"

text \<open>
  The stages of \<^verbatim>\<open>append\<close>, in order: the flush of an expired batch, the encoding and its size check,
  rotation, the write with the sync of a new segment's directory entry, and the acknowledgement.
\<close>

definition append_expire :: "nat \<Rightarrow> u64 \<Rightarrow> wal_writer \<Rightarrow> sim_state \<Rightarrow> unit result \<times> wal_writer \<times> sim_state" where
  "append_expire now dur w d =
    (if batch_enabled (batch w) \<and> has_pending (batch w) \<and> interval_expired now (batch w)
     then (case flush_strict_batch dur w d of
             (Inl e, w', d') \<Rightarrow> (Inl e, w', d')
           | (Inr _, w', d') \<Rightarrow> (Inr (), w', d'))
     else (Inr (), w, d))"

definition append_encode :: "wal_payload \<Rightarrow> wal_writer \<Rightarrow> bytes result" where
  "append_encode payload w =
    (case encode_record (new_record (next_lsn w) (next_sequence w) payload) of
       Inl e \<Rightarrow> Inl e
     | Inr encoded \<Rightarrow>
         (case u32_try_from (length encoded) of
            None \<Rightarrow> Inl (InvalidArgument ''encoded WAL record length does not fit into u32'')
          | Some encoded_len \<Rightarrow>
              if encoded_len > max_record_bytes (ww_config w)
              then Inl (InvalidArgument (''encoded WAL record exceeds configured max: '' @ fmt_dec (unat encoded_len)
                     @ '' > '' @ fmt_dec (unat (max_record_bytes (ww_config w)))))
              else Inr encoded))"

definition append_rotate :: "u64 \<Rightarrow> nat \<Rightarrow> wal_writer \<Rightarrow> sim_state \<Rightarrow> unit result \<times> wal_writer \<times> sim_state" where
  "append_rotate dur encoded_len w d =
    (if active_len w > 0 \<and> active_len w + encoded_len > unat (segment_max_bytes (ww_config w))
     then (case flush_pending_batch dur w d of
             (Inl e, w', d') \<Rightarrow> (Inl e, w', d')
           | (Inr _, w', d') \<Rightarrow> (case rotate_segment w' of (r, w'') \<Rightarrow> (r, w'', d')))
     else (Inr (), w, d))"

definition append_write :: "bytes \<Rightarrow> wal_writer \<Rightarrow> sim_state \<Rightarrow> nat result \<times> wal_writer \<times> sim_state" where
  "append_write encoded w d =
    (case append_file (active_path w) encoded d of
       (Inl e, d') \<Rightarrow> (Inl e, w, d')
     | (Inr offset, d') \<Rightarrow>
         if active_dir_synced w then (Inr offset, w, d')
         else
           (case path_new ''wal'' of
              Inl e \<Rightarrow> (Inl e, w, d')
            | Inr wal_dir \<Rightarrow>
                (case fsync_dir wal_dir d' of
                   (Inl e, d'') \<Rightarrow> (Inl e, w, d'')
                 | (Inr _, d'') \<Rightarrow> (Inr offset, w\<lparr>active_dir_synced := True\<rparr>, d''))))"

definition append_advance :: "nat \<Rightarrow> nat \<Rightarrow> wal_writer \<Rightarrow> wal_writer" where
  "append_advance offset encoded_len w =
    w\<lparr>active_len := offset + encoded_len, next_lsn := lsn_next (next_lsn w),
      next_sequence := seq_next (next_sequence w)\<rparr>"

definition append_finish ::
  "nat \<Rightarrow> u64 \<Rightarrow> durability_mode \<Rightarrow> nat \<Rightarrow> nat \<Rightarrow> wal_writer \<Rightarrow> sim_state \<Rightarrow> append_outcome \<times> wal_writer \<times> sim_state" where
  "append_finish now dur mode offset encoded_len w d =
    (let res = (\<lambda>dble us. \<lparr>ar_lsn = next_lsn w, ar_sequence = next_sequence w,
           ar_segment_id = active_segment_id w, ar_offset = offset, ar_encoded_len = word_of_nat encoded_len,
           ar_durable = dble, ar_fsync_duration_us = us\<rparr>)
     in (case mode of
           Relaxed \<Rightarrow> (Acked (res False None), append_advance offset encoded_len w, d)
         | Strict \<Rightarrow>
             if \<not> batch_enabled (batch w)
             then (case flush_strict_batch dur w d of
                     (Inl e, w', d') \<Rightarrow> (AppendFailed e, w', d')
                   | (Inr us, w', d') \<Rightarrow> (Acked (res True (Some us)), append_advance offset encoded_len w', d'))
             else
               (case after_record_appended now (next_lsn w) encoded_len (batch w) of
                  (action, b) \<Rightarrow>
                    let w1 = append_advance offset encoded_len (w\<lparr>batch := b\<rparr>)
                    in (case action of
                          FlushNow \<Rightarrow>
                            (case flush_strict_batch dur w1 d of
                               (Inl e, w', d') \<Rightarrow> (AppendFailed e, w', d')
                             | (Inr us, w', d') \<Rightarrow> (Acked (res True (Some us)), w', d'))
                        | WaitForFlush chan \<Rightarrow> (Waiting chan (res True None), w1, d)))))"

definition wal_append ::
  "nat \<Rightarrow> u64 \<Rightarrow> wal_payload \<Rightarrow> durability_mode \<Rightarrow> wal_writer \<Rightarrow> sim_state \<Rightarrow> append_outcome \<times> wal_writer \<times> sim_state" where
  "wal_append now dur payload mode w d =
    (case append_expire now dur w d of
       (Inl e, w1, d1) \<Rightarrow> (AppendFailed e, w1, d1)
     | (Inr _, w1, d1) \<Rightarrow>
         (case append_encode payload w1 of
            Inl e \<Rightarrow> (AppendFailed e, w1, d1)
          | Inr encoded \<Rightarrow>
              (case append_rotate dur (length encoded) w1 d1 of
                 (Inl e, w2, d2) \<Rightarrow> (AppendFailed e, w2, d2)
               | (Inr _, w2, d2) \<Rightarrow>
                   (case append_write encoded w2 d2 of
                      (Inl e, w3, d3) \<Rightarrow> (AppendFailed e, w3, d3)
                    | (Inr offset, w3, d3) \<Rightarrow>
                        append_finish now dur mode offset (length encoded) w3 d3))))"

section \<open>Recovery\<close>

record recovered_record =
  rr_segment_id :: u64
  rr_offset :: u64
  rr_record :: wal_record

record wal_recovery_report =
  rep_records :: "recovered_record list"
  last_lsn :: "lsn option"
  valid_bytes :: nat
  truncated_bytes :: nat
  rep_warnings :: "wal_warning list"

definition empty_report :: wal_recovery_report where
  "empty_report = \<lparr>rep_records = [], last_lsn = None, valid_bytes = 0, truncated_bytes = 0, rep_warnings = []\<rparr>"

text \<open>
  The loop over the records of one segment. It returns the report, the next expected LSN, the
  offset reached, and whether it stopped at a bad record.
\<close>

function scan_records ::
  "u32 \<Rightarrow> u64 \<Rightarrow> bytes \<Rightarrow> nat \<Rightarrow> u64 option \<Rightarrow> wal_recovery_report \<Rightarrow> wal_recovery_report \<times> u64 option \<times> nat \<times> bool" where
  "scan_records max_len segment_id bytes offset expected report =
    (if offset \<ge> length bytes then (report, expected, offset, False)
     else
       (case decode_record (drop offset bytes) (word_of_nat offset) max_len of
          Complete record bytes_read \<Rightarrow>
            if expected \<noteq> None \<and> wr_lsn record \<noteq> the expected
            then (report\<lparr>rep_warnings := rep_warnings report
                    @ [NonMonotonicLsn (word_of_nat offset) (the expected) (wr_lsn record)]\<rparr>,
                  expected, offset, True)
            else scan_records max_len segment_id bytes (offset + bytes_read) (Some (lsn_next (wr_lsn record)))
                   (report\<lparr>last_lsn := Some (wr_lsn record),
                      rep_records := rep_records report
                        @ [\<lparr>rr_segment_id = segment_id, rr_offset = word_of_nat offset, rr_record = record\<rparr>]\<rparr>)
        | Incomplete warning \<Rightarrow>
            (report\<lparr>rep_warnings := rep_warnings report @ [warning]\<rparr>, expected, offset, True)
        | Invalid warning \<Rightarrow>
            (report\<lparr>rep_warnings := rep_warnings report @ [warning]\<rparr>, expected, offset, True)))"
  by pat_completeness auto
termination
proof (relation "measure (\<lambda>(_, _, bytes, offset, _, _). length bytes - offset)", goal_cases)
  case (2 max_len segment_id bytes offset expected report rc bytes_read)
  then have "bytes_read > 0" using decode_record_CompleteD(9)[of "drop offset bytes"] by fastforce
  then show ?case using 2 by simp
qed simp

declare scan_records.simps [simp del]

text \<open>
  The loop over the segments; the number returned is that of the segments after the one at which
  the scan stopped, if it did.
\<close>

fun recover_segments ::
  "u32 \<Rightarrow> (u64 \<times> relative_path) list \<Rightarrow> u64 option \<Rightarrow> wal_recovery_report \<Rightarrow> sim_state
    \<Rightarrow> (wal_recovery_report \<times> nat option) result \<times> sim_state" where
  "recover_segments max_len [] expected report d = (Inr (report, None), d)"
| "recover_segments max_len ((segment_id, path) # rest) expected report d =
    (case (case file_len path d of Inr len \<Rightarrow> Inr len | Inl NotFound \<Rightarrow> Inr 0 | Inl error \<Rightarrow> Inl error) of
       Inl error \<Rightarrow> (Inl error, d)
     | Inr len \<Rightarrow>
         if len = 0 then recover_segments max_len rest expected report d
         else
           (case read_at path 0 len d of
              (Inl e, d1) \<Rightarrow> (Inl e, d1)
            | (Inr bytes, d1) \<Rightarrow>
                (case scan_records max_len segment_id bytes 0 expected report of
                   (report1, expected1, offset, stopped) \<Rightarrow>
                     let report2 = report1\<lparr>valid_bytes := valid_bytes report1 + offset\<rparr>
                     in if stopped
                        then if len > offset
                             then (case truncate_file path offset d1 of
                                     (Inl e, d2) \<Rightarrow> (Inl e, d2)
                                   | (Inr _, d2) \<Rightarrow>
                                       (Inr (report2\<lparr>truncated_bytes := truncated_bytes report2 + (len - offset),
                                               rep_warnings := rep_warnings report2 @ [TailTruncated (as_str path)
                                                 (word_of_nat offset) (word_of_nat (len - offset))]\<rparr>,
                                             Some (length rest)), d2))
                             else (Inr (report2, Some (length rest)), d1)
                        else recover_segments max_len rest expected1 report2 d1)))"

definition wal_segments :: "dir_entry list \<Rightarrow> (u64 \<times> relative_path) list" where
  "wal_segments entries =
    sort_key fst (List.map_filter (\<lambda>entry. map_option (\<lambda>id. (id, entry_path entry)) (parse_segment_id (entry_path entry)))
      entries)"

definition recover_wal :: "wal_config \<Rightarrow> sim_state \<Rightarrow> wal_recovery_report result \<times> sim_state" where
  "recover_wal config d =
    (case path_new ''wal'' of
       Inl e \<Rightarrow> (Inl e, d)
     | Inr wal_dir \<Rightarrow>
         (case list_dir wal_dir d of
            Inl e \<Rightarrow> (Inl e, d)
          | Inr entries \<Rightarrow>
              (case recover_segments (max_record_bytes config) (wal_segments entries) None empty_report d of
                 (Inl e, d') \<Rightarrow> (Inl e, d')
               | (Inr (report, ignored), d') \<Rightarrow>
                   (case ignored of
                      Some n \<Rightarrow>
                        if n > 0
                        then (Inr (report\<lparr>rep_warnings := rep_warnings report @ [TrailingSegmentsIgnored n]\<rparr>), d')
                        else (Inr report, d')
                    | None \<Rightarrow> (Inr report, d')))))"

section \<open>Inspection\<close>

record wal_inspection_row =
  row_offset :: u64
  row_lsn :: u64
  row_sequence :: u64
  row_record_type :: wal_record_type
  row_key_len :: "nat option"
  row_value_len :: "nat option"

function inspect_loop ::
  "u32 \<Rightarrow> bytes \<Rightarrow> nat \<Rightarrow> wal_inspection_row list \<Rightarrow> wal_inspection_row list \<times> wal_warning list" where
  "inspect_loop max_len bytes offset rows =
    (if offset \<ge> length bytes then (rows, [])
     else
       (case decode_record (drop offset bytes) (word_of_nat offset) max_len of
          Complete record bytes_read \<Rightarrow>
            inspect_loop max_len bytes (offset + bytes_read)
              (rows @ [\<lparr>row_offset = word_of_nat offset, row_lsn = wr_lsn record, row_sequence = wr_sequence record,
                 row_record_type = record_type record, row_key_len = payload_key_len (wr_payload record),
                 row_value_len = payload_value_len (wr_payload record)\<rparr>])
        | Incomplete warning \<Rightarrow> (rows, [warning])
        | Invalid warning \<Rightarrow> (rows, [warning])))"
  by pat_completeness auto
termination
proof (relation "measure (\<lambda>(_, bytes, offset, _). length bytes - offset)", goal_cases)
  case (2 max_len bytes offset rows rc bytes_read)
  then have "bytes_read > 0" using decode_record_CompleteD(9)[of "drop offset bytes"] by fastforce
  then show ?case using 2 by simp
qed simp

declare inspect_loop.simps [simp del]

end
