(* ===== verification/Wal_Recovery.thy ===== *)
theory Wal_Recovery
  imports Wal_Log
begin

text \<open>
  What recovery reads: the names of the segment files and their numbers, the listing of the log directory, and the scan of
  the segments. On a disk that holds a log, segments of whole records numbered without gaps, recovery
  succeeds, returns the records of the log, warns of nothing and leaves the disk as it is.
\<close>

section \<open>Segment names\<close>

definition seg_name :: "u64 \<Rightarrow> string" where
  "seg_name sid = ''wal/'' @ fmt_hex 16 (unat sid) @ ''.wal''"

definition hex_chars :: "char set" where
  "hex_chars = set ''0123456789abcdef''"

lemma digit_char_hex: "d < 16 \<Longrightarrow> digit_char d \<in> hex_chars \<and> hex_digit (digit_char d) = Some d"
proof -
  have "list_all (\<lambda>d. digit_char d \<in> hex_chars \<and> hex_digit (digit_char d) = Some d) [0..<16]"
    by code_simp
  then show "d < 16 \<Longrightarrow> digit_char d \<in> hex_chars \<and> hex_digit (digit_char d) = Some d"
    by (simp add: list_all_iff)
qed

lemma fmt_radix_hex: "set (fmt_radix 16 n) \<subseteq> hex_chars"
proof (induction n rule: less_induct)
  case (less n)
  show ?case
  proof (cases "n < 16")
    case True
    then show ?thesis by (subst fmt_radix.simps) (simp add: digit_char_hex)
  next
    case False
    then show ?thesis using less[of "n div 16"] digit_char_hex[of "n mod 16"]
      by (subst fmt_radix.simps) simp
  qed
qed

lemma fmt_hex_chars: "set (fmt_hex w n) \<subseteq> hex_chars"
  using fmt_radix_hex[of n] by (auto simp: fmt_hex_def Let_def hex_chars_def)

lemma parse_digits_append:
  "parse_digits acc (xs @ ys) = Option.bind (parse_digits acc xs) (\<lambda>a. parse_digits a ys)"
  by (induction acc xs rule: parse_digits.induct) (auto split: option.splits)

lemma parse_digits_fmt: "n < 2 ^ 64 \<Longrightarrow> parse_digits 0 (fmt_radix 16 n) = Some n"
proof (induction n rule: less_induct)
  case (less n)
  show ?case
  proof (cases "n < 16")
    case True
    then show ?thesis using less.prems by (subst fmt_radix.simps) (simp add: digit_char_hex)
  next
    case False
    then have "parse_digits 0 (fmt_radix 16 (n div 16)) = Some (n div 16)"
      using less.prems by (intro less.IH) auto
    then show ?thesis using False less.prems
      by (subst fmt_radix.simps) (simp add: parse_digits_append digit_char_hex)
  qed
qed

lemma parse_digits_zeros: "parse_digits 0 (replicate k (CHR ''0'') @ s) = parse_digits 0 s"
  by (induction k) (simp_all add: hex_digit_def)

lemma fmt_hex_nonempty: "fmt_hex w n \<noteq> []"
  by (subst fmt_hex_def, subst fmt_radix.simps) (simp add: Let_def)

lemma parse_fmt_hex: "u64_from_str_radix16 (fmt_hex w (unat sid)) = Some sid"
proof -
  have b: "unat sid < 2 ^ 64" using unsigned_less[of sid, where ?'a = nat] by simp
  have "CHR ''+'' \<notin> set (fmt_hex w (unat sid))" using fmt_hex_chars[of w "unat sid"] by (auto simp: hex_chars_def)
  then have "hd (fmt_hex w (unat sid)) \<noteq> CHR ''+''" using fmt_hex_nonempty hd_in_set by metis
  then show ?thesis using fmt_hex_nonempty b
    by (simp add: u64_from_str_radix16_def fmt_hex_def Let_def parse_digits_zeros parse_digits_fmt)
qed

lemma plain_hex: "c \<in> hex_chars \<Longrightarrow> plain_char c"
  by (auto simp: hex_chars_def plain_char_def)

lemma plain_wal: "plain_component ''wal''" and plain_seg: "plain_component (fmt_hex 16 n @ ''.wal'')"
proof -
  show "plain_component ''wal''" by (auto simp: plain_component_def plain_char_def)
  have "\<forall>c \<in> set (fmt_hex 16 n @ ''.wal''). plain_char c"
    using fmt_hex_chars[of 16 n] plain_hex by (auto simp: plain_char_def)
  moreover have "fmt_hex 16 n @ ''.wal'' \<noteq> s" if "length s \<le> 2" for s
    using that by (auto dest: arg_cong[where f = length])
  ultimately show "plain_component (fmt_hex 16 n @ ''.wal'')"
    by (simp add: plain_component_def)
qed

lemma wal_dir_path: "path_new ''wal'' = Inr (RelativePath ''wal'')"
  using path_new_plain[of "[''wal'']"] plain_wal by simp

lemma segment_path_eq: "segment_path sid = Inr (RelativePath (seg_name sid))"
  using path_new_plain[of "[''wal'', fmt_hex 16 (unat sid) @ ''.wal'']"] plain_wal plain_seg
  by (simp add: segment_path_def seg_name_def)

lemma seg_file_no_slash: "CHR ''/'' \<notin> set (fmt_hex 16 n @ ''.wal'')"
  using plain_seg[of n] by (auto simp: plain_component_def plain_char_def)

lemma parse_segment_path: "parse_segment_id (RelativePath (seg_name sid)) = Some sid"
proof -
  have "file_name (RelativePath (''wal'' @ ''/'' @ (fmt_hex 16 (unat sid) @ ''.wal''))) = Some (fmt_hex 16 (unat sid) @ ''.wal'')"
    by (rule file_name_join[OF seg_file_no_slash]) simp
  then show ?thesis
    by (simp add: parse_segment_id_def seg_name_def strip_suffix_def suffix_def parse_fmt_hex)
qed

lemma seg_name_inject: "seg_name a = seg_name b \<longleftrightarrow> a = b"
  by (metis option.inject parse_segment_path)

lemma seg_name_parent: "parent_dir (seg_name sid) = ''wal''"
  using split_on_append_sep[of "CHR ''/''" "''wal''" "fmt_hex 16 (unat sid) @ ''.wal''"] seg_file_no_slash
  by (simp add: parent_dir_def seg_name_def split_on_plain)

lemma seg_name_prefix: "prefix ''wal/'' (seg_name sid)"
  by (simp add: seg_name_def)

section \<open>Listing the segments\<close>

lemma path_join_seg: "path_join (RelativePath ''wal'') (fmt_hex 16 (unat sid) @ ''.wal'') = Inr (RelativePath (seg_name sid))"
proof -
  have "path_new (fmt_hex 16 (unat sid) @ ''.wal'') = Inr (RelativePath (fmt_hex 16 (unat sid) @ ''.wal''))"
    using path_new_plain[of "[fmt_hex 16 (unat sid) @ ''.wal'']"] plain_seg by simp
  then show ?thesis
    using segment_path_eq[of sid] by (simp add: path_join_def is_root_def segment_path_def)
qed

lemma list_dir_loop_wal:
  assumes "\<forall>k \<in> fst ` set fs. prefix ''wal/'' k \<longrightarrow> k \<in> range seg_name" and "distinct (map fst fs)"
    and "\<forall>k \<in> fst ` set fs. \<forall>r. k = ''wal/'' @ r \<longrightarrow> \<not> bt_contains r seen" and "bt_inv seen"
  shows "\<exists>es. list_dir_loop (RelativePath ''wal'') ''wal/'' fs seen = Inr es \<and>
    map entry_path es = map (RelativePath \<circ> fst) (filter (\<lambda>e. prefix ''wal/'' (fst e)) fs)"
  using assms
proof (induction fs arbitrary: seen)
  case (Cons e fs)
  obtain k f where e: "e = (k, f)" by fastforce
  show ?case
  proof (cases "prefix ''wal/'' k")
    case False
    then show ?thesis using Cons.IH[of seen] Cons.prems by (simp add: e)
  next
    case True
    then obtain sid where k: "k = seg_name sid" using Cons.prems(1) e by auto
    define r where "r = fmt_hex 16 (unat sid) @ ''.wal''"
    have kr: "k = ''wal/'' @ r" by (simp add: k seg_name_def r_def)
    have r: "split_on CHR ''/'' r = [r]" "r \<noteq> []"
      using seg_file_no_slash by (simp_all add: r_def split_on_plain)
    have seen: "\<not> bt_contains r seen" using Cons.prems(3) e kr by auto
    have "\<exists>es. list_dir_loop (RelativePath ''wal'') ''wal/'' fs (bt_insert r () seen) = Inr es \<and>
        map entry_path es = map (RelativePath \<circ> fst) (filter (\<lambda>e. prefix ''wal/'' (fst e)) fs)"
    proof (rule Cons.IH)
      show "\<forall>k \<in> fst ` set fs. \<forall>r'. k = ''wal/'' @ r' \<longrightarrow> \<not> bt_contains r' (bt_insert r () seen)"
        using Cons.prems(2,3,4) e kr by (auto simp: bt_contains_def image_iff)
    qed (use Cons.prems in auto)
    then obtain es where es: "list_dir_loop (RelativePath ''wal'') ''wal/'' fs (bt_insert r () seen) = Inr es"
      "map entry_path es = map (RelativePath \<circ> fst) (filter (\<lambda>e. prefix ''wal/'' (fst e)) fs)" by blast
    have j: "path_join (RelativePath ''wal'') r = Inr (RelativePath k)"
      using path_join_seg by (simp add: r_def k)
    have dr: "drop (length ''wal/'') k = r" unfolding kr by simp
    have "list_dir_loop (RelativePath ''wal'') ''wal/'' ((k, f) # fs) seen =
        Inr (\<lparr>entry_path = RelativePath k, is_dir = CHR ''/'' \<in> set r,
          entry_len = (if CHR ''/'' \<in> set r then 0 else length (volatile f))\<rparr> # es)"
      unfolding list_dir_loop.simps(2) Let_def dr r(1) list.sel(1) j es(1) using True seen r(2) by simp
    then show ?thesis using es(2) True unfolding e by simp
  qed
qed simp

text \<open>
  The log as a client sees it: \<^verbatim>\<open>ids\<close> are the segments in order and \<^verbatim>\<open>S\<close> their records. The first argument is what the
  disk holds, or what it would hold after a crash.
\<close>

definition encs :: "wal_record list \<Rightarrow> bytes" where
  "encs rs = concat (map (\<lambda>r. case encode_record r of Inr bs \<Rightarrow> bs | Inl _ \<Rightarrow> []) rs)"

definition layout :: "(string \<Rightarrow> bytes option) \<Rightarrow> (u64 \<Rightarrow> wal_record list) \<Rightarrow> u64 list \<Rightarrow> bool" where
  "layout c S ids \<longleftrightarrow> sorted_wrt (<) ids \<and> (\<forall>sid \<in> set ids. c (seg_name sid) = Some (encs (S sid))) \<and>
    (\<forall>q. prefix ''wal/'' q \<and> c q \<noteq> None \<longrightarrow> q \<in> seg_name ` set ids)"

lemma layout_mem: "layout c S ids \<Longrightarrow> sid \<in> set ids \<longleftrightarrow> c (seg_name sid) \<noteq> None"
  using seg_name_prefix[of sid] by (auto simp: layout_def seg_name_inject image_iff)

lemma map_filter_entries:
  assumes "map entry_path es = map RelativePath (map seg_name ids)"
  shows "List.map_filter (\<lambda>en. map_option (\<lambda>i. (i, entry_path en)) (parse_segment_id (entry_path en))) es =
      map (\<lambda>i. (i, RelativePath (seg_name i))) ids"
    and "List.map_filter (\<lambda>en. parse_segment_id (entry_path en)) es = ids"
  using assms
  by (induction es arbitrary: ids) (auto simp: Cons_eq_map_conv parse_segment_path List.map_filter_simps)

lemma list_dir_layout:
  assumes ok: "disk_ok d" and lay: "layout (content d) S ids"
  obtains es where "list_dir (RelativePath ''wal'') d = Inr es"
    "wal_segments es = map (\<lambda>i. (i, RelativePath (seg_name i))) ids"
    "set (List.map_filter (\<lambda>en. parse_segment_id (entry_path en)) es) = set ids"
proof -
  have inv: "bt_inv (files d)" using ok by (simp add: disk_ok_def disk_inv_def)
  have mem: "k \<in> fst ` set (files d) \<longleftrightarrow> content d k \<noteq> None" for k
    by (simp add: content_def get_file_def bt_get_None_iff)
  have "\<forall>k \<in> fst ` set (files d). prefix ''wal/'' k \<longrightarrow> k \<in> range seg_name"
  proof (intro ballI impI)
    fix k assume "k \<in> fst ` set (files d)" "prefix ''wal/'' k"
    then show "k \<in> range seg_name" using lay mem[of k] unfolding layout_def by blast
  qed
  then obtain es where es: "list_dir_loop (RelativePath ''wal'') ''wal/'' (files d) bt_empty = Inr es"
    and p: "map entry_path es = map (RelativePath \<circ> fst) (filter (\<lambda>e. prefix ''wal/'' (fst e)) (files d))"
    using list_dir_loop_wal[of "files d" bt_empty] inv by (auto simp: bt_inv_distinct bt_empty_def bt_contains_def)
  define ks where "ks = map fst (filter (\<lambda>e. prefix ''wal/'' (fst e)) (files d))"
  have "set ks = {k. prefix ''wal/'' k \<and> content d k \<noteq> None}"
    unfolding ks_def mem[symmetric] by auto
  moreover have "{k. prefix ''wal/'' k \<and> content d k \<noteq> None} = seg_name ` set ids"
    using lay seg_name_prefix unfolding layout_def by blast
  ultimately have ks: "set ks = seg_name ` set ids" "distinct ks"
    using inv by (simp_all add: ks_def distinct_map_filter bt_inv_distinct)
  define js where "js = map (inv_into UNIV seg_name) ks"
  have injs: "inj seg_name" by (simp add: inj_def seg_name_inject)
  have kj: "ks = map seg_name js"
    unfolding js_def map_map using ks(1) by (intro map_idI[symmetric]) (auto simp: inv_into_f_f[OF injs])
  have js: "set js = set ids" "distinct js"
  proof -
    show "set js = set ids" unfolding js_def set_map ks(1) image_image by (simp add: inv_into_f_f[OF injs])
    show "distinct js" using ks(2) unfolding kj by (simp add: distinct_map)
  qed
  have ep: "map entry_path es = map RelativePath (map seg_name js)"
    using p by (simp add: ks_def flip: kj)
  have "sort_key fst (map (\<lambda>i. (i, RelativePath (seg_name i))) js) = map (\<lambda>i. (i, RelativePath (seg_name i))) ids"
  proof (rule map_sorted_distinct_set_unique[where f = fst])
    show "sorted (map fst (map (\<lambda>i. (i, RelativePath (seg_name i))) ids))"
      "distinct (map fst (map (\<lambda>i. (i, RelativePath (seg_name i))) ids))"
      using lay by (auto simp: layout_def comp_def strict_sorted_iff)
  qed (use js in \<open>auto simp: inj_on_def comp_def distinct_map\<close>)
  then have "wal_segments es = map (\<lambda>i. (i, RelativePath (seg_name i))) ids"
    by (simp add: wal_segments_def map_filter_entries(1)[OF ep])
  moreover have "list_dir (RelativePath ''wal'') d = Inr es"
    using es by (simp add: list_dir_def is_root_def)
  ultimately show thesis using that js map_filter_entries(2)[OF ep] by simp
qed

section \<open>Reading a log back\<close>

definition fits :: "wal_config \<Rightarrow> wal_record \<Rightarrow> bool" where
  "fits cfg r \<longleftrightarrow> wr_flags r = 0 \<and>
    (\<exists>bs. encode_record r = Inr bs \<and> length bs - WAL_HEADER_LEN \<le> unat (max_record_bytes cfg))"

fun lsns_from :: "lsn \<Rightarrow> wal_record list \<Rightarrow> bool" where
  "lsns_from l [] \<longleftrightarrow> True"
| "lsns_from l (r # rs) \<longleftrightarrow> wr_lsn r = l \<and> lsns_from (lsn_next l) rs"

lemma lsns_from_append: "lsns_from l (rs @ rs') \<longleftrightarrow> lsns_from l rs \<and> lsns_from (l + of_nat (length rs)) rs'"
  by (induction rs arbitrary: l) (simp_all add: lsn_next_def algebra_simps)

lemma lsns_from_nth: "lsns_from l rs \<Longrightarrow> i < length rs \<Longrightarrow> wr_lsn (rs ! i) = l + of_nat i"
  by (induction rs arbitrary: l i) (auto simp: lsn_next_def nth_Cons algebra_simps split: nat.splits)

lemma encs_Nil [simp]: "encs [] = []"
  by (simp add: encs_def)

lemma encs_append [simp]: "encs (rs @ rs') = encs rs @ encs rs'"
  by (simp add: encs_def)

lemma encs_single: "encode_record r = Inr bs \<Longrightarrow> encs [r] = bs"
  by (simp add: encs_def)

lemma fits_decode:
  assumes "fits cfg r"
  shows "decode_record (encs [r] @ rest) off (max_record_bytes cfg) = Complete r (length (encs [r]))" "encs [r] \<noteq> []"
proof -
  obtain bs where bs: "encode_record r = Inr bs" "length bs - WAL_HEADER_LEN \<le> unat (max_record_bytes cfg)" "wr_flags r = 0"
    using assms by (auto simp: fits_def)
  show d: "decode_record (encs [r] @ rest) off (max_record_bytes cfg) = Complete r (length (encs [r]))" for rest
    unfolding encs_single[OF bs(1)] by (rule decode_encode_record[OF bs(1,3,2)])
  from decode_record_CompleteD(1)[OF d[of "[]"]] show "encs [r] \<noteq> []" by auto
qed

text \<open>What scanning adds to the report of recovery.\<close>

definition reports_more :: "wal_recovery_report \<Rightarrow> wal_record list \<Rightarrow> wal_recovery_report \<Rightarrow> bool" where
  "reports_more rep rs rep' \<longleftrightarrow> map rr_record (rep_records rep') = map rr_record (rep_records rep) @ rs \<and>
    rep_warnings rep' = rep_warnings rep \<and> last_lsn rep' = (if rs = [] then last_lsn rep else Some (wr_lsn (last rs)))"

lemma reports_more_refl [simp]: "reports_more rep [] rep"
  by (simp add: reports_more_def)

lemma reports_more_trans: "reports_more a rs b \<Longrightarrow> reports_more b rs' c \<Longrightarrow> reports_more a (rs @ rs') c"
  by (simp add: reports_more_def)

lemma scan_records_ok:
  assumes "\<forall>r \<in> set rs. fits cfg r" "lsns_from l rs" "ex = None \<or> ex = Some l"
  shows "\<exists>rep'. scan_records (max_record_bytes cfg) sid (pre @ encs rs) (length pre) ex rep =
      (rep', if rs = [] then ex else Some (l + of_nat (length rs)), length (pre @ encs rs), False) \<and> reports_more rep rs rep'"
  using assms
proof (induction rs arbitrary: pre ex rep l)
  case Nil
  show ?case by (simp add: scan_records.simps)
next
  case (Cons r rs)
  have e: "encs (r # rs) = encs [r] @ encs rs" using encs_append[of "[r]" rs] by simp
  have f: "fits cfg r" using Cons.prems(1) by simp
  note dec = fits_decode[OF f]
  let ?rep = "rep\<lparr>last_lsn := Some (wr_lsn r), rep_records := rep_records rep @
      [\<lparr>rr_segment_id = sid, rr_offset = word_of_nat (length pre), rr_record = r\<rparr>]\<rparr>"
  have step: "scan_records (max_record_bytes cfg) sid (pre @ encs (r # rs)) (length pre) ex rep =
      scan_records (max_record_bytes cfg) sid ((pre @ encs [r]) @ encs rs) (length (pre @ encs [r])) (Some (lsn_next l)) ?rep"
    using dec Cons.prems(2,3) unfolding e by (subst scan_records.simps) auto
  have "\<forall>r \<in> set rs. fits cfg r" "lsns_from (lsn_next l) rs" using Cons.prems by simp_all
  from Cons.IH[OF this, of "Some (lsn_next l)" "pre @ encs [r]" ?rep]
  obtain rep' where r: "scan_records (max_record_bytes cfg) sid ((pre @ encs [r]) @ encs rs) (length (pre @ encs [r]))
      (Some (lsn_next l)) ?rep =
      (rep', if rs = [] then Some (lsn_next l) else Some (lsn_next l + of_nat (length rs)), length ((pre @ encs [r]) @ encs rs), False)"
    "reports_more ?rep rs rep'" by blast
  have "reports_more rep [r] ?rep" by (simp add: reports_more_def)
  from reports_more_trans[OF this r(2)] have "reports_more rep (r # rs) rep'" by simp
  then show ?case unfolding step r(1) by (auto simp: e lsn_next_def algebra_simps)
qed

text \<open>A log as the files hold it: the segments in order, each with its records.\<close>

type_synonym segments = "(u64 \<times> wal_record list) list"

abbreviation records_of :: "segments \<Rightarrow> wal_record list" where
  "records_of segs \<equiv> concat (map snd segs)"

definition log_at :: "wal_config \<Rightarrow> (string \<Rightarrow> bytes option) \<Rightarrow> segments \<Rightarrow> bool" where
  "log_at cfg c segs \<longleftrightarrow> sorted_wrt (<) (map fst segs) \<and> (\<forall>(i, rs) \<in> set segs. c (seg_name i) = Some (encs rs)) \<and>
    (\<forall>q. prefix ''wal/'' q \<and> c q \<noteq> None \<longrightarrow> q \<in> seg_name ` fst ` set segs) \<and>
    (\<forall>r \<in> set (records_of segs). fits cfg r) \<and> lsns_from 1 (records_of segs)"

lemma log_at_layout:
  assumes "log_at cfg c segs"
  shows "layout c (\<lambda>i. the (map_of segs i)) (map fst segs)"
proof -
  have d: "distinct (map fst segs)" using assms by (simp add: log_at_def strict_sorted_iff)
  have "c (seg_name i) = Some (encs (the (map_of segs i)))" if i: "i \<in> fst ` set segs" for i
  proof -
    obtain rs where "(i, rs) \<in> set segs" using i by auto
    then show ?thesis using assms d by (auto simp: log_at_def)
  qed
  then show ?thesis using assms by (simp add: layout_def log_at_def)
qed


lemma file_len_content: "file_len p d = (case content d (as_str p) of None \<Rightarrow> Inl NotFound | Some b \<Rightarrow> Inr (length b))"
  by (simp add: file_len_def content_def split: option.split)

text \<open>Reading changes nothing a client sees.\<close>

definition same_disk :: "sim_state \<Rightarrow> sim_state \<Rightarrow> bool" where
  "same_disk d d' \<longleftrightarrow> content d' = content d \<and> synced d' = synced d \<and> entry_durable d' = entry_durable d \<and>
    (disk_ok d \<longrightarrow> disk_ok d')"

lemma same_disk_refl [simp]: "same_disk d d"
  by (simp add: same_disk_def)

lemma same_disk_trans: "same_disk d d' \<Longrightarrow> same_disk d' d'' \<Longrightarrow> same_disk d d''"
  by (simp add: same_disk_def)

lemma read_at_whole:
  assumes "content d (as_str p) = Some b" "b \<noteq> []"
  shows "\<exists>d'. read_at p 0 (length b) d = (Inr b, d') \<and> same_disk d d'"
proof -
  obtain f where "get_file d (as_str p) = Some f" "volatile f = b" using assms(1) by (auto simp: content_def)
  then show ?thesis using assms(2) by (simp add: read_at_def same_disk_def Let_def)
qed

lemma recover_segments_ok:
  assumes "\<forall>(i, rs) \<in> set segs. content d (seg_name i) = Some (encs rs)"
    "\<forall>r \<in> set (records_of segs). fits cfg r" "lsns_from l (records_of segs)" "ex = None \<or> ex = Some l"
  shows "\<exists>rep' d'. recover_segments (max_record_bytes cfg) (map (\<lambda>i. (i, RelativePath (seg_name i))) (map fst segs)) ex rep d =
      (Inr (rep', None), d') \<and> same_disk d d' \<and> reports_more rep (records_of segs) rep'"
  using assms
proof (induction segs arbitrary: ex rep d l)
  case Nil
  show ?case by simp
next
  case (Cons s segs)
  obtain i rs where s: "s = (i, rs)" by fastforce
  have c: "content d (seg_name i) = Some (encs rs)" "\<forall>(i, rs) \<in> set segs. content d (seg_name i) = Some (encs rs)"
    using Cons.prems(1) s by simp_all
  have rs: "\<forall>r \<in> set rs. fits cfg r" "lsns_from l rs" "lsns_from (l + of_nat (length rs)) (records_of segs)"
    "\<forall>r \<in> set (records_of segs). fits cfg r"
    using Cons.prems(2,3) by (simp_all add: s lsns_from_append)
  show ?case
  proof (cases "rs = []")
    case True
    have "lsns_from l (records_of segs)" using rs(3) True by simp
    from Cons.IH[OF c(2) rs(4) this Cons.prems(4), of rep] obtain rep' d' where
      r: "recover_segments (max_record_bytes cfg) (map (\<lambda>i. (i, RelativePath (seg_name i))) (map fst segs)) ex rep d =
        (Inr (rep', None), d')" "same_disk d d'" "reports_more rep (records_of segs) rep'" by blast
    have "recover_segments (max_record_bytes cfg) (map (\<lambda>i. (i, RelativePath (seg_name i))) (map fst (s # segs))) ex rep d =
        (Inr (rep', None), d')"
      using r(1) True by (simp add: s file_len_content c)
    then show ?thesis using r(2,3) True by (auto simp: s)
  next
    case False
    have ne: "encs rs \<noteq> []" using False fits_decode(2) rs(1) encs_append[of "[hd rs]" "tl rs"] by (cases rs) auto
    obtain d1 where d1: "read_at (RelativePath (seg_name i)) 0 (length (encs rs)) d = (Inr (encs rs), d1)" "same_disk d d1"
      using read_at_whole[of d "RelativePath (seg_name i)"] c ne by auto
    obtain rep1 where rep1: "scan_records (max_record_bytes cfg) i (encs rs) 0 ex rep =
        (rep1, Some (l + of_nat (length rs)), length (encs rs), False)" "reports_more rep rs rep1"
      using scan_records_ok[OF rs(1,2) Cons.prems(4), of i "[]" rep] False by auto
    let ?rep = "rep1\<lparr>valid_bytes := valid_bytes rep1 + length (encs rs)\<rparr>"
    have "\<forall>(i, rs) \<in> set segs. content d1 (seg_name i) = Some (encs rs)"
      using c(2) d1(2) by (simp add: same_disk_def)
    from Cons.IH[OF this rs(4,3), of "Some (l + of_nat (length rs))" ?rep] obtain rep' d' where
      r: "recover_segments (max_record_bytes cfg) (map (\<lambda>i. (i, RelativePath (seg_name i))) (map fst segs))
          (Some (l + of_nat (length rs))) ?rep d1 = (Inr (rep', None), d')"
      "same_disk d1 d'" "reports_more ?rep (records_of segs) rep'" by blast
    have "reports_more rep rs ?rep" using rep1(2) by (simp add: reports_more_def)
    from reports_more_trans[OF this r(3)] have "reports_more rep (records_of (s # segs)) rep'" by (simp add: s)
    moreover have "recover_segments (max_record_bytes cfg) (map (\<lambda>i. (i, RelativePath (seg_name i))) (map fst (s # segs))) ex rep d =
        (Inr (rep', None), d')"
      using ne r(1) by (simp add: s file_len_content c d1(1) rep1(1))
    ultimately show ?thesis using same_disk_trans[OF d1(2) r(2)] by blast
  qed
qed

lemma recover_wal_ok:
  assumes ok: "disk_ok d" and lg: "log_at cfg (content d) segs"
  shows "\<exists>rep d'. recover_wal cfg d = (Inr rep, d') \<and> same_disk d d' \<and> reports_more empty_report (records_of segs) rep"
proof -
  obtain es where es: "list_dir (RelativePath ''wal'') d = Inr es"
    "wal_segments es = map (\<lambda>i. (i, RelativePath (seg_name i))) (map fst segs)"
    by (rule list_dir_layout[OF ok log_at_layout[OF lg]])
  have c: "\<forall>(i, rs) \<in> set segs. content d (seg_name i) = Some (encs rs)" "\<forall>r \<in> set (records_of segs). fits cfg r"
    "lsns_from 1 (records_of segs)"
    using lg by (simp_all add: log_at_def)
  obtain rep d' where r: "recover_segments (max_record_bytes cfg) (map (\<lambda>i. (i, RelativePath (seg_name i))) (map fst segs))
      None empty_report d = (Inr (rep, None), d')" "same_disk d d'"
    "reports_more empty_report (records_of segs) rep"
    using recover_segments_ok[OF c disjI1[OF refl], of empty_report] by (elim exE conjE)
  have "recover_wal cfg d = (Inr rep, d')" unfolding recover_wal_def wal_dir_path by (simp add: es r(1) del: map_map)
  then show ?thesis using r(2,3) by blast
qed

end
