(* ===== verification/Wal_Promise.thy ===== *)
theory Wal_Promise
  imports Wal_Recovery
begin

text \<open>
  What the write-ahead log promises. A writer is opened on what recovery found, as the engine opens it
  (\<^verbatim>\<open>src/crates/kaya-engine/src/lib.rs\<close>), serves strict appends until one of them fails, and the machine crashes; this may
  happen any number of times. Recovery then returns a log without gaps that holds every append that was
  acknowledged, directly or through group commit. No write is torn. That a writer is not used after a failed
  append is needed: a theorem at the end shows an acknowledged append that is lost otherwise.
\<close>

section \<open>What an open writer keeps true\<close>

text \<open>What the disk would hold after a crash.\<close>

abbreviation crash_image :: "sim_state \<Rightarrow> string \<Rightarrow> bytes option" where
  "crash_image d \<equiv> content (snd (crash d))"

lemma same_disk_image: "disk_ok d \<Longrightarrow> same_disk d d' \<Longrightarrow> crash_image d' = crash_image d"
  by (simp add: same_disk_def crash_client fun_eq_iff)

text \<open>
  The files of a log with an active segment: the closed segments are durable as a whole, the first \<^verbatim>\<open>k\<close>
  records of the active one are, and there is nothing else in the directory.
\<close>

definition closed_segments :: "sim_state \<Rightarrow> u64 \<Rightarrow> segments \<Rightarrow> bool" where
  "closed_segments d a olds \<longleftrightarrow> disk_ok d \<and> sorted_wrt (<) (map fst olds @ [a]) \<and>
    (\<forall>(i, rs) \<in> set olds. content d (seg_name i) = Some (encs rs) \<and> crash_image d (seg_name i) = Some (encs rs)) \<and>
    (\<forall>q. prefix ''wal/'' q \<longrightarrow> q \<noteq> seg_name a \<longrightarrow> q \<notin> seg_name ` fst ` set olds \<longrightarrow>
      content d q = None \<and> crash_image d q = None)"

definition active_segment :: "sim_state \<Rightarrow> u64 \<Rightarrow> wal_record list \<Rightarrow> nat \<Rightarrow> bool \<Rightarrow> bool" where
  "active_segment d a cur k here \<longleftrightarrow> k \<le> length cur \<and>
    (if here then content d (seg_name a) = Some (encs cur) \<and> crash_image d (seg_name a) = Some (encs (take k cur))
     else content d (seg_name a) = None \<and> crash_image d (seg_name a) = None \<and> cur = [])"

lemma closed_segments_frame:
  assumes "closed_segments d a olds" "disk_ok d'"
    "\<And>q. prefix ''wal/'' q \<Longrightarrow> q \<noteq> seg_name a \<Longrightarrow> content d' q = content d q \<and> crash_image d' q = crash_image d q"
  shows "closed_segments d' a olds"
proof -
  have n: "seg_name (fst s) \<noteq> seg_name a" if "s \<in> set olds" for s
    using assms(1) that by (auto simp: closed_segments_def sorted_wrt_append seg_name_inject)
  have "content d' (seg_name (fst s)) = content d (seg_name (fst s)) \<and>
      crash_image d' (seg_name (fst s)) = crash_image d (seg_name (fst s))" if "s \<in> set olds" for s
    by (rule assms(3)[OF seg_name_prefix n[OF that]])
  then show ?thesis using assms(1,2,3) unfolding closed_segments_def case_prod_beta by simp
qed

lemma fsync_active:
  assumes c: "closed_segments d a olds" "active_segment d a cur k True"
    and f: "fsync_file (RelativePath (seg_name a)) d = (Inr u, d')"
  shows "closed_segments d' a olds" "active_segment d' a cur (length cur) True"
proof -
  have ok: "disk_ok d" using c(1) by (simp add: closed_segments_def)
  have i: "crash_image d (seg_name a) \<noteq> None" "content d (seg_name a) = Some (encs cur)"
    using c(2) by (simp_all add: active_segment_def)
  note F = simdisk.fsync_ok[OF ok f, unfolded relative_path.sel]
  have im: "crash_image d' = (crash_image d)(seg_name a := content d (seg_name a))"
    using simdisk.fsync_ok_after[OF ok f] i(1) by (simp add: simdisk.after_crash_def fun_eq_iff)
  show "closed_segments d' a olds" by (rule closed_segments_frame[OF c(1)]) (use F im in auto)
  show "active_segment d' a cur (length cur) True" using F im i(2) by (simp add: active_segment_def)
qed

lemma unchanged_client:
  assumes "disk_ok d" "disk_ok d' \<and> content d' = content d \<and> synced d' = synced d \<and> entry_durable d' = entry_durable d"
  shows "same_disk d d'"
  using assms by (simp add: same_disk_def)

lemma fsync_failed: "disk_ok d \<Longrightarrow> fsync_file p d = (Inl e, d') \<Longrightarrow> same_disk d d'"
  using simdisk.fsync_err unchanged_client by blast

lemma append_failed: "disk_ok d \<Longrightarrow> append_file p b d = (Inl e, d') \<Longrightarrow> same_disk d d'"
  using simdisk.app_err unchanged_client by blast

lemma same_disk_segments:
  assumes "same_disk d d'" "closed_segments d a olds"
  shows "closed_segments d' a olds" "active_segment d a cur k here \<Longrightarrow> active_segment d' a cur k here"
proof -
  have ok: "disk_ok d" using assms(2) by (simp add: closed_segments_def)
  have e: "content d' = content d" "crash_image d' = crash_image d" "disk_ok d'"
    using assms(1) ok same_disk_image[OF ok assms(1)] by (simp_all add: same_disk_def)
  show "closed_segments d' a olds" using assms(2) e unfolding closed_segments_def e by simp
  show "active_segment d a cur k here \<Longrightarrow> active_segment d' a cur k here" unfolding active_segment_def e .
qed


lemma append_active:
  assumes c: "closed_segments d a olds" "active_segment d a cur k True"
    and f: "append_file (RelativePath (seg_name a)) (encs [r]) d = (Inr off, d')"
  shows "off = length (encs cur)" "closed_segments d' a olds" "active_segment d' a (cur @ [r]) k True"
proof -
  have ok: "disk_ok d" using c(1) by (simp add: closed_segments_def)
  have i: "crash_image d (seg_name a) \<noteq> None" "content d (seg_name a) = Some (encs cur)" "k \<le> length cur"
    "crash_image d (seg_name a) = Some (encs (take k cur))"
    using c(2) by (simp_all add: active_segment_def)
  note F = simdisk.app_ok[OF ok f, unfolded relative_path.sel]
  have im: "crash_image d' q = crash_image d q" for q
    using simdisk.app_ok_after(1)[OF ok f, of q] i(1,2) by (cases "q = seg_name a") (simp_all add: simdisk.after_crash_def)
  show "off = length (encs cur)" using F i(2) by (simp add: bytes_of_def)
  show "closed_segments d' a olds" by (rule closed_segments_frame[OF c(1)]) (use F im in auto)
  show "active_segment d' a (cur @ [r]) k True" using F im i by (simp add: active_segment_def bytes_of_def)
qed

lemma create_active:
  assumes c: "closed_segments d a olds" "active_segment d a [] k False"
    and f: "append_file (RelativePath (seg_name a)) (encs [r]) d = (Inr off, d1)"
  shows "off = 0"
    and "fsync_dir (RelativePath ''wal'') d1 = (Inr u, d2) \<Longrightarrow> closed_segments d2 a olds \<and> active_segment d2 a [r] 0 True"
    and "fsync_dir (RelativePath ''wal'') d1 = (Inl e, d2) \<Longrightarrow> disk_ok d2 \<and> crash_image d2 (seg_name a) \<in> {None, Some []} \<and>
      (\<forall>q. q \<noteq> seg_name a \<longrightarrow> crash_image d2 q = crash_image d q)"
proof -
  have ok: "disk_ok d" using c(1) by (simp add: closed_segments_def)
  have i: "content d (seg_name a) = None" using c(2) by (simp add: active_segment_def)
  note F = simdisk.app_ok[OF ok f, unfolded relative_path.sel]
  show "off = 0" using F i by (simp add: bytes_of_def)
  have cond: "content d q \<noteq> None \<and> crash_image d q \<noteq> None \<or> content d q = None \<and> crash_image d q = None"
    if "prefix ''wal/'' q" "q \<noteq> seg_name a" for q
    using c(1) that unfolding closed_segments_def by (cases "q \<in> seg_name ` fst ` set olds") auto
  show "closed_segments d2 a olds \<and> active_segment d2 a [r] 0 True" if g: "fsync_dir (RelativePath ''wal'') d1 = (Inr u, d2)"
  proof -
    note G = simdisk.dsync_ok[OF conjunct1[OF F] g]
    have p: "parent_dir (as_str (RelativePath (seg_name a))) = as_str (RelativePath ''wal'')" by (simp add: seg_name_parent)
    note im = simdisk.create_after[OF ok f g p, unfolded simdisk.after_crash_def relative_path.sel, OF i]
    have "closed_segments d2 a olds"
      by (rule closed_segments_frame[OF c(1)]) (use F G im(2) cond in auto)
    then show ?thesis using F G im(1) i by (simp add: active_segment_def bytes_of_def)
  qed
  show "disk_ok d2 \<and> crash_image d2 (seg_name a) \<in> {None, Some []} \<and> (\<forall>q. q \<noteq> seg_name a \<longrightarrow> crash_image d2 q = crash_image d q)"
    if g: "fsync_dir (RelativePath ''wal'') d1 = (Inl e, d2)"
  proof -
    have "same_disk d1 d2" using simdisk.dsync_err[OF conjunct1[OF F] g] by (simp add: same_disk_def)
    then have "crash_image d2 = crash_image d1" "disk_ok d2" using F same_disk_image by (auto simp: same_disk_def)
    then show ?thesis using simdisk.app_ok_after[OF ok f, unfolded simdisk.after_crash_def relative_path.sel] i by auto
  qed
qed


text \<open>
  What holds of a writer whatever becomes of it: a crash leaves the records \<^verbatim>\<open>dur\<close>, in segments numbered up to
  \<^verbatim>\<open>m\<close>, and every waiter that was told of success waited for one of them.
\<close>

definition settled_ok :: "wal_batch_writer \<Rightarrow> wal_record list \<Rightarrow> bool" where
  "settled_ok b dur \<longleftrightarrow> (\<forall>l us. (l, Some us) \<in> set (settled b) \<longrightarrow> l \<in> wr_lsn ` set dur)"

definition promise :: "wal_config \<Rightarrow> nat \<Rightarrow> wal_writer \<Rightarrow> sim_state \<Rightarrow> wal_record list \<Rightarrow> bool" where
  "promise cfg m w d dur \<longleftrightarrow> disk_ok d \<and> settled_ok (batch w) dur \<and>
    (\<exists>segs. log_at cfg (crash_image d) segs \<and> records_of segs = dur \<and> (\<forall>i \<in> fst ` set segs. unat i \<le> m))"

definition writer_at :: "wal_config \<Rightarrow> wal_writer \<Rightarrow> segments \<Rightarrow> wal_record list \<Rightarrow> nat \<Rightarrow> bool \<Rightarrow> bool" where
  "writer_at cfg w olds cur k here \<longleftrightarrow> ww_config w = cfg \<and>
    active_path w = RelativePath (seg_name (active_segment_id w)) \<and> active_len w = length (encs cur) \<and>
    active_dir_synced w = here \<and> next_lsn w = 1 + of_nat (length (records_of olds @ cur)) \<and>
    (\<forall>r \<in> set (records_of olds @ cur). fits cfg r) \<and> lsns_from 1 (records_of olds @ cur) \<and>
    settled_ok (batch w) (records_of olds @ take k cur) \<and> set (waiters (batch w)) \<subseteq> wr_lsn ` set (records_of olds @ cur)"

definition wal_inv :: "wal_config \<Rightarrow> wal_writer \<Rightarrow> sim_state \<Rightarrow> segments \<Rightarrow> wal_record list \<Rightarrow> nat \<Rightarrow> bool \<Rightarrow> bool" where
  "wal_inv cfg w d olds cur k here \<longleftrightarrow> closed_segments d (active_segment_id w) olds \<and>
    active_segment d (active_segment_id w) cur k here \<and> writer_at cfg w olds cur k here"

text \<open>Between appends, records that are not durable yet are pending in the batch.\<close>

definition pending_known :: "wal_batch_writer \<Rightarrow> wal_record list \<Rightarrow> nat \<Rightarrow> bool" where
  "pending_known b cur k \<longleftrightarrow> k = length cur \<or> batch_enabled b \<and> has_pending b"

lemma settled_ok_mono: "settled_ok b dur \<Longrightarrow> set dur \<subseteq> set dur' \<Longrightarrow> settled_ok b dur'"
  by (auto simp: settled_ok_def)

lemma settled_ok_fail: "settled_ok (fail_flush b) dur \<longleftrightarrow> settled_ok b dur"
  by (auto simp: settled_ok_def fail_flush_def batch_reset_def)

lemma settled_ok_complete:
  assumes "settled_ok b dur" "set dur \<subseteq> set all" "set (waiters b) \<subseteq> wr_lsn ` set all"
  shows "settled_ok (complete_flush us b) all"
  using assms(1)[THEN settled_ok_mono, OF assms(2)] assms(3)
  unfolding settled_ok_def complete_flush_def batch_reset_def by auto

lemma complete_flush_simps [simp]:
  "waiters (complete_flush us b) = []" "has_pending (complete_flush us b) \<longleftrightarrow> False"
  "batch_enabled (complete_flush us b) \<longleftrightarrow> batch_enabled b"
  by (simp_all add: complete_flush_def batch_reset_def has_pending_def batch_enabled_def)

lemma closed_log:
  assumes c: "closed_segments d a olds"
    and im: "\<And>q. prefix ''wal/'' q \<Longrightarrow> q \<noteq> seg_name a \<Longrightarrow> c q = crash_image d q"
    and act: "if here then c (seg_name a) = Some (encs cur) else c (seg_name a) = None \<and> cur = []"
    and rs: "\<forall>r \<in> set (records_of olds @ cur). fits cfg r" "lsns_from 1 (records_of olds @ cur)"
  shows "log_at cfg c (olds @ (if here then [(a, cur)] else []))"
proof -
  have n: "seg_name (fst s) \<noteq> seg_name a" if "s \<in> set olds" for s
    using c that by (auto simp: closed_segments_def sorted_wrt_append seg_name_inject)
  have "c (seg_name (fst s)) = Some (encs (snd s))" if "s \<in> set olds" for s
    using im[OF seg_name_prefix n[OF that]] c that unfolding closed_segments_def case_prod_beta by simp
  moreover have "q \<in> seg_name ` fst ` set (olds @ (if here then [(a, cur)] else []))" if q: "prefix ''wal/'' q" "c q \<noteq> None" for q
  proof (cases "q = seg_name a")
    case True
    then show ?thesis using act q(2) by (cases here) auto
  next
    case False
    then have "q \<in> seg_name ` fst ` set olds" using im[OF q(1)] q c unfolding closed_segments_def by auto
    then show ?thesis by auto
  qed
  moreover have "sorted_wrt (<) (map fst (olds @ (if here then [(a, cur)] else [])))"
    using c by (simp add: closed_segments_def sorted_wrt_append)
  moreover have "records_of (olds @ (if here then [(a, cur)] else [])) = records_of olds @ cur" using act by (cases here) simp_all
  ultimately show ?thesis using act rs unfolding log_at_def case_prod_beta by (cases here) simp_all
qed

lemma take_records:
  assumes "\<forall>r \<in> set (rs @ cur). fits cfg r" "lsns_from 1 (rs @ cur)"
  shows "\<forall>r \<in> set (rs @ take k cur). fits cfg r" "lsns_from 1 (rs @ take k cur)"
proof -
  show "\<forall>r \<in> set (rs @ take k cur). fits cfg r" using assms(1) by (auto dest: in_set_takeD)
  have "rs @ cur = (rs @ take k cur) @ drop k cur" by simp
  then show "lsns_from 1 (rs @ take k cur)" using assms(2) lsns_from_append[of 1 "rs @ take k cur" "drop k cur"] by simp
qed

lemma segment_bound:
  assumes "closed_segments d a olds" "unat a \<le> m" "i \<in> fst ` set (olds @ (if here then [(a, cur)] else []))"
  shows "unat i \<le> m"
proof -
  have "i \<le> a" using assms(1,3) by (auto simp: closed_segments_def sorted_wrt_append split: if_splits)
  then have "unat i \<le> unat a" by (simp add: word_le_nat_alt)
  then show ?thesis using assms(2) by simp
qed

lemma promise_of_image:
  assumes c: "closed_segments d a olds" and m: "unat a \<le> m" and ok: "disk_ok d'"
    and im: "\<And>q. prefix ''wal/'' q \<Longrightarrow> q \<noteq> seg_name a \<Longrightarrow> crash_image d' q = crash_image d q"
    and act: "if here then crash_image d' (seg_name a) = Some (encs dcur) else crash_image d' (seg_name a) = None \<and> dcur = []"
    and rs: "\<forall>r \<in> set (records_of olds @ dcur). fits cfg r" "lsns_from 1 (records_of olds @ dcur)"
    and st: "settled_ok (batch w) (records_of olds @ dcur)"
  shows "promise cfg m w d' (records_of olds @ dcur)"
proof -
  let ?segs = "olds @ (if here then [(a, dcur)] else [])"
  have "log_at cfg (crash_image d') ?segs" by (rule closed_log[OF c im act rs])
  moreover have "records_of ?segs = records_of olds @ dcur" using act by (cases here) simp_all
  moreover have "\<forall>i \<in> fst ` set ?segs. unat i \<le> m" using segment_bound[OF c m] by blast
  ultimately show ?thesis using ok st unfolding promise_def by blast
qed

lemma inv_promise:
  assumes inv: "wal_inv cfg w d olds cur k here" and m: "unat (active_segment_id w) \<le> m"
    and sd: "same_disk d d'" and st: "settled_ok (batch w') (records_of olds @ take k cur)"
  shows "promise cfg m w' d' (records_of olds @ take k cur)"
proof -
  have c: "closed_segments d (active_segment_id w) olds" and ok: "disk_ok d" using inv by (simp_all add: wal_inv_def closed_segments_def)
  have im: "crash_image d' = crash_image d" "disk_ok d'" using sd ok same_disk_image[OF ok sd] by (simp_all add: same_disk_def)
  show ?thesis
    by (rule promise_of_image[OF c m im(2), of here])
      (use inv im st take_records[of "records_of olds" cur cfg k] in \<open>auto simp: wal_inv_def active_segment_def writer_at_def\<close>)
qed


section \<open>The stages of an append\<close>

text \<open>A stage that fails leaves a disk on which a crash finds at least what was durable before, and nothing unknown.\<close>

definition failed_ok :: "wal_config \<Rightarrow> nat \<Rightarrow> wal_record list \<Rightarrow> wal_record list \<Rightarrow> wal_writer \<Rightarrow> sim_state \<Rightarrow> bool" where
  "failed_ok cfg m dur all w d \<longleftrightarrow> (\<exists>dur'. promise cfg m w d dur' \<and> prefix dur dur' \<and> prefix dur' all)"

lemma failed_okI:
  assumes "wal_inv cfg w d olds cur k here" "unat (active_segment_id w) \<le> m" "same_disk d d'"
    "settled_ok (batch w') (records_of olds @ take k cur)" "prefix dur (records_of olds @ take k cur)" "records_of olds @ cur = all"
  shows "failed_ok cfg m dur all w' d'"
proof -
  have "prefix (records_of olds @ take k cur) all" using assms(6) by (auto simp: take_is_prefix)
  then show ?thesis using inv_promise[OF assms(1-4)] assms(5) unfolding failed_ok_def by blast
qed

lemma flush_ok:
  assumes inv: "wal_inv cfg w d olds cur k here" and f: "flush_strict_batch dur w d = (Inr us, w', d')"
  shows "w' = w\<lparr>batch := complete_flush dur (batch w)\<rparr>" "wal_inv cfg w' d' olds cur (length cur) True"
proof -
  let ?a = "active_segment_id w"
  have p: "active_path w = RelativePath (seg_name ?a)" using inv by (simp add: wal_inv_def writer_at_def)
  have fs: "fsync_file (RelativePath (seg_name ?a)) d = (Inr (), d')" and w': "w' = w\<lparr>batch := complete_flush dur (batch w)\<rparr>"
    using f by (auto simp: flush_strict_batch_def p split: prod.splits sum.splits)
  have c: "closed_segments d ?a olds" "active_segment d ?a cur k here" and ok: "disk_ok d"
    using inv by (simp_all add: wal_inv_def closed_segments_def)
  have h: here using simdisk.fsync_ok[OF ok fs] c(2) by (auto simp: active_segment_def split: if_splits)
  note fa = fsync_active[OF c(1) c(2)[unfolded eqTrueI[OF h]] fs]
  have "settled_ok (complete_flush dur (batch w)) (records_of olds @ cur)"
    by (rule settled_ok_complete[of _ "records_of olds @ take k cur"])
      (use inv in \<open>auto simp: wal_inv_def writer_at_def dest: in_set_takeD\<close>)
  then have "writer_at cfg w' olds cur (length cur) True"
    using inv h unfolding wal_inv_def writer_at_def w' by simp
  then show "wal_inv cfg w' d' olds cur (length cur) True" using fa by (simp add: wal_inv_def w')
  show "w' = w\<lparr>batch := complete_flush dur (batch w)\<rparr>" by (rule w')
qed

lemma flush_err:
  assumes inv: "wal_inv cfg w d olds cur k here" and m: "unat (active_segment_id w) \<le> m"
    and f: "flush_strict_batch dur w d = (Inl e, w', d')"
  shows "promise cfg m w' d' (records_of olds @ take k cur)"
proof -
  have fs: "fsync_file (active_path w) d = (Inl e, d')" and w': "w' = w\<lparr>batch := fail_flush (batch w)\<rparr>"
    using f by (auto simp: flush_strict_batch_def split: prod.splits sum.splits)
  have "disk_ok d" using inv by (simp add: wal_inv_def closed_segments_def)
  from fsync_failed[OF this fs] have sd: "same_disk d d'" .
  have "settled_ok (batch w') (records_of olds @ take k cur)" using inv by (simp add: w' settled_ok_fail wal_inv_def writer_at_def)
  from inv_promise[OF inv m sd this] show ?thesis .
qed

lemma flush_failed:
  assumes "wal_inv cfg w d olds cur k here" "unat (active_segment_id w) \<le> m" "flush_strict_batch dur w d = (Inl e, w', d')"
  shows "failed_ok cfg m (records_of olds @ take k cur) (records_of olds @ cur) w' d'"
  using flush_err[OF assms] unfolding failed_ok_def by (intro exI[of _ "records_of olds @ take k cur"]) (simp add: take_is_prefix)

lemma wal_inv_k: "wal_inv cfg w d olds cur k here \<Longrightarrow> k \<le> length cur"
  by (simp add: wal_inv_def active_segment_def)

lemma dur_prefix: "k \<le> k' \<Longrightarrow> prefix (rs @ take k cur) (rs @ take k' cur)"
  by (metis min.absorb1 same_prefix_prefix take_is_prefix take_take)

lemma expire_ok:
  assumes inv: "wal_inv cfg w d olds cur k here" and m: "unat (active_segment_id w) \<le> m" and pk: "pending_known (batch w) cur k"
    and f: "append_expire now dur w d = (r, w', d')"
  shows "case r of
      Inl e \<Rightarrow> failed_ok cfg m (records_of olds @ take k cur) (records_of olds @ cur) w' d'
    | Inr _ \<Rightarrow> \<exists>k' here'. k \<le> k' \<and> wal_inv cfg w' d' olds cur k' here' \<and>
        pending_known (batch w') cur k' \<and> active_segment_id w' = active_segment_id w"
proof (cases "batch_enabled (batch w) \<and> has_pending (batch w) \<and> interval_expired now (batch w)")
  case False
  have "r = Inr ()" "w' = w" "d' = d" using f unfolding append_expire_def if_not_P[OF False] by simp_all
  then show ?thesis using inv pk by auto
next
  case True
  obtain q w1 d1 where q: "flush_strict_batch dur w d = (q, w1, d1)" by (metis prod_cases3)
  show ?thesis
  proof (cases q)
    case (Inl e)
    then show ?thesis using f True q flush_failed[OF inv m] by (auto simp: append_expire_def)
  next
    case (Inr us)
    then have "r = Inr ()" "w' = w1" "d' = d1" using f True q by (simp_all add: append_expire_def)
    moreover have "wal_inv cfg w1 d1 olds cur (length cur) True" "active_segment_id w1 = active_segment_id w"
      using flush_ok[OF inv q[unfolded Inr]] by simp_all
    moreover have "pending_known (batch w1) cur (length cur)" by (simp add: pending_known_def)
    ultimately show ?thesis using wal_inv_k[OF inv] unfolding sum.case
      by (auto intro!: exI[of _ "length cur"] exI[of _ True])
  qed
qed


lemma rotate_inv:
  assumes inv: "wal_inv cfg w d olds cur (length cur) True" and a: "unat (active_segment_id w) + 1 < 2 ^ 64"
    and r: "rotate_segment w = (r, w')"
  shows "r = Inr ()" "wal_inv cfg w' d (olds @ [(active_segment_id w, cur)]) [] 0 False"
    "active_segment_id w' = active_segment_id w + 1"
proof -
  let ?a = "active_segment_id w" and ?olds = "olds @ [(active_segment_id w, cur)]"
  have w': "w' = w\<lparr>active_segment_id := ?a + 1, active_path := RelativePath (seg_name (?a + 1)), active_len := 0,
      active_dir_synced := False\<rparr>" and "r = Inr ()"
    using r by (simp_all add: rotate_segment_def segment_path_eq Let_def)
  have less: "?a < ?a + 1" using a by (simp add: word_less_nat_alt unat_word_ariths)
  have c: "closed_segments d ?a olds" and act: "active_segment d ?a cur (length cur) True" using inv by (simp_all add: wal_inv_def)
  have old: "fst s < ?a" if "s \<in> set olds" for s using c that by (simp add: closed_segments_def sorted_wrt_append)
  have new: "seg_name (?a + 1) \<noteq> seg_name ?a" "seg_name (?a + 1) \<notin> seg_name ` fst ` set olds"
    using old less by (force simp: seg_name_inject)+
  have "closed_segments d (?a + 1) ?olds"
    using c act less_trans[OF old less] less unfolding closed_segments_def active_segment_def by (auto simp: sorted_wrt_append)
  moreover have "active_segment d (?a + 1) [] 0 False"
    using c new seg_name_prefix unfolding closed_segments_def active_segment_def by simp
  moreover have "writer_at cfg w' ?olds [] 0 False"
    using inv unfolding w' wal_inv_def writer_at_def by simp
  ultimately show "wal_inv cfg w' d ?olds [] 0 False" by (simp add: wal_inv_def w')
  show "r = Inr ()" by fact
  show "active_segment_id w' = ?a + 1" by (simp add: w')
qed

lemma flush_pending_ok:
  assumes inv: "wal_inv cfg w d olds cur k here" and m: "unat (active_segment_id w) \<le> m" and len: "active_len w > 0"
    and pk: "pending_known (batch w) cur k"
    and f: "flush_pending_batch dur w d = (r, w', d')"
  shows "case r of
      Inl e \<Rightarrow> failed_ok cfg m (records_of olds @ take k cur) (records_of olds @ cur) w' d'
    | Inr _ \<Rightarrow> wal_inv cfg w' d' olds cur (length cur) True \<and> active_segment_id w' = active_segment_id w"
proof (cases "has_pending (batch w)")
  case False
  then have "r = Inr ()" "w' = w" "d' = d" using f by (simp_all add: flush_pending_batch_def)
  moreover have "k = length cur" "here" using inv pk False len
    by (auto simp: pending_known_def wal_inv_def writer_at_def active_segment_def split: if_splits)
  ultimately show ?thesis using inv by simp
next
  case True
  obtain q w1 d1 where q: "flush_strict_batch dur w d = (q, w1, d1)" by (metis prod_cases3)
  show ?thesis
  proof (cases q)
    case (Inl e)
    then show ?thesis using f True q flush_failed[OF inv m] by (auto simp: flush_pending_batch_def)
  next
    case (Inr us)
    then have "r = Inr ()" "w' = w1" "d' = d1" using f True q by (simp_all add: flush_pending_batch_def)
    then show ?thesis using flush_ok[OF inv q[unfolded Inr]] by simp
  qed
qed

text \<open>Where the writer stands, up to how the records are spread over the segments.\<close>

definition stands :: "wal_config \<Rightarrow> nat \<Rightarrow> wal_record list \<Rightarrow> wal_record list \<Rightarrow> wal_writer \<Rightarrow> sim_state \<Rightarrow> bool" where
  "stands cfg m dur all w d \<longleftrightarrow> (\<exists>olds cur k here. wal_inv cfg w d olds cur k here \<and> unat (active_segment_id w) \<le> m \<and>
    pending_known (batch w) cur k \<and> records_of olds @ cur = all \<and> records_of olds @ take k cur = dur)"

lemma append_rotate_ok:
  assumes inv: "wal_inv cfg w d olds cur k here" and m: "unat (active_segment_id w) \<le> m" "m + 1 < 2 ^ 64"
    and pk: "pending_known (batch w) cur k" and f: "append_rotate dur n w d = (r, w', d')"
  shows "case r of
      Inl e \<Rightarrow> failed_ok cfg (m + 1) (records_of olds @ take k cur) (records_of olds @ cur) w' d'
    | Inr _ \<Rightarrow> \<exists>dur'. prefix (records_of olds @ take k cur) dur' \<and> stands cfg (m + 1) dur' (records_of olds @ cur) w' d'"
proof (cases "active_len w > 0 \<and> active_len w + n > unat (segment_max_bytes (ww_config w))")
  case False
  have "r = Inr ()" "w' = w" "d' = d" using f unfolding append_rotate_def if_not_P[OF False] by simp_all
  moreover have "stands cfg (m + 1) (records_of olds @ take k cur) (records_of olds @ cur) w d"
    using inv m pk unfolding stands_def by (intro exI[of _ olds] exI[of _ cur] exI[of _ k] exI[of _ here]) simp
  ultimately show ?thesis by auto
next
  case True
  obtain q w1 d1 where q: "flush_pending_batch dur w d = (q, w1, d1)" by (metis prod_cases3)
  have m1: "unat (active_segment_id w) \<le> m + 1" using m by simp
  note fp = flush_pending_ok[OF inv m1 conjunct1[OF True] pk q]
  note f' = f[unfolded append_rotate_def if_P[OF True] q]
  show ?thesis
  proof (cases q)
    case (Inl e)
    then show ?thesis using f' fp by auto
  next
    case (Inr u)
    then have inv1: "wal_inv cfg w1 d1 olds cur (length cur) True" "active_segment_id w1 = active_segment_id w" using fp by simp_all
    obtain r2 w2 where rs: "rotate_segment w1 = (r2, w2)" by fastforce
    have a: "unat (active_segment_id w1) + 1 < 2 ^ 64" using inv1(2) m by simp
    note ri = rotate_inv[OF inv1(1) a rs]
    have e: "r = Inr ()" "w' = w2" "d' = d1" using f' Inr rs ri(1) by simp_all
    have "unat (active_segment_id w2) \<le> m + 1" using ri(3) inv1(2) m(1) a by (simp add: unat_word_ariths)
    then have "stands cfg (m + 1) (records_of olds @ cur) (records_of olds @ cur) w2 d1"
      unfolding stands_def using ri(2)
      by (intro exI[of _ "olds @ [(active_segment_id w1, cur)]"] exI[of _ "[]"] exI[of _ 0] exI[of _ False]) (simp add: pending_known_def)
    then show ?thesis using dur_prefix[OF wal_inv_k[OF inv], of "records_of olds" cur] unfolding e sum.case
      by (intro exI[of _ "records_of olds @ cur"] conjI) simp_all
  qed
qed


lemma append_write_ok:
  assumes inv: "wal_inv cfg w d olds cur k here" and m: "unat (active_segment_id w) \<le> m"
    and f: "append_write (encs [rc]) w d = (r, w', d')"
  shows "case r of
      Inl e \<Rightarrow> failed_ok cfg m (records_of olds @ take k cur) (records_of olds @ cur) w' d'
    | Inr offset \<Rightarrow> offset = length (encs cur) \<and> w' = w\<lparr>active_dir_synced := True\<rparr> \<and>
        closed_segments d' (active_segment_id w) olds \<and> active_segment d' (active_segment_id w) (cur @ [rc]) k True"
proof -
  let ?a = "active_segment_id w"
  have c: "closed_segments d ?a olds" "active_segment d ?a cur k here" and ok: "disk_ok d"
    and w: "active_path w = RelativePath (seg_name ?a)" "active_dir_synced w = here"
    and st: "settled_ok (batch w) (records_of olds @ take k cur)"
    and rs: "\<forall>r \<in> set (records_of olds @ cur). fits cfg r" "lsns_from 1 (records_of olds @ cur)"
    using inv by (simp_all add: wal_inv_def closed_segments_def writer_at_def)
  obtain q d1 where q: "append_file (RelativePath (seg_name ?a)) (encs [rc]) d = (q, d1)" by fastforce
  note f' = f[unfolded append_write_def w q]
  show ?thesis
  proof (cases q)
    case (Inl e)
    then have "same_disk d d1" using append_failed[OF ok] q by blast
    then show ?thesis using f' Inl failed_okI[OF inv m, of d1 w] st by auto
  next
    case (Inr off)
    show ?thesis
    proof (cases here)
      case True
      then show ?thesis using f' Inr append_active[OF c(1) c(2)[unfolded eqTrueI[OF True]] q[unfolded Inr]] w(2) by auto
    next
      case False
      then have cur: "cur = []" "k = 0" using c(2) by (auto simp: active_segment_def)
      have act: "active_segment d ?a [] 0 False" using c(2) False cur by simp
      note cr = create_active[OF c(1) act q[unfolded Inr]]
      obtain q2 d2 where q2: "fsync_dir (RelativePath ''wal'') d1 = (q2, d2)" by fastforce
      show ?thesis
      proof (cases q2)
        case Inr2: (Inr u)
        then show ?thesis using f' Inr False q2 cr(1) cr(2)[OF q2[unfolded Inr2]] cur by (auto simp: wal_dir_path)
      next
        case Inl2: (Inl e)
        note im = cr(3)[OF q2[unfolded Inl2]]
        have p: "promise cfg m w d2 (records_of olds @ [])"
          by (rule promise_of_image[OF c(1) m, of _ "crash_image d2 (seg_name ?a) \<noteq> None"]) (use im st rs cur in auto)
        have "r = Inl e" "w' = w" "d' = d2" using f' Inr False q2 Inl2 by (simp_all add: wal_dir_path)
        then show ?thesis using p cur unfolding failed_ok_def by auto
      qed
    qed
  qed
qed


definition new_record_of :: "wal_payload \<Rightarrow> wal_writer \<Rightarrow> wal_record" where
  "new_record_of p w = new_record (next_lsn w) (next_sequence w) p"

lemma append_encode_ok:
  assumes "append_encode p w = Inr encoded" "ww_config w = cfg"
  shows "encoded = encs [new_record_of p w]" "fits cfg (new_record_of p w)"
proof -
  have e: "encode_record (new_record_of p w) = Inr encoded"
    and l: "length encoded < 2 ^ 32" "(word_of_nat (length encoded) :: u32) \<le> max_record_bytes cfg"
    using assms by (auto simp: append_encode_def new_record_of_def u32_try_from_def not_less split: sum.splits if_splits option.splits)
  show "encoded = encs [new_record_of p w]" using encs_single[OF e] by simp
  have "length encoded \<le> unat (max_record_bytes cfg)" using l by (simp add: word_le_nat_alt unat_of_nat)
  then have "length encoded - WAL_HEADER_LEN \<le> unat (max_record_bytes cfg)" by simp
  moreover have "wr_flags (new_record_of p w) = 0" by (simp add: new_record_of_def new_record_def)
  ultimately show "fits cfg (new_record_of p w)" using e by (auto simp: fits_def)
qed

text \<open>The writer after a record was written and before the batch is told of it.\<close>

lemma advanced_inv:
  assumes inv: "wal_inv cfg w0 d0 olds cur k here" and w: "w = w0\<lparr>active_dir_synced := True\<rparr>"
    and d: "closed_segments d (active_segment_id w) olds" "active_segment d (active_segment_id w) (cur @ [rc]) k True"
    and rc: "wr_lsn rc = next_lsn w" "fits cfg rc"
    and b: "settled b = settled (batch w)" "set (waiters b) \<subseteq> insert (wr_lsn rc) (set (waiters (batch w)))"
  shows "wal_inv cfg (append_advance (length (encs cur)) (length (encs [rc])) (w\<lparr>batch := b\<rparr>)) d olds (cur @ [rc]) k True"
proof -
  have "lsns_from 1 (records_of olds @ cur @ [rc])"
    using inv rc(1) lsns_from_append[of 1 "records_of olds @ cur" "[rc]"] by (simp add: w wal_inv_def writer_at_def)
  moreover have "settled_ok b (records_of olds @ take k (cur @ [rc]))"
    using inv wal_inv_k[OF inv] b(1) by (simp add: w wal_inv_def writer_at_def settled_ok_def)
  moreover have "set (waiters b) \<subseteq> wr_lsn ` set (records_of olds @ cur @ [rc])"
    using inv b(2) by (auto simp: w wal_inv_def writer_at_def)
  moreover have "\<forall>r \<in> set (records_of olds @ cur @ [rc]). fits cfg r" using inv rc(2) by (auto simp: wal_inv_def writer_at_def)
  moreover have "next_lsn w = 1 + of_nat (length (records_of olds @ cur))" "ww_config w = cfg"
    "active_path w = RelativePath (seg_name (active_segment_id w))"
    using inv by (simp_all add: w wal_inv_def writer_at_def)
  ultimately have "writer_at cfg (append_advance (length (encs cur)) (length (encs [rc])) (w\<lparr>batch := b\<rparr>)) olds (cur @ [rc]) k True"
    unfolding writer_at_def append_advance_def by (simp add: w lsn_next_def algebra_simps)
  then show ?thesis using d by (simp add: wal_inv_def append_advance_def)
qed


text \<open>
  What an append does to the log: it fails, or it adds one record with the LSN it reports, durable if it is
  acknowledged.
\<close>

definition appended :: "wal_config \<Rightarrow> nat \<Rightarrow> wal_record list \<Rightarrow> wal_record list \<Rightarrow> wal_payload \<Rightarrow> append_outcome \<Rightarrow>
    wal_writer \<Rightarrow> sim_state \<Rightarrow> bool" where
  "appended cfg m dur all p out w d \<longleftrightarrow>
    (case out of
       AppendFailed e \<Rightarrow> failed_ok cfg m dur all w d
     | Acked r \<Rightarrow> \<exists>rc. wr_lsn rc = ar_lsn r \<and> wr_payload rc = p \<and> stands cfg m (all @ [rc]) (all @ [rc]) w d
     | Waiting l r \<Rightarrow> l = ar_lsn r \<and>
         (\<exists>rc dur'. wr_lsn rc = l \<and> wr_payload rc = p \<and> prefix dur dur' \<and> stands cfg m dur' (all @ [rc]) w d))"

lemma stands_flushed:
  assumes "wal_inv cfg w d olds cur (length cur) here" "unat (active_segment_id w) \<le> m"
  shows "stands cfg m (records_of olds @ cur) (records_of olds @ cur) w d"
  using assms unfolding stands_def pending_known_def
  by (intro exI[of _ olds] exI[of _ cur] exI[of _ "length cur"] exI[of _ here]) simp

lemma failed_ok_batch: "batch w = batch w' \<Longrightarrow> failed_ok cfg m dur all w d \<longleftrightarrow> failed_ok cfg m dur all w' d"
  by (simp add: failed_ok_def promise_def)

lemma after_record_appended_facts:
  assumes "after_record_appended now chan n b = (action, b')" "batch_enabled b"
  shows "settled b' = settled b" "set (waiters b') \<subseteq> insert chan (set (waiters b))" "batch_enabled b' \<and> has_pending b'"
    "action = FlushNow \<or> action = WaitForFlush chan"
  using assms
  by (auto simp: after_record_appended_def batch_enabled_def has_pending_def Let_def split: if_splits)

text \<open>A record is in the active segment, and the writer has not moved on yet.\<close>

definition written :: "wal_config \<Rightarrow> nat \<Rightarrow> wal_writer \<Rightarrow> sim_state \<Rightarrow> segments \<Rightarrow> wal_record list \<Rightarrow> nat \<Rightarrow> wal_record \<Rightarrow> bool" where
  "written cfg m w d olds cur k rc \<longleftrightarrow>
    (\<exists>w0 d0 here. wal_inv cfg w0 d0 olds cur k here \<and> w = w0\<lparr>active_dir_synced := True\<rparr>) \<and> unat (active_segment_id w) \<le> m \<and>
    closed_segments d (active_segment_id w) olds \<and> active_segment d (active_segment_id w) (cur @ [rc]) k True \<and>
    wr_lsn rc = next_lsn w \<and> fits cfg rc"

abbreviation advanced :: "wal_record list \<Rightarrow> wal_record \<Rightarrow> wal_writer \<Rightarrow> wal_writer" where
  "advanced cur rc \<equiv> append_advance (length (encs cur)) (length (encs [rc]))"

lemma written_inv:
  assumes "written cfg m w d olds cur k rc"
    and "settled b = settled (batch w)" "set (waiters b) \<subseteq> insert (wr_lsn rc) (set (waiters (batch w)))"
  shows "wal_inv cfg (advanced cur rc (w\<lparr>batch := b\<rparr>)) d olds (cur @ [rc]) k True"
    "unat (active_segment_id (advanced cur rc (w\<lparr>batch := b\<rparr>))) \<le> m" "take k (cur @ [rc]) = take k cur"
proof -
  obtain w0 d0 here where inv: "wal_inv cfg w0 d0 olds cur k here" "w = w0\<lparr>active_dir_synced := True\<rparr>"
    using assms(1) unfolding written_def by blast
  have h: "closed_segments d (active_segment_id w) olds" "active_segment d (active_segment_id w) (cur @ [rc]) k True"
    "wr_lsn rc = next_lsn w" "fits cfg rc" "unat (active_segment_id w) \<le> m"
    using assms(1) by (simp_all add: written_def)
  show "wal_inv cfg (advanced cur rc (w\<lparr>batch := b\<rparr>)) d olds (cur @ [rc]) k True"
    by (rule advanced_inv[OF inv h(1-4) assms(2,3)])
  show "unat (active_segment_id (advanced cur rc (w\<lparr>batch := b\<rparr>))) \<le> m" using h(5) by (simp add: append_advance_def)
  show "take k (cur @ [rc]) = take k cur" using wal_inv_k[OF inv(1)] by simp
qed

lemma written_flush:
  assumes wr: "written cfg m w d olds cur k rc"
    and q: "flush_strict_batch us (advanced cur rc (w\<lparr>batch := b\<rparr>)) d = (q, w1, d1)" and r: "\<And>us. ar_lsn (r us) = next_lsn w"
    and b: "settled b = settled (batch w)" "set (waiters b) \<subseteq> insert (wr_lsn rc) (set (waiters (batch w)))"
  shows "appended cfg m (records_of olds @ take k cur) (records_of olds @ cur) (wr_payload rc)
    (case q of Inl e \<Rightarrow> AppendFailed e | Inr us \<Rightarrow> Acked (r us)) w1 d1"
proof (cases q)
  note i = written_inv[OF wr b]
  case (Inl e)
  from flush_err[OF i(1,2) q[unfolded Inl]] have "promise cfg m w1 d1 (records_of olds @ take k cur)" unfolding i(3) .
  then show ?thesis using Inl unfolding appended_def failed_ok_def by (auto simp: take_is_prefix)
next
  note i = written_inv[OF wr b]
  case (Inr us)
  note fo = flush_ok[OF i(1) q[unfolded Inr]]
  have "stands cfg m (records_of olds @ cur @ [rc]) (records_of olds @ cur @ [rc]) w1 d1"
    by (rule stands_flushed[OF fo(2)]) (use fo(1) i(2) in simp)
  moreover have "wr_lsn rc = next_lsn w" using wr by (simp add: written_def)
  ultimately show ?thesis using Inr r unfolding appended_def by (auto intro!: exI[of _ rc])
qed

text \<open>The result an append reports for the record it wrote.\<close>

abbreviation result_for :: "wal_writer \<Rightarrow> wal_record list \<Rightarrow> wal_record \<Rightarrow> u64 \<Rightarrow> append_result" where
  "result_for w cur rc us \<equiv> \<lparr>ar_lsn = next_lsn w, ar_sequence = next_sequence w, ar_segment_id = active_segment_id w,
    ar_offset = length (encs cur), ar_encoded_len = word_of_nat (length (encs [rc])), ar_durable = True,
    ar_fsync_duration_us = Some us\<rparr>"

lemma finish_unbatched:
  assumes wr: "written cfg m w d olds cur k rc" and nb: "\<not> batch_enabled (batch w)"
    and f: "append_finish now us Strict (length (encs cur)) (length (encs [rc])) w d = (out, w', d')"
  shows "appended cfg m (records_of olds @ take k cur) (records_of olds @ cur) (wr_payload rc) out w' d'"
proof -
  obtain q w1 d1 where q: "flush_strict_batch us w d = (q, w1, d1)" by (metis prod_cases3)
  have "flush_strict_batch us (advanced cur rc (w\<lparr>batch := batch w\<rparr>)) d = (q, advanced cur rc w1, d1)"
    using q by (auto simp: flush_strict_batch_def append_advance_def split: prod.splits sum.splits)
  note fl = written_flush[OF wr this _ refl subset_insertI, of "result_for w cur rc"]
  have "batch (advanced cur rc w1) = batch w1" by (simp add: append_advance_def)
  then show ?thesis using f fl nb q failed_ok_batch[of "advanced cur rc w1" w1]
    by (cases q) (auto simp: append_finish_def appended_def Let_def)
qed

lemma finish_batched:
  assumes wr: "written cfg m w d olds cur k rc" and be: "batch_enabled (batch w)"
    and f: "append_finish now us Strict (length (encs cur)) (length (encs [rc])) w d = (out, w', d')"
  shows "appended cfg m (records_of olds @ take k cur) (records_of olds @ cur) (wr_payload rc) out w' d'"
proof -
  obtain action b where ab: "after_record_appended now (next_lsn w) (length (encs [rc])) (batch w) = (action, b)" by fastforce
  note facts = after_record_appended_facts[OF ab be]
  have lsn: "wr_lsn rc = next_lsn w" using wr by (simp add: written_def)
  have b: "settled b = settled (batch w)" "set (waiters b) \<subseteq> insert (wr_lsn rc) (set (waiters (batch w)))"
    using facts(1,2) lsn by simp_all
  show ?thesis
  proof (cases "action = FlushNow")
    case True
    obtain q w1 d1 where q: "flush_strict_batch us (advanced cur rc (w\<lparr>batch := b\<rparr>)) d = (q, w1, d1)" by (metis prod_cases3)
    show ?thesis using f be ab True q written_flush[OF wr q _ b, of "result_for w cur rc"]
      by (cases q) (auto simp: append_finish_def Let_def)
  next
    case False
    then have act: "action = WaitForFlush (next_lsn w)" using facts(4) by simp
    note i = written_inv[OF wr b]
    have "stands cfg m (records_of olds @ take k cur) ((records_of olds @ cur) @ [rc]) (advanced cur rc (w\<lparr>batch := b\<rparr>)) d"
      unfolding stands_def using i facts(3)
      by (intro exI[of _ olds] exI[of _ "cur @ [rc]"] exI[of _ k] exI[of _ True])
        (simp only: pending_known_def append_assoc, simp add: append_advance_def)
    then show ?thesis using f be ab act lsn unfolding appended_def
      by (auto simp: append_finish_def Let_def intro!: exI[of _ rc] exI[of _ "records_of olds @ take k cur"])
  qed
qed

lemma failed_ok_weaken:
  "failed_ok cfg m dur' all w d \<Longrightarrow> prefix dur dur' \<Longrightarrow> failed_ok cfg m dur all w d"
  unfolding failed_ok_def by (blast intro: prefix_order.trans)

lemma promise_bound: "promise cfg m w d dur \<Longrightarrow> m \<le> m' \<Longrightarrow> promise cfg m' w d dur"
  unfolding promise_def by (elim conjE exE, intro conjI exI) (assumption+, force)

lemma failed_ok_bound: "failed_ok cfg m dur all w d \<Longrightarrow> m \<le> m' \<Longrightarrow> failed_ok cfg m' dur all w d"
  unfolding failed_ok_def using promise_bound by blast

lemma appended_weaken:
  "appended cfg m dur' all p out w d \<Longrightarrow> prefix dur dur' \<Longrightarrow> appended cfg m dur all p out w d"
  by (auto simp: appended_def split: append_outcome.splits intro: failed_ok_weaken prefix_order.trans)

text \<open>The stages from the write on, and those from the rotation on.\<close>

lemma append_written_ok:
  assumes st: "stands cfg m dur all w d" and rc: "wr_lsn rc = next_lsn w" "fits cfg rc"
    and wr: "append_write (encs [rc]) w d = (r, w1, d1)"
    and f: "(case r of Inl e \<Rightarrow> (AppendFailed e, w1, d1)
      | Inr offset \<Rightarrow> append_finish now us Strict offset (length (encs [rc])) w1 d1) = (out, w', d')"
  shows "appended cfg m dur all (wr_payload rc) out w' d'"
proof -
  obtain olds cur k here where inv: "wal_inv cfg w d olds cur k here" and a: "unat (active_segment_id w) \<le> m"
    and all: "records_of olds @ cur = all" and dur: "records_of olds @ take k cur = dur"
    using st by (auto simp: stands_def)
  note e = append_write_ok[OF inv a wr]
  show ?thesis
  proof (cases r)
    case (Inl er)
    then show ?thesis using f e by (auto simp: appended_def all dur)
  next
    case (Inr off)
    then have "written cfg m w1 d1 olds cur k rc" "off = length (encs cur)" using e inv a rc by (auto simp: written_def)
    then show ?thesis using f Inr finish_unbatched[of cfg m w1 d1 olds cur k rc] finish_batched[of cfg m w1 d1 olds cur k rc]
      unfolding all dur by (cases "batch_enabled (batch w1)") simp_all
  qed
qed

lemma append_encoded_ok:
  assumes inv: "wal_inv cfg w d olds cur k here" "unat (active_segment_id w) \<le> m" "pending_known (batch w) cur k" and m: "m + 1 < 2 ^ 64"
    and enc: "append_encode p w = Inr encoded"
    and f: "(case append_rotate us (length encoded) w d of
        (Inl e, w2, d2) \<Rightarrow> (AppendFailed e, w2, d2)
      | (Inr _, w2, d2) \<Rightarrow>
          (case append_write encoded w2 d2 of
             (Inl e, w3, d3) \<Rightarrow> (AppendFailed e, w3, d3)
           | (Inr offset, w3, d3) \<Rightarrow> append_finish now us Strict offset (length encoded) w3 d3)) = (out, w', d')"
  shows "appended cfg (m + 1) (records_of olds @ take k cur) (records_of olds @ cur) p out w' d'"
proof -
  let ?rc = "new_record_of p w"
  have "ww_config w = cfg" using inv(1) by (simp add: wal_inv_def writer_at_def)
  note en = append_encode_ok[OF enc this]
  obtain r2 w2 d2 where s2: "append_rotate us (length encoded) w d = (r2, w2, d2)" by (metis prod_cases3)
  note e2 = append_rotate_ok[OF inv(1,2) m inv(3) s2]
  show ?thesis
  proof (cases r2)
    case (Inl e)
    then show ?thesis using f s2 e2 by (auto simp: appended_def)
  next
    case (Inr u)
    then obtain dur2 where pd: "prefix (records_of olds @ take k cur) dur2"
      and st2: "stands cfg (m + 1) dur2 (records_of olds @ cur) w2 d2" using e2 by auto
    have lsn: "wr_lsn ?rc = next_lsn w2" "wr_payload ?rc = p"
      using st2 inv(1) by (auto simp: stands_def new_record_of_def new_record_def wal_inv_def writer_at_def simp flip: length_append)
    obtain r3 w3 d3 where s3: "append_write (encs [?rc]) w2 d2 = (r3, w3, d3)" by (metis prod_cases3)
    have "(case r3 of Inl e \<Rightarrow> (AppendFailed e, w3, d3)
        | Inr offset \<Rightarrow> append_finish now us Strict offset (length (encs [?rc])) w3 d3) = (out, w', d')"
      using f s2 Inr s3 unfolding en(1) by (cases r3) simp_all
    from append_written_ok[OF st2 lsn(1) en(2) s3 this] show ?thesis
      unfolding lsn(2) by (rule appended_weaken[OF _ pd])
  qed
qed

lemma wal_append_ok:
  assumes st: "stands cfg m dur all w d" and m: "m + 1 < 2 ^ 64" and f: "wal_append now us p Strict w d = (out, w', d')"
  shows "appended cfg (m + 1) dur all p out w' d'"
proof -
  obtain olds cur k here where inv: "wal_inv cfg w d olds cur k here" and a: "unat (active_segment_id w) \<le> m"
    and pk: "pending_known (batch w) cur k" and all: "records_of olds @ cur = all" and dur: "records_of olds @ take k cur = dur"
    using st by (auto simp: stands_def)
  have m1: "m \<le> m + 1" by simp
  obtain r1 w1 d1 where s1: "append_expire now us w d = (r1, w1, d1)" by (metis prod_cases3)
  note e1 = expire_ok[OF inv a pk s1, unfolded all dur]
  show ?thesis
  proof (cases r1)
    case (Inl e)
    then show ?thesis using f s1 e1 failed_ok_bound[OF _ m1] by (auto simp: wal_append_def appended_def)
  next
    case r1: (Inr u)
    obtain k1 here1 where i1: "k \<le> k1" "wal_inv cfg w1 d1 olds cur k1 here1" "pending_known (batch w1) cur k1"
      "active_segment_id w1 = active_segment_id w" using e1 r1 by auto
    have a1: "unat (active_segment_id w1) \<le> m" using i1(4) a by simp
    have p1: "prefix dur (records_of olds @ take k1 cur)" unfolding dur[symmetric] by (rule dur_prefix[OF i1(1)])
    note f1 = f[unfolded wal_append_def s1 r1 prod.case sum.case]
    show ?thesis
    proof (cases "append_encode p w1")
      case (Inl e)
      have "failed_ok cfg m dur all w1 d1"
        by (rule failed_okI[OF i1(2) a1 same_disk_refl _ p1 all]) (use i1(2) in \<open>simp add: wal_inv_def writer_at_def\<close>)
      then show ?thesis using f1 Inl failed_ok_bound[OF _ m1] by (auto simp: appended_def)
    next
      case (Inr encoded)
      from append_encoded_ok[OF i1(2) a1 i1(3) m Inr f1[unfolded Inr sum.case]] show ?thesis
        unfolding all by (rule appended_weaken[OF _ p1])
    qed
  qed
qed

section \<open>Opening, appending, crashing\<close>

text \<open>The writer the engine opens: it goes on after the last record that recovery found.\<close>

definition open_after_recovery :: "wal_config \<Rightarrow> sim_state \<Rightarrow> wal_writer result \<times> sim_state" where
  "open_after_recovery cfg d =
    (case recover_wal cfg d of
       (Inl e, d1) \<Rightarrow> (Inl e, d1)
     | (Inr rep, d1) \<Rightarrow>
         (wal_open_at cfg d1
            (case last_lsn rep of None \<Rightarrow> LSN_FIRST | Some l \<Rightarrow> lsn_next l)
            (if rep_records rep = [] then SEQ_FIRST else seq_next (wr_sequence (rr_record (last (rep_records rep))))), d1))"

text \<open>Strict appends up to the first that fails, each with the clock reading and sync duration it meets.\<close>

fun run_appends :: "(nat \<times> u64 \<times> wal_payload) list \<Rightarrow> wal_writer \<Rightarrow> sim_state \<Rightarrow>
    (wal_payload \<times> append_outcome) list \<times> wal_writer \<times> sim_state" where
  "run_appends [] w d = ([], w, d)"
| "run_appends ((now, us, p) # xs) w d =
    (case wal_append now us p Strict w d of
       (AppendFailed e, w1, d1) \<Rightarrow> ([(p, AppendFailed e)], w1, d1)
     | (out, w1, d1) \<Rightarrow> (case run_appends xs w1 d1 of (outs, w2, d2) \<Rightarrow> ((p, out) # outs, w2, d2)))"

text \<open>The appends that have returned success, at once or when their batch was flushed.\<close>

fun acknowledgement :: "wal_batch_writer \<Rightarrow> wal_payload \<times> append_outcome \<Rightarrow> (lsn \<times> wal_payload) option" where
  "acknowledgement b (p, Acked r) = Some (ar_lsn r, p)"
| "acknowledgement b (p, Waiting l r) =
    (if list_ex (\<lambda>(l', res). l' = l \<and> res \<noteq> None) (settled b) then Some (ar_lsn r, p) else None)"
| "acknowledgement b (p, AppendFailed e) = None"

text \<open>A life of the machine: open, append, crash. What is returned are the acknowledged appends.\<close>

definition wal_life_step ::
  "wal_config \<Rightarrow> (nat \<times> u64 \<times> wal_payload) list \<Rightarrow> sim_state \<Rightarrow> (lsn \<times> wal_payload) list \<times> sim_state" where
  "wal_life_step cfg xs d =
    (case open_after_recovery cfg d of
       (Inl e, d1) \<Rightarrow> ([], snd (crash d1))
     | (Inr w, d1) \<Rightarrow>
         (case run_appends xs w d1 of
            (outs, w2, d2) \<Rightarrow> (List.map_filter (acknowledgement (batch w2)) outs, snd (crash d2))))"

fun wal_life ::
  "wal_config \<Rightarrow> (nat \<times> u64 \<times> wal_payload) list list \<Rightarrow> sim_state \<Rightarrow> (lsn \<times> wal_payload) list \<times> sim_state" where
  "wal_life cfg [] d = ([], d)"
| "wal_life cfg (xs # xss) d =
    (case wal_life_step cfg xs d of (acks, d1) \<Rightarrow> (case wal_life cfg xss d1 of (acks', d2) \<Rightarrow> (acks @ acks', d2)))"

lemma next_lsn_after:
  assumes "lsns_from 1 rs"
  shows "(case (if rs = [] then None else Some (wr_lsn (last rs))) of None \<Rightarrow> LSN_FIRST | Some l \<Rightarrow> lsn_next l) =
    1 + of_nat (length rs)"
proof (cases rs rule: rev_cases)
  case Nil
  then show ?thesis by (simp add: LSN_FIRST_def)
next
  case (snoc rs' r)
  then show ?thesis using assms by (simp add: lsns_from_append lsn_next_def)
qed

lemma Max_sorted_snoc: "sorted_wrt (<) (xs @ [a]) \<Longrightarrow> Max (set (xs @ [a])) = (a :: u64)"
  by (intro Max_eqI) (auto simp: sorted_wrt_append)

lemma open_stands:
  assumes ok: "disk_ok d" and lg: "log_at cfg (content d) segs" and b: "\<forall>i \<in> fst ` set segs. unat i \<le> m" "1 \<le> m"
    and im: "\<And>q. prefix ''wal/'' q \<Longrightarrow> crash_image d q = content d q"
    and l: "l = 1 + of_nat (length (records_of segs))"
  shows "\<exists>w. wal_open_at cfg d l sq = Inr w \<and> stands cfg m (records_of segs) (records_of segs) w d"
proof -
  obtain es where es: "list_dir (RelativePath ''wal'') d = Inr es"
    "set (List.map_filter (\<lambda>en. parse_segment_id (entry_path en)) es) = set (map fst segs)"
    by (rule list_dir_layout[OF ok log_at_layout[OF lg]])
  let ?ids = "List.map_filter (\<lambda>en. parse_segment_id (entry_path en)) es"
  have rs: "\<forall>r \<in> set (records_of segs). fits cfg r" "lsns_from 1 (records_of segs)" using lg by (simp_all add: log_at_def)
  have st: "settled_ok (batch_new c) rs'" "waiters (batch_new c) = []" for c rs' by (simp_all add: settled_ok_def batch_new_def)
  show ?thesis
  proof (cases segs rule: rev_cases)
    case Nil
    then have ids: "?ids = []" using es(2) by simp
    have none: "content d q = None \<and> crash_image d q = None" if q: "prefix ''wal/'' q" for q
      using lg im[OF q] q by (auto simp: log_at_def Nil)
    let ?w = "\<lparr>ww_config = cfg, active_segment_id = 1, active_path = RelativePath (seg_name 1), active_len = 0,
      active_dir_synced = False, next_lsn = l, next_sequence = sq, batch = batch_new (batch_cfg cfg)\<rparr>"
    have "wal_open_at cfg d l sq = Inr ?w"
      using none[OF seg_name_prefix] by (simp add: wal_open_at_def wal_dir_path es(1) ids segment_path_eq file_len_content)
    moreover have "wal_inv cfg ?w d [] [] 0 False"
      using ok none st l Nil none[OF seg_name_prefix[of 1]]
      by (simp add: wal_inv_def closed_segments_def active_segment_def writer_at_def)
    ultimately show ?thesis using stands_flushed[of cfg ?w d "[]" "[]" False m] b(2) Nil by simp
  next
    case (snoc olds s)
    obtain a cur where s: "s = (a, cur)" by fastforce
    have so: "sorted_wrt (<) (map fst olds @ [a])" using lg by (simp add: log_at_def snoc s)
    have ids: "?ids \<noteq> []" "Max (set ?ids) = a"
      using es(2) Max_sorted_snoc[OF so] by (auto simp: snoc s)
    have ca: "content d (seg_name a) = Some (encs cur)" using lg by (simp add: log_at_def snoc s)
    let ?w = "\<lparr>ww_config = cfg, active_segment_id = a, active_path = RelativePath (seg_name a), active_len = length (encs cur),
      active_dir_synced = True, next_lsn = l, next_sequence = sq, batch = batch_new (batch_cfg cfg)\<rparr>"
    have "wal_open_at cfg d l sq = Inr ?w"
      using ids ca by (simp add: wal_open_at_def wal_dir_path es(1) segment_path_eq file_len_content)
    moreover have "closed_segments d a olds"
      using ok so lg im seg_name_prefix unfolding closed_segments_def log_at_def snoc s by auto
    moreover have "active_segment d a cur (length cur) True" using ca im[OF seg_name_prefix] by (simp add: active_segment_def)
    moreover have "writer_at cfg ?w olds cur (length cur) True" using rs st l by (simp add: writer_at_def snoc s)
    ultimately show ?thesis using stands_flushed[of cfg ?w d olds cur True m] b(1) by (simp add: wal_inv_def snoc s)
  qed
qed


lemma stands_facts:
  assumes "stands cfg m dur all w d"
  shows "promise cfg m w d dur" "prefix dur all" "lsns_from 1 all"
proof -
  obtain olds cur k here where inv: "wal_inv cfg w d olds cur k here" and a: "unat (active_segment_id w) \<le> m"
    and all: "records_of olds @ cur = all" and dur: "records_of olds @ take k cur = dur"
    using assms by (auto simp: stands_def)
  show "promise cfg m w d dur" unfolding dur[symmetric]
    by (rule inv_promise[OF inv a same_disk_refl]) (use inv in \<open>simp add: wal_inv_def writer_at_def\<close>)
  show "prefix dur all" unfolding dur[symmetric] all[symmetric] by (simp add: take_is_prefix)
  show "lsns_from 1 all" using inv all by (simp add: wal_inv_def writer_at_def)
qed

abbreviation entries_of :: "wal_record list \<Rightarrow> (lsn \<times> wal_payload) set" where
  "entries_of rs \<equiv> (\<lambda>r. (wr_lsn r, wr_payload r)) ` set rs"

definition outcome_ok :: "wal_record list \<Rightarrow> wal_record list \<Rightarrow> wal_payload \<times> append_outcome \<Rightarrow> bool" where
  "outcome_ok dur all x \<longleftrightarrow>
    (case snd x of
       Acked r \<Rightarrow> (ar_lsn r, fst x) \<in> entries_of dur
     | Waiting l r \<Rightarrow> l = ar_lsn r \<and> (l, fst x) \<in> entries_of all
     | AppendFailed e \<Rightarrow> True)"

lemma outcome_ok_mono: "outcome_ok dur all x \<Longrightarrow> prefix dur dur' \<Longrightarrow> prefix all all' \<Longrightarrow> outcome_ok dur' all' x"
  by (auto simp: outcome_ok_def dest!: set_mono_prefix split: append_outcome.splits)

text \<open>What a run of appends leaves: the log \<^verbatim>\<open>dur\<close> after a crash, part of the log \<^verbatim>\<open>all\<close> that was written.\<close>

definition ran :: "wal_config \<Rightarrow> nat \<Rightarrow> wal_record list \<Rightarrow> wal_record list \<Rightarrow> wal_payload set \<Rightarrow> nat \<Rightarrow>
    (wal_payload \<times> append_outcome) list \<Rightarrow> wal_writer \<Rightarrow> sim_state \<Rightarrow> bool" where
  "ran cfg m dur all ps n outs w d \<longleftrightarrow>
    (\<exists>dur' all'. promise cfg m w d dur' \<and> prefix dur dur' \<and> prefix dur' all' \<and> prefix all all' \<and> lsns_from 1 all' \<and>
      length all' \<le> length all + n \<and> wr_payload ` set all' \<subseteq> wr_payload ` set all \<union> ps \<and>
      (\<forall>x \<in> set outs. outcome_ok dur' all' x))"

lemma ran_step:
  assumes "ran cfg m dur1 (all @ [rc]) ps n outs w d" "prefix dur dur1" "outcome_ok dur1 (all @ [rc]) x" "wr_payload rc = p"
  shows "ran cfg m dur all (insert p ps) (Suc n) (x # outs) w d"
proof -
  obtain dur' all' where h: "promise cfg m w d dur'" "prefix dur1 dur'" "prefix dur' all'" "prefix (all @ [rc]) all'" "lsns_from 1 all'"
    "length all' \<le> length (all @ [rc]) + n" "wr_payload ` set all' \<subseteq> wr_payload ` set (all @ [rc]) \<union> ps"
    "\<forall>x \<in> set outs. outcome_ok dur' all' x"
    using assms(1) unfolding ran_def by blast
  have "prefix all all'" using h(4) append_prefixD by blast
  moreover have "outcome_ok dur' all' x" by (rule outcome_ok_mono[OF assms(3) h(2,4)])
  moreover have "prefix dur dur'" using assms(2) h(2) by (rule prefix_order.trans)
  ultimately show ?thesis unfolding ran_def using h assms(4)
    by (intro exI[of _ dur'] exI[of _ all']) auto
qed

lemma run_appends_ok:
  assumes "stands cfg m dur all w d" "m + length xs < 2 ^ 64" "run_appends xs w d = (outs, w', d')"
  shows "ran cfg (m + length xs) dur all ((\<lambda>(_, _, p). p) ` set xs) (length xs) outs w' d'"
  using assms
proof (induction xs arbitrary: m dur all w d outs w' d')
  case Nil
  then show ?case using stands_facts[OF Nil.prems(1)] unfolding ran_def by auto
next
  case (Cons x xs)
  obtain now us p where x: "x = (now, us, p)" by (metis prod_cases3)
  obtain out w1 d1 where a: "wal_append now us p Strict w d = (out, w1, d1)" by (metis prod_cases3)
  have m: "m + 1 < 2 ^ 64" "m + 1 + length xs < 2 ^ 64" using Cons.prems(2) by simp_all
  note ap = wal_append_ok[OF Cons.prems(1) m(1) a]
  have e: "m + length (x # xs) = m + 1 + length xs" "(\<lambda>(_, _, p). p) ` set (x # xs) = insert p ((\<lambda>(_, _, p). p) ` set xs)"
    "length (x # xs) = Suc (length xs)"
    by (simp_all add: x)
  obtain outs1 w2 d2 where rn: "run_appends xs w1 d1 = (outs1, w2, d2)" by (metis prod_cases3)
  show ?case
  proof (cases out)
    case (AppendFailed er)
    then obtain dur' where "promise cfg (m + 1) w1 d1 dur'" "prefix dur dur'" "prefix dur' all"
      using ap by (auto simp: appended_def failed_ok_def)
    moreover have "outs = [(p, AppendFailed er)]" "w' = w1" "d' = d1" using Cons.prems(3) a AppendFailed by (simp_all add: x)
    moreover have "lsns_from 1 all" by (rule stands_facts(3)[OF Cons.prems(1)])
    ultimately show ?thesis unfolding ran_def e
      by (intro exI[of _ dur'] exI[of _ all]) (auto simp: outcome_ok_def intro: promise_bound)
  next
    case (Acked r)
    then obtain rc where rc: "wr_lsn rc = ar_lsn r" "wr_payload rc = p" "stands cfg (m + 1) (all @ [rc]) (all @ [rc]) w1 d1"
      using ap by (auto simp: appended_def)
    have "outs = (p, out) # outs1" "w' = w2" "d' = d2" using Cons.prems(3) a Acked rn by (simp_all add: x)
    moreover have "prefix dur (all @ [rc])" using stands_facts(2)[OF Cons.prems(1)] by (simp add: prefix_append)
    moreover have "outcome_ok (all @ [rc]) (all @ [rc]) (p, out)" using rc Acked by (simp add: outcome_ok_def)
    ultimately show ?thesis unfolding e
      using ran_step[OF Cons.IH[OF rc(3) m(2) rn] _ _ rc(2)] by simp
  next
    case (Waiting l r)
    then obtain rc dur1 where rc: "l = ar_lsn r" "wr_lsn rc = l" "wr_payload rc = p" "prefix dur dur1"
      "stands cfg (m + 1) dur1 (all @ [rc]) w1 d1"
      using ap by (auto simp: appended_def)
    have "outs = (p, out) # outs1" "w' = w2" "d' = d2" using Cons.prems(3) a Waiting rn by (simp_all add: x)
    moreover have "outcome_ok dur1 (all @ [rc]) (p, out)" using rc Waiting by (simp add: outcome_ok_def)
    ultimately show ?thesis unfolding e
      using ran_step[OF Cons.IH[OF rc(5) m(2) rn] rc(4) _ rc(3)] by simp
  qed
qed


text \<open>A disk as a crash leaves it, with the log \<^verbatim>\<open>rs\<close> in segments numbered up to \<^verbatim>\<open>m\<close>.\<close>

definition log_disk :: "wal_config \<Rightarrow> nat \<Rightarrow> wal_record list \<Rightarrow> sim_state \<Rightarrow> bool" where
  "log_disk cfg m rs d \<longleftrightarrow> disk_ok d \<and> (\<forall>q. prefix ''wal/'' q \<longrightarrow> crash_image d q = content d q) \<and>
    (\<exists>segs. log_at cfg (content d) segs \<and> records_of segs = rs \<and> (\<forall>i \<in> fst ` set segs. unat i \<le> m))"

lemma promise_log_disk: "promise cfg m w d dur \<Longrightarrow> log_disk cfg m dur (snd (crash d))"
  unfolding promise_def log_disk_def using disk_ok_crash simdisk.crash_idem by blast

lemma log_disk_open:
  assumes "log_disk cfg m rs d" "1 \<le> m"
  shows "\<exists>w d1. open_after_recovery cfg d = (Inr w, d1) \<and> stands cfg m rs rs w d1"
proof -
  obtain segs where ok: "disk_ok d" and im: "\<And>q. prefix ''wal/'' q \<Longrightarrow> crash_image d q = content d q"
    and segs: "log_at cfg (content d) segs" "records_of segs = rs" "\<forall>i \<in> fst ` set segs. unat i \<le> m"
    using assms(1) by (auto simp: log_disk_def)
  obtain rep d1 where rec: "recover_wal cfg d = (Inr rep, d1)" "same_disk d d1" "reports_more empty_report rs rep"
    using recover_wal_ok[OF ok segs(1)] segs(2) by blast
  have d1: "disk_ok d1" "content d1 = content d" "crash_image d1 = crash_image d"
    using ok rec(2) same_disk_image[OF ok rec(2)] by (simp_all add: same_disk_def)
  have ll: "last_lsn rep = (if rs = [] then None else Some (wr_lsn (last rs)))"
    using rec(3) by (simp add: reports_more_def empty_report_def)
  have "lsns_from 1 rs" using segs by (auto simp: log_at_def)
  from next_lsn_after[OF this] have "(case last_lsn rep of None \<Rightarrow> LSN_FIRST | Some l \<Rightarrow> lsn_next l) = 1 + of_nat (length rs)"
    unfolding ll .
  then show ?thesis
    using open_stands[OF d1(1) segs(1)[folded d1(2)] segs(3) assms(2) im[folded d1(2,3)] refl] segs(2)
    by (simp add: open_after_recovery_def rec(1))
qed

lemma acknowledged_entries:
  assumes st: "settled_ok b dur" and pre: "prefix dur all" and lsns: "lsns_from 1 all" "length all < 2 ^ 64"
    and out: "outcome_ok dur all x" and ack: "acknowledgement b x = Some e"
  shows "e \<in> entries_of dur"
proof -
  obtain p o' where x: "x = (p, o')" by fastforce
  show ?thesis
  proof (cases o')
    case (Waiting l r)
    then obtain us where us: "(l, Some us) \<in> set (settled b)" and e: "e = (ar_lsn r, p)"
      using ack by (auto simp: x list_ex_iff split: if_splits)
    have "l \<in> wr_lsn ` set dur" using st us unfolding settled_ok_def by blast
    then obtain i where i: "i < length dur" "wr_lsn (dur ! i) = l" by (auto simp: in_set_conv_nth)
    obtain j where j: "j < length all" "wr_lsn (all ! j) = l" "wr_payload (all ! j) = p" and l: "l = ar_lsn r"
      using out Waiting by (auto simp: x outcome_ok_def in_set_conv_nth)
    have ia: "i < length all" "all ! i = dur ! i" using i(1) pre by (auto simp: prefix_def nth_append)
    have "unat (of_nat i :: u64) = unat (of_nat j :: u64)"
      using lsns_from_nth[OF lsns(1) ia(1)] lsns_from_nth[OF lsns(1) j(1)] i(2) j(2) ia(2) by simp
    then have "i = j" using ia(1) j(1) lsns(2) by (simp add: unat_of_nat)
    then show ?thesis using i j ia e l by (auto simp: image_iff intro!: bexI[of _ "dur ! i"])
  qed (use out ack in \<open>auto simp: x outcome_ok_def\<close>)
qed


lemma life_step_ok:
  assumes "log_disk cfg m rs d" "1 \<le> m" "m + length xs < 2 ^ 64" "length rs + length xs < 2 ^ 64"
    and s: "wal_life_step cfg xs d = (acks, d')"
  shows "\<exists>rs'. log_disk cfg (m + length xs) rs' d' \<and> prefix rs rs' \<and> length rs' \<le> length rs + length xs \<and>
    set acks \<subseteq> entries_of rs' \<and> wr_payload ` set rs' \<subseteq> wr_payload ` set rs \<union> (\<lambda>(_, _, p). p) ` set xs"
proof -
  obtain w d1 where o: "open_after_recovery cfg d = (Inr w, d1)" "stands cfg m rs rs w d1"
    using log_disk_open[OF assms(1,2)] by blast
  obtain outs w2 d2 where r: "run_appends xs w d1 = (outs, w2, d2)" by (metis prod_cases3)
  have e: "acks = List.map_filter (acknowledgement (batch w2)) outs" "d' = snd (crash d2)"
    using s by (simp_all add: wal_life_step_def o(1) r)
  obtain dur all where h: "promise cfg (m + length xs) w2 d2 dur" "prefix rs dur" "prefix dur all" "lsns_from 1 all"
    "length all \<le> length rs + length xs" "wr_payload ` set all \<subseteq> wr_payload ` set rs \<union> (\<lambda>(_, _, p). p) ` set xs"
    "\<forall>x \<in> set outs. outcome_ok dur all x"
    using run_appends_ok[OF o(2) assms(3) r] unfolding ran_def by blast
  have st: "settled_ok (batch w2) dur" using h(1) by (simp add: promise_def)
  have la: "length all < 2 ^ 64" using h(5) assms(4) by simp
  have "set acks \<subseteq> entries_of dur"
  proof
    fix x assume "x \<in> set acks"
    then obtain y where y: "y \<in> set outs" "acknowledgement (batch w2) y = Some x"
      unfolding e by (auto simp: List.map_filter_def)
    then show "x \<in> entries_of dur" using acknowledged_entries[OF st h(3,4) la _ y(2)] h(7) by blast
  qed
  moreover have "log_disk cfg (m + length xs) dur d'" unfolding e by (rule promise_log_disk[OF h(1)])
  moreover have "length dur \<le> length rs + length xs" using prefix_length_le[OF h(3)] h(5) by simp
  moreover have "wr_payload ` set dur \<subseteq> wr_payload ` set rs \<union> (\<lambda>(_, _, p). p) ` set xs"
    using set_mono_prefix[OF h(3)] h(6) by blast
  ultimately show ?thesis using h(2) by blast
qed

lemma image_chain: "A2 \<subseteq> A1 \<union> f ` C \<Longrightarrow> A1 \<subseteq> A0 \<union> f ` X \<Longrightarrow> A2 \<subseteq> A0 \<union> f ` (X \<union> C)"
  by (auto simp: image_Un)

lemma wal_life_ok:
  assumes "log_disk cfg m rs d" "1 \<le> m" "m + length (concat xss) < 2 ^ 64" "length rs + length (concat xss) < 2 ^ 64"
    and "wal_life cfg xss d = (acks, d')"
  shows "\<exists>m' rs'. log_disk cfg m' rs' d' \<and> prefix rs rs' \<and> set acks \<subseteq> entries_of rs' \<and>
    wr_payload ` set rs' \<subseteq> wr_payload ` set rs \<union> (\<lambda>(_, _, p). p) ` set (concat xss)"
  using assms
proof (induction xss arbitrary: m rs d acks)
  case Nil
  then show ?case by auto
next
  case (Cons xs xss)
  obtain a1 d1 where s: "wal_life_step cfg xs d = (a1, d1)" by fastforce
  obtain a2 d2 where l: "wal_life cfg xss d1 = (a2, d2)" by fastforce
  have e: "acks = a1 @ a2" "d' = d2" using Cons.prems(5) by (simp_all add: s l)
  have b: "m + length xs < 2 ^ 64" "length rs + length xs < 2 ^ 64" using Cons.prems(3,4) by simp_all
  obtain rs1 where r1: "log_disk cfg (m + length xs) rs1 d1" "prefix rs rs1" "length rs1 \<le> length rs + length xs"
    "set a1 \<subseteq> entries_of rs1" "wr_payload ` set rs1 \<subseteq> wr_payload ` set rs \<union> (\<lambda>(_, _, p). p) ` set xs"
    using life_step_ok[OF Cons.prems(1,2) b s] by blast
  have b2: "1 \<le> m + length xs" "m + length xs + length (concat xss) < 2 ^ 64" "length rs1 + length (concat xss) < 2 ^ 64"
    using Cons.prems(2-4) r1(3) by simp_all
  from Cons.IH[OF r1(1) b2 l[folded e(2)]]
  obtain m' rs2 where r2: "log_disk cfg m' rs2 d'" "prefix rs1 rs2" "set a2 \<subseteq> entries_of rs2"
    "wr_payload ` set rs2 \<subseteq> wr_payload ` set rs1 \<union> (\<lambda>(_, _, p). p) ` set (concat xss)"
    by (elim exE conjE)
  have "set a1 \<subseteq> entries_of rs2" using r1(4) set_mono_prefix[OF r2(2)] by blast
  moreover have "prefix rs rs2" using r1(2) r2(2) by (rule prefix_order.trans)
  moreover have "wr_payload ` set rs2 \<subseteq> wr_payload ` set rs \<union> (\<lambda>(_, _, p). p) ` set (concat (xs # xss))"
    using image_chain[OF r2(4) r1(5)] by simp
  moreover have "set acks \<subseteq> entries_of rs2" using \<open>set a1 \<subseteq> entries_of rs2\<close> r2(3) by (simp add: e)
  ultimately show ?case using r2(1) by (intro exI[of _ m'] exI[of _ rs2] conjI)
qed


lemma log_disk_none:
  assumes "disk_ok d" "\<forall>q. prefix ''wal/'' q \<longrightarrow> content d q = None \<and> \<not> entry_durable d q"
  shows "log_disk cfg 1 [] d"
proof -
  have "log_at cfg (content d) []" using assms(2) by (simp add: log_at_def)
  then show ?thesis using assms unfolding log_disk_def by (intro conjI exI[of _ "[]"]) (simp_all add: crash_client)
qed

text \<open>
  C2. Durability of the write-ahead log. Start from a consistent simulated disk without a log and, any number of times, open
  the log as the engine does, make strict appends one after the other, stopping at the first that fails, and crash.
  Any disk operation may fail as the fault schedule says, except that no write is torn, and fewer than 2^64 - 1 appends
  are attempted in all. Then recovery succeeds without warnings, its records are numbered from 1 on without gaps,
  every append that was acknowledged, directly or through group commit, is among them under the number it was
  acknowledged with, and there is no record that was not appended.
\<close>

theorem acknowledged_appends_survive:
  assumes "disk_ok d0" and "\<forall>q. prefix ''wal/'' q \<longrightarrow> content d0 q = None \<and> \<not> entry_durable d0 q"
    and "length (concat xss) < 2 ^ 64 - 1" and "wal_life cfg xss d0 = (acks, d)"
  shows "\<exists>rep d'. recover_wal cfg d = (Inr rep, d') \<and> rep_warnings rep = [] \<and>
    map (\<lambda>r. wr_lsn (rr_record r)) (rep_records rep) = map (\<lambda>i. of_nat (Suc i)) [0..<length (rep_records rep)] \<and>
    set acks \<subseteq> (\<lambda>r. (wr_lsn (rr_record r), wr_payload (rr_record r))) ` set (rep_records rep) \<and>
    (\<lambda>r. wr_payload (rr_record r)) ` set (rep_records rep) \<subseteq> (\<lambda>(_, _, p). p) ` set (concat xss)"
proof -
  have b: "1 + length (concat xss) < 2 ^ 64" "length [] + length (concat xss) < 2 ^ 64" using assms(3) by simp_all
  obtain m rs where h: "log_disk cfg m rs d" "set acks \<subseteq> entries_of rs" "wr_payload ` set rs \<subseteq> (\<lambda>(_, _, p). p) ` set (concat xss)"
    using wal_life_ok[OF log_disk_none[OF assms(1,2)] order_refl b assms(4)] by auto
  obtain segs where segs: "disk_ok d" "log_at cfg (content d) segs" "records_of segs = rs" using h(1) by (auto simp: log_disk_def)
  obtain rep d' where r: "recover_wal cfg d = (Inr rep, d')" "reports_more empty_report rs rep"
    using recover_wal_ok[OF segs(1,2)] segs(3) by blast
  have rs: "map rr_record (rep_records rep) = rs" "rep_warnings rep = []" using r(2) by (simp_all add: reports_more_def empty_report_def)
  have "map wr_lsn rs = map (\<lambda>i. of_nat (Suc i)) [0..<length rs]"
    using segs(2,3) lsns_from_nth[of 1 rs] by (intro nth_equalityI) (auto simp: log_at_def)
  then have "map (\<lambda>r. wr_lsn (rr_record r)) (rep_records rep) = map (\<lambda>i. of_nat (Suc i)) [0..<length (rep_records rep)]"
    by (simp add: rs(1)[symmetric] comp_def)
  moreover have "(\<lambda>r. (wr_lsn (rr_record r), wr_payload (rr_record r))) ` set (rep_records rep) = entries_of rs"
    "(\<lambda>r. wr_payload (rr_record r)) ` set (rep_records rep) = wr_payload ` set rs"
    by (simp_all add: rs(1)[symmetric] image_image)
  ultimately show ?thesis using r(1) rs(2) h(2,3) by (intro exI[of _ rep] exI[of _ d']) simp
qed

section \<open>Concrete runs\<close>

text \<open>A disk whose third write operation, a sync, fails.\<close>

definition flaky_disk :: sim_state where
  "flaky_disk = with_faults \<lparr>seed = 0, rules = [\<lparr>operation_index = 2, fault = FsyncFault\<rparr>]\<rparr>"

text \<open>What a single-segment run on that disk looks like: one file, no batch, the disk's fault still scheduled or past.\<close>

definition one_file :: "bytes \<Rightarrow> bytes \<Rightarrow> u64 \<Rightarrow> sim_state \<Rightarrow> bool" where
  "one_file v st n d \<longleftrightarrow> files d = [(seg_name 1, \<lparr>volatile = v, stable = st\<rparr>)] \<and> write_op_count d = n \<and>
    fault_schedule d = Some \<lparr>seed = 0, rules = [\<lparr>operation_index = 2, fault = FsyncFault\<rparr>]\<rparr> \<and> \<not> strict_namespace d \<and>
    durable_names d = [] \<and> shadow d = []"

definition unbatched_writer :: "nat \<Rightarrow> bool \<Rightarrow> wal_writer \<Rightarrow> bool" where
  "unbatched_writer len sy w \<longleftrightarrow> ww_config w = default_wal_config \<and> active_segment_id w = 1 \<and>
    active_path w = RelativePath (seg_name 1) \<and> active_len w = len \<and> active_dir_synced w = sy \<and> next_lsn w = 1 \<and>
    next_sequence w = 1 \<and> \<not> batch_enabled (batch w)"

lemma record_event_fields [simp]:
  "write_op_count (record_event a p b c e f d) = write_op_count d"
  "fault_schedule (record_event a p b c e f d) = fault_schedule d"
  by (simp_all add: record_event_def)

lemma small_record:
  assumes "unbatched_writer len sy w"
  shows "\<exists>bs. append_encode (Put [k] [v]) w = Inr bs \<and> length bs = 50 \<and> encode_record (new_record 1 1 (Put [k] [v])) = Inr bs"
proof -
  obtain bs where bs: "encode_record (new_record 1 1 (Put [k] [v])) = Inr bs"
    "length bs = WAL_HEADER_LEN + payload_len (wr_payload (new_record 1 1 (Put [k] [v])))"
    using encode_record_total[of "new_record 1 1 (Put [k] [v])"] by (auto simp: new_record_def)
  have l: "length bs = 50" using bs(2) by (simp add: new_record_def WAL_HEADER_LEN_def)
  then show ?thesis using assms bs(1)
    by (simp add: append_encode_def unbatched_writer_def u32_try_from_def default_wal_config_def)
qed

lemma first_append:
  assumes w: "unbatched_writer 0 False w"
  shows "\<exists>bs w1 d1. wal_append now us (Put [k] [v]) Strict w flaky_disk = (AppendFailed FsyncFailed, w1, d1) \<and>
    encode_record (new_record 1 1 (Put [k] [v])) = Inr bs \<and> length bs = 50 \<and>
    unbatched_writer 0 True w1 \<and> one_file bs [] 3 d1"
proof -
  obtain bs where bs: "append_encode (Put [k] [v]) w = Inr bs" "length bs = 50" "encode_record (new_record 1 1 (Put [k] [v])) = Inr bs"
    using small_record[OF w] by blast
  show ?thesis using w bs
    by (simp add: wal_append_def append_expire_def append_rotate_def append_write_def append_finish_def flush_strict_batch_def
        unbatched_writer_def one_file_def flaky_disk_def with_faults_def sim_disk_new_def append_file_def fsync_dir_def fsync_file_def
        take_fault_def file_or_default_def get_file_def put_file_def bt_empty_def default_sim_file_def wal_dir_path Let_def
        fail_flush_def batch_reset_def batch_enabled_def)
qed


lemma second_append:
  assumes w: "unbatched_writer 0 True w" and d: "one_file b1 st 3 d"
  shows "\<exists>bs r w1 d1. wal_append now us (Put [k] [v]) Strict w d = (Acked r, w1, d1) \<and> ar_durable r \<and> ar_lsn r = 1 \<and>
    encode_record (new_record 1 1 (Put [k] [v])) = Inr bs \<and> length bs = 50 \<and> one_file (b1 @ bs) (b1 @ bs) 5 d1"
proof -
  obtain bs where bs: "append_encode (Put [k] [v]) w = Inr bs" "length bs = 50" "encode_record (new_record 1 1 (Put [k] [v])) = Inr bs"
    using small_record[OF w] by blast
  show ?thesis using w bs d
    by (simp add: wal_append_def append_expire_def append_rotate_def append_write_def append_finish_def flush_strict_batch_def
        unbatched_writer_def one_file_def append_file_def fsync_file_def take_fault_def file_or_default_def get_file_def
        bt_get_def put_file_def Let_def)
qed

lemma recover_duplicate_lsn:
  assumes d: "one_file (encs [r1] @ encs [r2]) st n d" and r: "fits cfg r1" "fits cfg r2" "wr_lsn r1 = 1" "wr_lsn r2 = 1"
  shows "\<exists>rep d'. recover_wal cfg d = (Inr rep, d') \<and> map rr_record (rep_records rep) = [r1] \<and>
    rep_warnings rep = [NonMonotonicLsn (of_nat (length (encs [r1]))) 2 1,
      TailTruncated (seg_name 1) (of_nat (length (encs [r1]))) (of_nat (length (encs [r2])))]"
proof -
  have ok: "disk_ok d" using d by (simp add: one_file_def disk_ok_def disk_inv_def no_torn_writes_def bt_inv_def)
  have c: "content d q = (if q = seg_name 1 then Some (encs [r1] @ encs [r2]) else None)" for q
    using d by (simp add: one_file_def content_def get_file_def bt_get_def)
  have "layout (content d) (\<lambda>_. [r1, r2]) [1]" using encs_append[of "[r1]" "[r2]"] by (auto simp: layout_def c)
  then obtain es where es: "list_dir (RelativePath ''wal'') d = Inr es" "wal_segments es = map (\<lambda>i. (i, RelativePath (seg_name i))) [1]"
    using list_dir_layout[OF ok] by blast
  have ne: "encs [r1] \<noteq> []" "encs [r2] \<noteq> []" using fits_decode(2) r by blast+
  obtain d1 where d1: "read_at (RelativePath (seg_name 1)) 0 (length (encs [r1] @ encs [r2])) d = (Inr (encs [r1] @ encs [r2]), d1)" "same_disk d d1"
    using read_at_whole[of d "RelativePath (seg_name 1)"] c ne by auto
  have "get_file d1 (seg_name 1) \<noteq> None" using d1(2) c[of "seg_name 1"] by (metis content_def same_disk_def option.simps(3) option.map_disc_iff)
  then obtain d2 where d2: "truncate_file (RelativePath (seg_name 1)) (length (encs [r1])) d1 = (Inr (), d2)"
    by (auto simp: truncate_file_def Let_def)
  have s2: "scan_records (max_record_bytes cfg) 1 (encs [r1] @ encs [r2]) (length (encs [r1])) (Some 2) rep =
      (rep\<lparr>rep_warnings := rep_warnings rep @ [NonMonotonicLsn (of_nat (length (encs [r1]))) 2 1]\<rparr>, Some 2, length (encs [r1]), True)" for rep
    using fits_decode(1)[OF r(2), of "[]"] ne r(4) by (subst scan_records.simps) simp
  have s1: "scan_records (max_record_bytes cfg) 1 (encs [r1] @ encs [r2]) 0 None rep =
      scan_records (max_record_bytes cfg) 1 (encs [r1] @ encs [r2]) (length (encs [r1])) (Some 2)
        (rep\<lparr>last_lsn := Some 1, rep_records := rep_records rep @ [\<lparr>rr_segment_id = 1, rr_offset = 0, rr_record = r1\<rparr>]\<rparr>)" for rep
    using fits_decode(1)[OF r(1)] ne r(3) by (subst scan_records.simps) (simp add: lsn_next_def)
  show ?thesis
    using es d1(1) d2 ne by (simp add: recover_wal_def wal_dir_path file_len_content c s1 s2 Let_def empty_report_def)
qed


lemma crash_one_file: "one_file v st n d \<Longrightarrow> one_file st st n (snd (crash d))"
  by (simp add: one_file_def crash_def Let_def)

lemma open_flaky: "\<exists>w. wal_open default_wal_config flaky_disk = Inr w \<and> unbatched_writer 0 False w"
proof -
  have "list_dir (RelativePath ''wal'') flaky_disk = Inr []" "file_len p flaky_disk = Inl NotFound" for p
    by (simp_all add: flaky_disk_def with_faults_def sim_disk_new_def list_dir_def file_len_def get_file_def bt_empty_def)
  then show ?thesis
    by (simp add: wal_open_def wal_open_at_def wal_dir_path segment_path_eq unbatched_writer_def LSN_FIRST_def SEQ_FIRST_def
        batch_enabled_def batch_new_def default_wal_config_def default_wal_batch_config_def)
qed

lemma small_fits: "encode_record (new_record 1 1 p) = Inr bs \<Longrightarrow> length bs = 50 \<Longrightarrow> fits default_wal_config (new_record 1 1 p)"
  by (simp add: fits_def new_record_def default_wal_config_def)

lemma open_new: "\<exists>w. open_after_recovery default_wal_config sim_disk_new = (Inr w, sim_disk_new) \<and> unbatched_writer 0 False w"
proof -
  have "list_dir (RelativePath ''wal'') sim_disk_new = Inr []" "file_len p sim_disk_new = Inl NotFound" for p
    by (simp_all add: sim_disk_new_def list_dir_def file_len_def get_file_def bt_empty_def)
  then show ?thesis
    by (simp add: open_after_recovery_def recover_wal_def wal_segments_def List.map_filter_simps empty_report_def wal_open_at_def
        wal_dir_path segment_path_eq unbatched_writer_def LSN_FIRST_def SEQ_FIRST_def batch_enabled_def batch_new_def
        default_wal_config_def default_wal_batch_config_def)
qed

lemma one_append_acknowledged: "\<exists>d. wal_life default_wal_config [[(0, 0, Put [1] [2])]] sim_disk_new = ([(1, Put [1] [2])], d)"
proof -
  obtain w where w: "open_after_recovery default_wal_config sim_disk_new = (Inr w, sim_disk_new)" "unbatched_writer 0 False w"
    using open_new by blast
  obtain bs where bs: "append_encode (Put [1] [2]) w = Inr bs" using small_record[OF w(2)] by blast
  have "\<exists>r w1 d1. wal_append 0 0 (Put [1] [2]) Strict w sim_disk_new = (Acked r, w1, d1) \<and> ar_lsn r = 1"
    using w(2) bs
    by (simp add: wal_append_def append_expire_def append_rotate_def append_write_def append_finish_def flush_strict_batch_def
        unbatched_writer_def sim_disk_new_def append_file_def fsync_dir_def fsync_file_def take_fault_def file_or_default_def
        get_file_def put_file_def bt_empty_def default_sim_file_def wal_dir_path record_event_def bt_get_def Let_def)
  then show ?thesis using w(1) by (auto simp: wal_life_step_def List.map_filter_simps)
qed

theorem acknowledged_appends_survive_witness:
  "\<exists>rep d'. recover_wal default_wal_config (snd (wal_life default_wal_config [[(0, 0, Put [1] [2])]] sim_disk_new)) = (Inr rep, d') \<and>
    (1, Put [1] [2]) \<in> (\<lambda>r. (wr_lsn (rr_record r), wr_payload (rr_record r))) ` set (rep_records rep)"
proof -
  have ok: "disk_ok sim_disk_new"
    by (simp add: disk_ok_def disk_inv_def no_torn_writes_def sim_disk_new_def bt_empty_def)
  have none: "\<forall>q. prefix ''wal/'' q \<longrightarrow> content sim_disk_new q = None \<and> \<not> entry_durable sim_disk_new q"
    by (simp add: content_def entry_durable_def get_file_def bt_contains_def sim_disk_new_def bt_empty_def)
  obtain d where d: "wal_life default_wal_config [[(0, 0, Put [1] [2])]] sim_disk_new = ([(1, Put [1] [2])], d)"
    using one_append_acknowledged by blast
  have len: "length (concat [[(0 :: nat, 0 :: u64, Put [1] [2])]]) < 2 ^ 64 - 1" by simp
  from acknowledged_appends_survive[OF ok none len d] show ?thesis unfolding d snd_conv by auto
qed

text \<open>
  C6. A writer that is used again after a failed append can lose an acknowledged one. When the sync of an append fails,
  its record stays in the segment while the writer keeps its LSN for the next append. With the default configuration
  and one failing sync, the next append is acknowledged as durable under the same LSN; after a crash, recovery keeps
  the record of the append that failed, takes the acknowledged one for a break in the numbering, and cuts it off.
\<close>

theorem append_after_failed_sync_lost:
  "\<exists>w w1 d1 r w2 d2 rep d3. wal_open default_wal_config flaky_disk = Inr w \<and>
    wal_append 0 0 (Put [1] [1]) Strict w flaky_disk = (AppendFailed FsyncFailed, w1, d1) \<and>
    wal_append 0 0 (Put [2] [2]) Strict w1 d1 = (Acked r, w2, d2) \<and> ar_durable r \<and>
    recover_wal default_wal_config (snd (crash d2)) = (Inr rep, d3) \<and>
    map (\<lambda>r. wr_payload (rr_record r)) (rep_records rep) = [Put [1] [1]]"
proof -
  obtain w where w: "wal_open default_wal_config flaky_disk = Inr w" "unbatched_writer 0 False w" using open_flaky by blast
  obtain b1 w1 d1 where a1: "wal_append 0 0 (Put [1] [1]) Strict w flaky_disk = (AppendFailed FsyncFailed, w1, d1)"
    "encode_record (new_record 1 1 (Put [1] [1])) = Inr b1" "length b1 = 50" "unbatched_writer 0 True w1" "one_file b1 [] 3 d1"
    using first_append[OF w(2)] by blast
  obtain b2 r w2 d2 where a2: "wal_append 0 0 (Put [2] [2]) Strict w1 d1 = (Acked r, w2, d2)" "ar_durable r"
    "encode_record (new_record 1 1 (Put [2] [2])) = Inr b2" "length b2 = 50" "one_file (b1 @ b2) (b1 @ b2) 5 d2"
    using second_append[OF a1(4,5)] by blast
  have f: "fits default_wal_config (new_record 1 1 (Put [1] [1]))" "fits default_wal_config (new_record 1 1 (Put [2] [2]))"
    using small_fits a1(2,3) a2(3,4) by blast+
  have l: "wr_lsn (new_record 1 1 p) = 1" for p by (simp add: new_record_def)
  have "one_file (encs [new_record 1 1 (Put [1] [1])] @ encs [new_record 1 1 (Put [2] [2])]) (b1 @ b2) 5 (snd (crash d2))"
    using crash_one_file[OF a2(5)] by (simp add: encs_single[OF a1(2)] encs_single[OF a2(3)])
  from recover_duplicate_lsn[OF this f l l] obtain rep d3 where rec: "recover_wal default_wal_config (snd (crash d2)) = (Inr rep, d3)"
    "map rr_record (rep_records rep) = [new_record 1 1 (Put [1] [1])]"
    by (elim exE conjE)
  have "map (\<lambda>r. wr_payload (rr_record r)) (rep_records rep) = map wr_payload (map rr_record (rep_records rep))" by (simp add: comp_def)
  also have "\<dots> = [Put [1] [1]]" by (simp add: rec(2) new_record_def)
  finally show ?thesis using w(1) a1(1) a2(1,2) rec(1)
    by (intro exI[of _ w] exI[of _ w1] exI[of _ d1] exI[of _ r] exI[of _ w2] exI[of _ d2] exI[of _ rep] exI[of _ d3]) simp
qed

end
