(* ===== verification/Internal_Key.thy ===== *)
theory Internal_Key
  imports Kaya_Core Btree_Map "HOL-Library.Sublist"
begin

text \<open>
  Versioned keys, \<^verbatim>\<open>src/crates/kaya-lsm/src/internal_key.rs\<close>: the typed key with its order (user key
  ascending, commit timestamp descending) and its wire form. The wire form can be taken apart again and
  orders the versions of one key correctly; across keys it need not agree with the typed order,
  which is why the memtable is keyed by the typed key.
\<close>

definition COMMIT_TS_LEN :: nat where "COMMIT_TS_LEN = 8"

datatype internal_key = InternalKey (user_key: bytes) (commit_ts: u64)

instantiation internal_key :: linorder
begin

definition less_internal_key :: "internal_key \<Rightarrow> internal_key \<Rightarrow> bool" where
  "less_internal_key a b \<longleftrightarrow>
    user_key a < user_key b \<or> user_key a = user_key b \<and> commit_ts b < commit_ts a"

definition less_eq_internal_key :: "internal_key \<Rightarrow> internal_key \<Rightarrow> bool" where
  "less_eq_internal_key a b \<longleftrightarrow>
    user_key a < user_key b \<or> user_key a = user_key b \<and> commit_ts b \<le> commit_ts a"

instance
  by standard (auto simp: less_internal_key_def less_eq_internal_key_def internal_key.expand)

end

lemmas internal_key_order = less_internal_key_def less_eq_internal_key_def

definition encode_internal_key :: "bytes \<Rightarrow> u64 \<Rightarrow> bytes" where
  "encode_internal_key uk ts = uk @ u64_be (- 1 - ts)"

definition ik_encode :: "internal_key \<Rightarrow> bytes" where
  "ik_encode k = encode_internal_key (user_key k) (commit_ts k)"

definition user_key_of :: "bytes \<Rightarrow> bytes" where
  "user_key_of ik =
    (if length ik < COMMIT_TS_LEN then ik else take (length ik - COMMIT_TS_LEN) ik)"

definition commit_ts_of :: "bytes \<Rightarrow> u64" where
  "commit_ts_of ik =
    (if length ik < COMMIT_TS_LEN then 0 else - 1 - from_be (drop (length ik - COMMIT_TS_LEN) ik))"

definition matches_user_key :: "bytes \<Rightarrow> bytes \<Rightarrow> bool" where
  "matches_user_key ik uk \<longleftrightarrow> user_key_of ik = uk"

section \<open>The order of big-endian encodings\<close>

definition be_value :: "bytes \<Rightarrow> nat" where
  "be_value bs = foldl (\<lambda>a b. a * 256 + unat b) 0 bs"

lemma foldl_be: "foldl (\<lambda>a b. a * 256 + unat b) n bs = n * 256 ^ length bs + be_value bs"
proof (induction bs arbitrary: n)
  case (Cons b bs)
  show ?case using Cons[of "n * 256 + unat b"] Cons[of "unat b"]
    by (simp add: be_value_def algebra_simps)
qed (simp add: be_value_def)

lemma be_value_Cons: "be_value (b # bs) = unat b * 256 ^ length bs + be_value bs"
  using foldl_be[of "unat b" bs] by (simp add: be_value_def)

lemma be_value_bound: "be_value bs < 256 ^ length bs"
proof (induction bs)
  case (Cons b bs)
  have "unat b \<le> 255" using unsigned_less[of b, where ?'a = nat] by simp
  then have "unat b * 256 ^ length bs \<le> 255 * 256 ^ length bs" by (rule mult_le_mono1)
  then show ?case using Cons unfolding be_value_Cons length_Cons power_Suc by linarith
qed (simp add: be_value_def)

lemma lex_be_value: "length xs = length ys \<Longrightarrow> xs < ys \<longleftrightarrow> be_value xs < be_value ys"
proof (induction xs ys rule: list_induct2)
  case (Cons x xs y ys)
  have b: "be_value xs < 256 ^ length ys" "be_value ys < 256 ^ length ys"
    using be_value_bound[of xs] be_value_bound[of ys] Cons.hyps by simp_all
  consider "x < y" | "x = y" | "y < x" by fastforce
  then show ?case
  proof cases
    case 1
    then have "(unat x + 1) * 256 ^ length ys \<le> unat y * 256 ^ length ys"
      by (intro mult_le_mono1) (simp add: word_less_nat_alt)
    then show ?thesis using b 1 Cons.hyps by (simp add: be_value_Cons)
  next
    case 2
    then show ?thesis using Cons by (simp add: be_value_Cons)
  next
    case 3
    then have "(unat y + 1) * 256 ^ length ys \<le> unat x * 256 ^ length ys"
      by (intro mult_le_mono1) (simp add: word_less_nat_alt)
    then show ?thesis using b 3 Cons.hyps by (auto simp: be_value_Cons)
  qed
qed (simp add: be_value_def)

lemma be_value_snoc: "be_value (bs @ [b]) = be_value bs * 256 + unat b"
  by (simp add: be_value_def)

lemma be_value_to_be: "be_value (to_be n w) = unat w mod 256 ^ n" for w :: u64
proof (induction n arbitrary: w)
  case (Suc n)
  have "unat (drop_bit 8 w) = unat w div 256"
    by (simp add: drop_bit_eq_div unat_div)
  moreover have "unat (ucast w :: u8) = unat w mod 256"
    by (simp add: unsigned_ucast_eq take_bit_eq_mod)
  ultimately have "be_value (to_be (Suc n) w) = (unat w div 256 mod 256 ^ n) * 256 + unat w mod 256"
    using Suc[of "drop_bit 8 w"] by (simp add: to_be_def be_value_snoc)
  then show ?case by (simp add: mod_mult2_eq)
qed (simp add: be_value_def to_be_def)

lemma to_be_less_iff: "u64_be a < u64_be b \<longleftrightarrow> a < b"
proof -
  have "unat w < 256 ^ 8" for w :: u64 using unsigned_less[of w, where ?'a = nat] by simp
  then show ?thesis
    by (simp add: lex_be_value be_value_to_be word_less_nat_alt)
qed

section \<open>Prefixes and the lexicographic order\<close>

lemma append_less_append_iff: "xs @ ys < xs @ zs \<longleftrightarrow> ys < (zs :: bytes)"
  by (induction xs) auto

lemma le_append: "p \<le> p @ (x :: bytes)"
  by (induction p) auto

lemma prefix_le: "prefix p x \<Longrightarrow> p \<le> (x :: bytes)"
  by (auto simp: prefix_def le_append)

lemma prefix_convex:
  "p \<le> x \<Longrightarrow> x \<le> y \<Longrightarrow> prefix p y \<Longrightarrow> prefix p (x :: bytes)"
proof (induction p arbitrary: x y)
  case (Cons a p)
  then show ?case by (cases x; cases y) auto
qed simp

section \<open>Wire form\<close>

lemma user_key_of_encode [simp]: "user_key_of (encode_internal_key uk ts) = uk"
  by (simp add: user_key_of_def encode_internal_key_def COMMIT_TS_LEN_def)

lemma commit_ts_of_encode [simp]: "commit_ts_of (encode_internal_key uk ts) = ts"
  by (simp add: commit_ts_of_def encode_internal_key_def COMMIT_TS_LEN_def)

lemma inverted_less_iff: "- 1 - a < - 1 - b \<longleftrightarrow> b < (a :: u64)"
proof -
  have "unat (- 1 - w :: u64) = 2 ^ 64 - 1 - unat w" for w :: u64
    by (simp add: unat_sub unsigned_minus_1_eq_mask mask_eq_exp_minus_1)
  moreover have "unat a < 2 ^ 64" "unat b < 2 ^ 64"
    using unsigned_less[of a, where ?'a = nat] unsigned_less[of b, where ?'a = nat] by simp_all
  ultimately show ?thesis by (simp add: word_less_nat_alt) linarith
qed

lemma encode_same_key_less:
  "encode_internal_key uk a < encode_internal_key uk b \<longleftrightarrow> InternalKey uk a < InternalKey uk b"
  by (simp add: encode_internal_key_def append_less_append_iff to_be_less_iff inverted_less_iff less_internal_key_def)

text \<open>
  C13. The wire form of a versioned key determines the key, and sorts the versions of one user key newest
  first, as the typed order does. Across user keys the two orders can disagree:
  \<^verbatim>\<open>user\<close> sorts before \<^verbatim>\<open>user:1\<close>, but its encoding at timestamp 1 sorts after.
\<close>

theorem internal_key_wire:
  "user_key_of (ik_encode k) = user_key k \<and> commit_ts_of (ik_encode k) = commit_ts k \<and>
   (ik_encode (InternalKey uk a) < ik_encode (InternalKey uk b) \<longleftrightarrow> InternalKey uk a < InternalKey uk b) \<and>
   InternalKey (as_bytes ''user'') 1 < InternalKey (as_bytes ''user:1'') 1 \<and>
   ik_encode (InternalKey (as_bytes ''user:1'') 1) < ik_encode (InternalKey (as_bytes ''user'') 1)"
proof (intro conjI)
  show "InternalKey (as_bytes ''user'') 1 < InternalKey (as_bytes ''user:1'') 1"
    by (simp add: less_internal_key_def as_bytes_def)
  show "ik_encode (InternalKey (as_bytes ''user:1'') 1) < ik_encode (InternalKey (as_bytes ''user'') 1)"
    by code_simp
qed (simp_all add: ik_encode_def encode_same_key_less)

end
