(* ===== verification/Memtable.thy ===== *)
theory Memtable
  imports Internal_Key
begin

text \<open>
  The multi-version memtable, \<^verbatim>\<open>src/crates/kaya-lsm/src/lib.rs\<close>: an ordered map from versioned keys
  to values and tombstones. Reads at a timestamp return the newest version that is not newer; scans
  return exactly the live keys under a prefix, in order.

  A versioned store with such reads is the locale \<^verbatim>\<open>mvcc_store\<close>, from which snapshot reads get their
  stability; the memtable is its interpretation.
\<close>

datatype value_record = VPut bytes u64 | VDelete u64

fun vr_sequence :: "value_record \<Rightarrow> u64" where
  "vr_sequence (VPut _ s) = s"
| "vr_sequence (VDelete s) = s"

record memtable =
  entries :: "(internal_key, value_record) btree_map"
  approximate_bytes :: nat

definition memtable_new :: memtable where
  "memtable_new = \<lparr>entries = bt_empty, approximate_bytes = 0\<rparr>"

definition entry_size :: "internal_key \<Rightarrow> value_record \<Rightarrow> nat" where
  "entry_size k r = length (user_key k) + COMMIT_TS_LEN + (case r of VPut v _ \<Rightarrow> length v | VDelete _ \<Rightarrow> 0)"

definition mt_insert :: "internal_key \<Rightarrow> value_record \<Rightarrow> memtable \<Rightarrow> memtable" where
  "mt_insert internal new_rec m =
    (let old_size = (case bt_get internal (entries m) of None \<Rightarrow> 0 | Some r \<Rightarrow> entry_size internal r);
         new_size = entry_size internal new_rec
     in m\<lparr>entries := bt_insert internal new_rec (entries m),
          approximate_bytes := (approximate_bytes m - old_size) + new_size\<rparr>)"

definition mt_put :: "bytes \<Rightarrow> bytes \<Rightarrow> u64 \<Rightarrow> memtable \<Rightarrow> memtable" where
  "mt_put key v sequence m = mt_insert (InternalKey key sequence) (VPut v sequence) m"

definition mt_delete :: "bytes \<Rightarrow> u64 \<Rightarrow> memtable \<Rightarrow> memtable" where
  "mt_delete key sequence m = mt_insert (InternalKey key sequence) (VDelete sequence) m"

definition mt_get_at :: "memtable \<Rightarrow> bytes \<Rightarrow> u64 \<Rightarrow> value_record option" where
  "mt_get_at m key read_ts =
    (case bt_range_from (InternalKey key read_ts) (entries m) of
       [] \<Rightarrow> None
     | (ik, r) # _ \<Rightarrow> if user_key ik \<noteq> key then None else Some r)"

definition mt_get :: "memtable \<Rightarrow> bytes \<Rightarrow> value_record option" where
  "mt_get m key = mt_get_at m key (- 1)"

definition iter_prefix ::
  "(internal_key, value_record) btree_map \<Rightarrow> bytes \<Rightarrow> (internal_key \<times> value_record) list" where
  "iter_prefix es pfx = (if pfx = [] then es else bt_range_from (InternalKey pfx (- 1)) es)"

fun scan_loop ::
  "bytes \<Rightarrow> u64 \<Rightarrow> (internal_key \<times> value_record) list \<Rightarrow> bytes option \<Rightarrow> bool \<Rightarrow> (bytes \<times> bytes) list" where
  "scan_loop pfx read_ts [] current_uk selected = []"
| "scan_loop pfx read_ts ((ik, r) # es) current_uk selected =
    (let uk = user_key ik
     in if pfx \<noteq> [] \<and> \<not> prefix pfx uk then []
        else
          let is_new_user = (current_uk \<noteq> Some uk);
              current_uk' = (if is_new_user then Some uk else current_uk);
              selected' = (if is_new_user then False else selected)
          in if selected' then scan_loop pfx read_ts es current_uk' selected'
             else if commit_ts ik > read_ts then scan_loop pfx read_ts es current_uk' selected'
             else (case r of VPut v _ \<Rightarrow> [(uk, v)] | VDelete _ \<Rightarrow> [])
                    @ scan_loop pfx read_ts es current_uk' True)"

definition scan_prefix_at :: "memtable \<Rightarrow> bytes \<Rightarrow> u64 \<Rightarrow> (bytes \<times> bytes) list" where
  "scan_prefix_at m pfx read_ts = scan_loop pfx read_ts (iter_prefix (entries m) pfx) None False"

definition mt_scan_prefix :: "memtable \<Rightarrow> bytes \<Rightarrow> (bytes \<times> bytes) list" where
  "mt_scan_prefix m pfx = scan_prefix_at m pfx (- 1)"

definition raw_scan_prefix :: "memtable \<Rightarrow> bytes \<Rightarrow> (bytes \<times> bytes option \<times> u64) list" where
  "raw_scan_prefix m pfx =
    map (\<lambda>(ik, r). case r of VPut v s \<Rightarrow> (user_key ik, Some v, s) | VDelete s \<Rightarrow> (user_key ik, None, s))
      (takeWhile (\<lambda>(ik, r). pfx = [] \<or> prefix pfx (user_key ik)) (iter_prefix (entries m) pfx))"

fun latest_loop :: "(internal_key \<times> value_record) list \<Rightarrow> bytes option \<Rightarrow> (bytes \<times> value_record) list" where
  "latest_loop [] last_uk = []"
| "latest_loop ((ik, r) # es) last_uk =
    (if last_uk = Some (user_key ik) then latest_loop es last_uk
     else (user_key ik, r) # latest_loop es (Some (user_key ik)))"

definition iter_latest_user :: "memtable \<Rightarrow> (bytes \<times> value_record) list" where
  "iter_latest_user m = latest_loop (entries m) None"

definition mt_len :: "memtable \<Rightarrow> nat" where
  "mt_len m = length (entries m)"

definition mt_is_empty :: "memtable \<Rightarrow> bool" where
  "mt_is_empty m \<longleftrightarrow> entries m = []"

section \<open>Invariant\<close>

text \<open>
  The entries are ordered, each record carries the sequence number of its key, and the size
  estimate is the sum of the entry sizes.
\<close>

definition mt_inv :: "memtable \<Rightarrow> bool" where
  "mt_inv m \<longleftrightarrow> bt_inv (entries m) \<and> (\<forall>(ik, r) \<in> set (entries m). vr_sequence r = commit_ts ik) \<and>
    approximate_bytes m = sum_list (map (\<lambda>(ik, r). entry_size ik r) (entries m))"

lemma set_bt_insert: "bt_inv m \<Longrightarrow> set (bt_insert k v m) \<subseteq> insert (k, v) (set m)"
  by (induction k v m rule: bt_insert.induct) (auto simp: bt_inv_Cons)

lemma sum_list_bt_insert:
  "bt_inv m \<Longrightarrow> sum_list (map (\<lambda>(k, v). f k v) (bt_insert k v m)) + (case bt_get k m of None \<Rightarrow> 0 | Some v' \<Rightarrow> f k v') =
    sum_list (map (\<lambda>(k, v). f k v) m) + (f k v :: nat)"
proof (induction k v m rule: bt_insert.induct)
  case (2 k v k' v' m)
  have "bt_get k m = None" if "k < k'" using 2(2) that by (auto simp: bt_get_None_iff bt_inv_Cons)
  then show ?case using 2 by (auto simp: bt_inv_Cons bt_get_def split: option.splits)
qed simp

lemma sum_list_bt_get: "bt_get k m = Some v \<Longrightarrow> f k v \<le> sum_list (map (\<lambda>(k, v). f k v :: nat) m)"
  using member_le_sum_list[of "f k v" "map (\<lambda>(k, v). f k v) m"] by (force dest: bt_get_mem)

lemma mt_inv_new: "mt_inv memtable_new"
  by (simp add: mt_inv_def memtable_new_def bt_empty_def)

lemma mt_inv_insert:
  assumes "mt_inv m" "vr_sequence r = commit_ts k"
  shows "mt_inv (mt_insert k r m)"
proof -
  have inv: "bt_inv (entries m)" using assms by (simp add: mt_inv_def)
  have "\<forall>(ik, r') \<in> set (bt_insert k r (entries m)). vr_sequence r' = commit_ts ik"
    using set_bt_insert[OF inv, of k r] assms by (auto simp: mt_inv_def)
  moreover have "(approximate_bytes m - (case bt_get k (entries m) of None \<Rightarrow> 0 | Some r \<Rightarrow> entry_size k r)) + entry_size k r
      = sum_list (map (\<lambda>(ik, r). entry_size ik r) (bt_insert k r (entries m)))"
    using sum_list_bt_insert[OF inv, of entry_size k r] sum_list_bt_get[of k "entries m" _ entry_size] assms
    by (auto simp: mt_inv_def split: option.splits)
  ultimately show ?thesis using inv by (simp add: mt_inv_def mt_insert_def Let_def)
qed

lemma mt_inv_put: "mt_inv m \<Longrightarrow> mt_inv (mt_put k v s m)"
  and mt_inv_delete: "mt_inv m \<Longrightarrow> mt_inv (mt_delete k s m)"
  by (simp_all add: mt_put_def mt_delete_def mt_inv_insert)

section \<open>Reads\<close>

text \<open>The first version of a key, in order, that is not newer than the read timestamp.\<close>

definition visible :: "(internal_key \<times> value_record) list \<Rightarrow> u64 \<Rightarrow> bytes \<Rightarrow> value_record option" where
  "visible es read_ts k = map_option snd (find (\<lambda>e. user_key (fst e) = k \<and> commit_ts (fst e) \<le> read_ts) es)"

lemma visible_simps [simp]:
  "visible [] rts k = None"
  "visible ((ik, r) # es) rts k = (if user_key ik = k \<and> commit_ts ik \<le> rts then Some r else visible es rts k)"
  by (simp_all add: visible_def)

lemma bt_inv_Cons_ik:
  "bt_inv ((ik, r) # es) \<Longrightarrow> bt_inv es \<and> (\<forall>e \<in> set es. ik < fst e) \<and> (\<forall>e \<in> set es. user_key ik \<le> user_key (fst e))"
  by (force simp: bt_inv_Cons less_internal_key_def)

lemma visible_None: "\<forall>e \<in> set es. user_key (fst e) \<noteq> k \<Longrightarrow> visible es rts k = None"
  by (auto simp: visible_def find_None_iff)

lemma get_at_visible_aux:
  "bt_inv es \<Longrightarrow>
    (case filter (\<lambda>e. InternalKey k rts \<le> fst e) es of [] \<Rightarrow> None
     | (ik, r) # _ \<Rightarrow> if user_key ik \<noteq> k then None else Some r) = visible es rts k"
proof (induction es)
  case (Cons e es)
  obtain ik r where e: "e = (ik, r)" by fastforce
  note I = bt_inv_Cons_ik[OF Cons.prems[unfolded e]]
  show ?case
  proof (cases "InternalKey k rts \<le> ik")
    case True
    have "visible es rts k = None" if "user_key ik \<noteq> k"
      using I True that by (intro visible_None) (auto simp: less_eq_internal_key_def)
    then show ?thesis using True by (auto simp: e less_eq_internal_key_def)
  next
    case False
    then show ?thesis using Cons.IH I by (auto simp: e less_eq_internal_key_def)
  qed
qed simp

lemma mt_get_at_visible: "mt_inv m \<Longrightarrow> mt_get_at m k rts = visible (entries m) rts k"
  using get_at_visible_aux[of "entries m" k rts]
  by (simp add: mt_get_at_def mt_inv_def bt_range_from_eq)

lemma visible_iff:
  assumes "bt_inv es"
  shows "visible es rts k = Some r \<longleftrightarrow>
    (\<exists>c \<le> rts. bt_get (InternalKey k c) es = Some r \<and> (\<forall>c'. c < c' \<and> c' \<le> rts \<longrightarrow> bt_get (InternalKey k c') es = None))"
  using assms
proof (induction es)
  case (Cons e es)
  obtain ik r0 where e: "e = (ik, r0)" by fastforce
  note I = bt_inv_Cons_ik[OF Cons.prems[unfolded e]]
  have g: "bt_get q (e # es) = (if q = ik then Some r0 else bt_get q es)" for q
    by (simp add: e bt_get_def)
  have later: "bt_get (InternalKey k c) es = None" if "user_key ik = k" "commit_ts ik \<le> c" for c
  proof -
    have "InternalKey k c \<le> ik" using that by (simp add: less_eq_internal_key_def)
    then show ?thesis using I by (force simp: bt_get_None_iff)
  qed
  show ?case
  proof (cases "user_key ik = k \<and> commit_ts ik \<le> rts")
    case True
    have "r0 = r" if "c \<le> rts" "bt_get (InternalKey k c) (e # es) = Some r"
      "\<forall>c'. c < c' \<and> c' \<le> rts \<longrightarrow> bt_get (InternalKey k c') (e # es) = None" for c
    proof (cases "InternalKey k c = ik")
      case False
      then have "c < commit_ts ik" using that(2) later[of c] True by (auto simp: g not_less[symmetric])
      then show ?thesis using that(3) True by (cases ik) (auto simp: g)
    qed (use that g in simp)
    moreover have "bt_get (InternalKey k (commit_ts ik)) (e # es) = Some r0" using True by (cases ik) (simp add: g)
    moreover have "bt_get (InternalKey k c') (e # es) = None" if "commit_ts ik < c'" for c'
      using later[of c'] True that by (cases ik) (auto simp: g)
    ultimately show ?thesis using True by (auto simp: e)
  next
    case False
    then have "bt_get (InternalKey k c) (e # es) = bt_get (InternalKey k c) es" if "c \<le> rts" for c
      using that by (cases ik) (auto simp: g)
    then show ?thesis using Cons.IH I False by (auto simp: e)
  qed
qed simp

section \<open>Scans\<close>

lemma scan_loop_spec:
  assumes "bt_inv es" and "pfx = [] \<or> (\<forall>e \<in> set es. pfx \<le> user_key (fst e))"
    and "\<And>u. cur = Some u \<Longrightarrow> \<forall>e \<in> set es. u \<le> user_key (fst e)"
  shows "set (scan_loop pfx rts es cur sel) =
      {(k, v). prefix pfx k \<and> \<not> (cur = Some k \<and> sel) \<and> (\<exists>s. visible es rts k = Some (VPut v s))}
    \<and> sorted_wrt (<) (map fst (scan_loop pfx rts es cur sel))"
  using assms
proof (induction es arbitrary: cur sel)
  case (Cons e es)
  obtain ik r where e: "e = (ik, r)" by fastforce
  note I = bt_inv_Cons_ik[OF Cons.prems(1)[unfolded e]]
  let ?uk = "user_key ik"
  have IH: "set (scan_loop pfx rts es (Some ?uk) b) =
      {(k, v). prefix pfx k \<and> \<not> (k = ?uk \<and> b) \<and> (\<exists>s. visible es rts k = Some (VPut v s))}
    \<and> sorted_wrt (<) (map fst (scan_loop pfx rts es (Some ?uk) b))" for b
    using Cons.IH[of "Some ?uk" b] I Cons.prems(2) by auto
  show ?case
  proof (cases "pfx \<noteq> [] \<and> \<not> prefix pfx ?uk")
    case True
    then have "\<not> prefix pfx (user_key (fst x))" if "x \<in> set (e # es)" for x
      using Cons.prems(2) I that prefix_convex[of pfx ?uk "user_key (fst x)"] by (auto simp: e)
    then have "visible (e # es) rts k = None" if "prefix pfx k" for k
      using that by (intro visible_None) blast
    then show ?thesis using True by (auto simp: e Let_def)
  next
    case False
    have gone: "visible es rts u = None" if "cur = Some u" "u \<noteq> ?uk" for u
    proof -
      have "u < ?uk" using Cons.prems(3)[OF that(1)] that(2) by (auto simp: e)
      then show ?thesis using I by (intro visible_None) (auto dest: order_trans)
    qed
    show ?thesis
    proof (cases "cur = Some ?uk \<and> sel")
      case True
      then show ?thesis using False IH[of True] by (auto simp: e Let_def)
    next
      case nsel: False
      have eq: "scan_loop pfx rts (e # es) cur sel =
          (if commit_ts ik \<le> rts then (case r of VPut v _ \<Rightarrow> [(?uk, v)] | VDelete _ \<Rightarrow> []) else [])
            @ scan_loop pfx rts es (Some ?uk) (commit_ts ik \<le> rts)"
        using nsel False by (cases "rts < commit_ts ik") (auto simp: e Let_def not_less simp flip: not_less)
      have gt: "?uk < k" if "k \<noteq> ?uk" "visible es rts k = Some x" for k x
        using that I visible_None[of es k rts] by force
      have so: "sorted_wrt (<) (map fst (scan_loop pfx rts (e # es) cur sel))"
        unfolding eq using IH[of "commit_ts ik \<le> rts"] gt by (cases r) auto
      have "visible (e # es) rts k = (if k = ?uk \<and> commit_ts ik \<le> rts then Some r else visible es rts k)" for k
        by (auto simp: e)
      then have "set (scan_loop pfx rts (e # es) cur sel) =
          {(k, v). prefix pfx k \<and> (\<exists>s. visible (e # es) rts k = Some (VPut v s))}"
        unfolding eq using IH[of "commit_ts ik \<le> rts"] False
        by (cases r; cases "commit_ts ik \<le> rts"; simp) (safe; auto split: if_splits)+
      moreover have "\<not> (cur = Some k \<and> sel)" if "visible (e # es) rts k \<noteq> None" for k
        using that gone[of k] nsel by (cases "k = ?uk") (auto simp: e)
      ultimately show ?thesis using so by auto
    qed
  qed
qed simp

lemma visible_filter:
  "(\<And>e. e \<in> set es \<Longrightarrow> user_key (fst e) = k \<Longrightarrow> P e) \<Longrightarrow> visible (filter P es) rts k = visible es rts k"
  by (induction es) (auto simp: visible_def)

lemma iter_prefix_props:
  assumes "bt_inv es"
  shows "bt_inv (iter_prefix es pfx)" "pfx = [] \<or> (\<forall>e \<in> set (iter_prefix es pfx). pfx \<le> user_key (fst e))"
    "prefix pfx k \<Longrightarrow> visible (iter_prefix es pfx) rts k = visible es rts k"
proof -
  have eq: "iter_prefix es pfx = (if pfx = [] then es else filter (\<lambda>e. InternalKey pfx (- 1) \<le> fst e) es)"
    using assms by (simp add: iter_prefix_def bt_range_from_eq)
  show "bt_inv (iter_prefix es pfx)" using assms by (simp add: eq)
  show "pfx = [] \<or> (\<forall>e \<in> set (iter_prefix es pfx). pfx \<le> user_key (fst e))"
    by (auto simp: eq less_eq_internal_key_def)
  show "visible (iter_prefix es pfx) rts k = visible es rts k" if "prefix pfx k"
    unfolding eq using prefix_le[OF that] by (auto intro!: visible_filter simp: less_eq_internal_key_def)
qed

lemma scan_prefix_at_spec:
  assumes "mt_inv m"
  shows "set (scan_prefix_at m pfx rts) = {(k, v). prefix pfx k \<and> (\<exists>s. mt_get_at m k rts = Some (VPut v s))}"
    and "sorted_wrt (<) (map fst (scan_prefix_at m pfx rts))"
proof -
  have inv: "bt_inv (entries m)" using assms by (simp add: mt_inv_def)
  note P = iter_prefix_props[OF inv, of pfx]
  show "set (scan_prefix_at m pfx rts) = {(k, v). prefix pfx k \<and> (\<exists>s. mt_get_at m k rts = Some (VPut v s))}"
    and "sorted_wrt (<) (map fst (scan_prefix_at m pfx rts))"
    using scan_loop_spec[OF P(1,2), of None rts False] P(3)
    by (auto simp: scan_prefix_at_def mt_get_at_visible[OF assms])
qed

lemma latest_loop_spec:
  assumes "bt_inv es" and "\<And>u. cur = Some u \<Longrightarrow> \<forall>e \<in> set es. u \<le> user_key (fst e)"
  shows "set (latest_loop es cur) = {(k, r). cur \<noteq> Some k \<and> visible es (- 1) k = Some r}
    \<and> sorted_wrt (<) (map fst (latest_loop es cur))"
  using assms
proof (induction es cur rule: latest_loop.induct)
  case (2 ik r es cur)
  note I = bt_inv_Cons_ik[OF "2.prems"(1)]
  show ?case
  proof (cases "cur = Some (user_key ik)")
    case True
    then show ?thesis using "2.IH"(1)[OF True] I "2.prems"(2) by auto
  next
    case False
    have IH: "set (latest_loop es (Some (user_key ik))) =
        {(k, r). user_key ik \<noteq> k \<and> visible es (- 1) k = Some r}
      \<and> sorted_wrt (<) (map fst (latest_loop es (Some (user_key ik))))"
      using "2.IH"(2)[OF False] I by auto
    have gone: "visible es (- 1) u = None" if "cur = Some u" for u
    proof -
      have "u < user_key ik" using "2.prems"(2)[OF that] False that by auto
      then show ?thesis using I by (intro visible_None) (auto dest: order_trans)
    qed
    have gt: "user_key ik < k" if "user_key ik \<noteq> k" "visible es (- 1) k \<noteq> None" for k
      using that I visible_None[of es k "- 1"] by force
    show ?thesis using IH False gone gt by (auto split: if_splits)
  qed
qed simp

section \<open>The interface\<close>

locale mvcc_store =
  fixes inv :: "'m \<Rightarrow> bool"
    and ver :: "'m \<Rightarrow> bytes \<Rightarrow> u64 \<Rightarrow> value_record option"
    and wr :: "bytes \<Rightarrow> u64 \<Rightarrow> value_record \<Rightarrow> 'm \<Rightarrow> 'm"
    and rd :: "'m \<Rightarrow> bytes \<Rightarrow> u64 \<Rightarrow> value_record option"
  assumes inv_wr: "inv m \<Longrightarrow> vr_sequence r = ts \<Longrightarrow> inv (wr k ts r m)"
    and ver_wr: "inv m \<Longrightarrow> ver (wr k ts r m) k' ts' = (if k' = k \<and> ts' = ts then Some r else ver m k' ts')"
    and rd_iff: "inv m \<Longrightarrow> rd m k ts = Some r \<longleftrightarrow>
      (\<exists>c \<le> ts. ver m k c = Some r \<and> (\<forall>c'. c < c' \<and> c' \<le> ts \<longrightarrow> ver m k c' = None))"
begin

lemma rd_cong:
  assumes "inv m" "inv m'" "\<And>c. c \<le> ts \<Longrightarrow> ver m k c = ver m' k c"
  shows "rd m k ts = rd m' k ts"
proof -
  have "rd m k ts = Some r \<longleftrightarrow> rd m' k ts = Some r" for r
    using assms by (auto simp: rd_iff)
  then show ?thesis by (metis not_None_eq)
qed

text \<open>A write in the future of a snapshot does not show in it.\<close>

lemma snapshot_stable:
  assumes "inv m" "vr_sequence r = ts" "rts < ts"
  shows "rd (wr k ts r m) k' rts = rd m k' rts"
  using assms by (intro rd_cong) (auto simp: inv_wr ver_wr)

text \<open>A write is what a read at or after it sees, until a newer version is written.\<close>

lemma read_latest_write:
  assumes "inv m" "vr_sequence r = ts" "ts \<le> rts" "\<And>c. ts < c \<Longrightarrow> c \<le> rts \<Longrightarrow> ver m k c = None"
  shows "rd (wr k ts r m) k rts = Some r"
  using assms by (auto simp: rd_iff inv_wr ver_wr intro!: exI[of _ ts])

lemma read_other_key:
  assumes "inv m" "vr_sequence r = ts" "k' \<noteq> k"
  shows "rd (wr k ts r m) k' rts = rd m k' rts"
  using assms by (intro rd_cong) (auto simp: inv_wr ver_wr)

end

definition mt_version :: "memtable \<Rightarrow> bytes \<Rightarrow> u64 \<Rightarrow> value_record option" where
  "mt_version m k ts = bt_get (InternalKey k ts) (entries m)"

interpretation memtable_store: mvcc_store mt_inv mt_version "\<lambda>k ts r m. mt_insert (InternalKey k ts) r m" mt_get_at
proof
  show "mt_inv m \<Longrightarrow> vr_sequence r = ts \<Longrightarrow> mt_inv (mt_insert (InternalKey k ts) r m)" for m r k ts
    by (simp add: mt_inv_insert)
  show "mt_inv m \<Longrightarrow> mt_version (mt_insert (InternalKey k ts) r m) k' ts' =
      (if k' = k \<and> ts' = ts then Some r else mt_version m k' ts')" for m r k ts k' ts'
    by (auto simp: mt_version_def mt_insert_def Let_def mt_inv_def)
  show "mt_inv m \<Longrightarrow> mt_get_at m k ts = Some r \<longleftrightarrow>
      (\<exists>c \<le> ts. mt_version m k c = Some r \<and> (\<forall>c'. c < c' \<and> c' \<le> ts \<longrightarrow> mt_version m k c' = None))" for m k ts r
    using mt_get_at_visible[of m k ts] visible_iff[of "entries m" ts k r] by (simp add: mt_version_def mt_inv_def)
qed

lemma mt_version_new: "mt_version memtable_new k c = None"
  by (simp add: memtable_new_def mt_version_def bt_empty_def)

lemma mt_version_write:
  assumes "mt_inv m"
  shows "mt_version (mt_put k v ts m) k' c = (if k' = k \<and> c = ts then Some (VPut v ts) else mt_version m k' c)"
    and "mt_version (mt_delete k ts m) k' c = (if k' = k \<and> c = ts then Some (VDelete ts) else mt_version m k' c)"
  unfolding mt_put_def mt_delete_def by (rule memtable_store.ver_wr[OF assms])+

section \<open>Properties\<close>

text \<open>
  C11. The memtable refines a versioned store. Its invariant (order, consistent sequence
  numbers, exact size estimate) holds initially and is kept by writes; an empty memtable has no version of any key; a
  put or a delete of a key at a timestamp sets the version of that key at that timestamp and leaves every other
  version as it was; a read at a timestamp returns the newest version not newer than it; so a write at a later
  timestamp changes no earlier snapshot, and is itself seen from its timestamp on until a newer version appears.
\<close>

theorem memtable_refines_mvcc:
  assumes "mt_inv m"
  shows "mt_inv memtable_new \<and> mt_inv (mt_put k v ts m) \<and> mt_inv (mt_delete k ts m) \<and>
    mt_version memtable_new k' c = None \<and>
    mt_version (mt_put k v ts m) k' c = (if k' = k \<and> c = ts then Some (VPut v ts) else mt_version m k' c) \<and>
    mt_version (mt_delete k ts m) k' c = (if k' = k \<and> c = ts then Some (VDelete ts) else mt_version m k' c) \<and>
    (mt_get_at m k rts = Some r \<longleftrightarrow>
      (\<exists>c \<le> rts. mt_version m k c = Some r \<and> (\<forall>c'. c < c' \<and> c' \<le> rts \<longrightarrow> mt_version m k c' = None))) \<and>
    (rts < ts \<longrightarrow> mt_get_at (mt_put k v ts m) k' rts = mt_get_at m k' rts \<and>
                   mt_get_at (mt_delete k ts m) k' rts = mt_get_at m k' rts) \<and>
    (ts \<le> rts \<and> (\<forall>c. ts < c \<and> c \<le> rts \<longrightarrow> mt_version m k c = None) \<longrightarrow>
      mt_get_at (mt_put k v ts m) k rts = Some (VPut v ts) \<and>
      mt_get_at (mt_delete k ts m) k rts = Some (VDelete ts))"
  using assms memtable_store.rd_iff[OF assms, of k rts r]
    memtable_store.snapshot_stable[OF assms, of _ ts rts k k'] memtable_store.read_latest_write[OF assms, of _ ts rts k]
  by (intro conjI mt_version_new mt_version_write)
    (simp_all add: mt_inv_new mt_inv_put mt_inv_delete, simp_all add: mt_put_def mt_delete_def)

theorem memtable_refines_mvcc_witness:
  "mt_get_at (mt_put [1] [7] 5 memtable_new) [1] 9 = Some (VPut [7] 5) \<and>
   mt_get_at (mt_put [1] [7] 5 memtable_new) [1] 4 = None"
proof -
  have "mt_inv memtable_new" by (rule mt_inv_new)
  moreover have "mt_version memtable_new [1] c = None" "mt_get_at memtable_new [1] 4 = None" for c
    by (simp_all add: memtable_new_def mt_version_def mt_get_at_def bt_empty_def bt_range_from_def)
  ultimately show ?thesis
    using memtable_refines_mvcc[of memtable_new "[1]" "[7]" 5 _ _ 9]
      memtable_refines_mvcc[of memtable_new "[1]" "[7]" 5 "[1]" _ 4]
    by simp
qed

text \<open>
  C12. A prefix scan at a timestamp returns each user key under the prefix at most once, in
  strictly ascending order, and returns exactly the keys whose read at that timestamp yields a value,
  with that value. Listing the newest version of each user key has the same shape and includes
  tombstones.
\<close>

theorem memtable_scan_exact:
  assumes "mt_inv m"
  shows "set (scan_prefix_at m pfx rts) = {(k, v). prefix pfx k \<and> (\<exists>s. mt_get_at m k rts = Some (VPut v s))} \<and>
    sorted_wrt (<) (map fst (scan_prefix_at m pfx rts)) \<and>
    set (iter_latest_user m) = {(k, r). mt_get m k = Some r} \<and>
    sorted_wrt (<) (map fst (iter_latest_user m))"
  using scan_prefix_at_spec[OF assms] latest_loop_spec[of "entries m" None] assms
  by (simp add: iter_latest_user_def mt_get_def mt_get_at_visible mt_inv_def)

theorem memtable_scan_exact_witness:
  "set (scan_prefix_at (mt_delete [2] 6 (mt_put [2] [8] 3 (mt_put [1] [7] 5 memtable_new))) [] 9) = {([1], [7])}"
proof -
  define m where "m = mt_delete [2] 6 (mt_put [2] [8] 3 (mt_put [1] [7] 5 memtable_new))"
  have inv: "mt_inv m" by (simp add: m_def mt_inv_new mt_inv_put mt_inv_delete)
  have es: "entries m = [(InternalKey [1] 5, VPut [7] 5), (InternalKey [2] 6, VDelete 6), (InternalKey [2] 3, VPut [8] 3)]"
    by (simp add: m_def mt_put_def mt_delete_def mt_insert_def Let_def memtable_new_def bt_empty_def less_internal_key_def)
  have "mt_get_at m k 9 = (if k = [1] then Some (VPut [7] 5) else if k = [2] then Some (VDelete 6) else None)" for k
    using mt_get_at_visible[OF inv, of k 9] by (simp add: es)
  then show ?thesis
    unfolding m_def[symmetric] using memtable_scan_exact[OF inv, of "[]" 9] by (auto split: if_splits)
qed

end
