(* ===== verification/Manifest.thy ===== *)
theory Manifest
  imports Kaya_Core "HOL-Library.Sublist"
begin

text \<open>
  The manifest, \<^verbatim>\<open>src/crates/kaya-lsm/src/manifest.rs\<close>: the log of edits that says which tables are
  live. A frame is a 32-byte header and a payload, each with its own CRC; the state is what
  replaying the frames yields. Replay returns what was logged, up to a torn tail.
\<close>

section \<open>Edits and state\<close>

definition MANIFEST_MAGIC :: u32 where "MANIFEST_MAGIC = 0x4b4d414e"
definition MANIFEST_VERSION :: u16 where "MANIFEST_VERSION = 1"
definition MANIFEST_HEADER_LEN :: nat where "MANIFEST_HEADER_LEN = 32"
definition MANIFEST_FILE_NAME :: string where "MANIFEST_FILE_NAME = ''MANIFEST-000001''"
definition CURRENT_FILE_NAME :: string where "CURRENT_FILE_NAME = ''CURRENT''"
definition CURRENT_TMP_FILE_NAME :: string where "CURRENT_TMP_FILE_NAME = ''CURRENT.tmp''"

datatype manifest_edit_type = CreateTableT | DeleteTableT | SetLastSequenceT

fun edit_type_wire :: "manifest_edit_type \<Rightarrow> u16" where
  "edit_type_wire CreateTableT = 1"
| "edit_type_wire DeleteTableT = 2"
| "edit_type_wire SetLastSequenceT = 3"

definition edit_type_from_wire :: "u16 \<Rightarrow> manifest_edit_type option" where
  "edit_type_from_wire v =
    (if v = 1 then Some CreateTableT else if v = 2 then Some DeleteTableT
     else if v = 3 then Some SetLastSequenceT else None)"

record table_metadata =
  tm_table_id :: u64
  tm_level :: u32
  tm_path :: string
  tm_smallest_key :: bytes
  tm_largest_key :: bytes
  tm_min_sequence :: u64
  tm_max_sequence :: u64
  tm_entry_count :: u64
  tm_file_size :: u64
  tm_footer_checksum :: u32

datatype manifest_edit = CreateTable table_metadata | DeleteTable u64 | SetLastSequence u64

record manifest_state =
  live_tables :: "table_metadata list"
  ms_last_sequence :: u64
  last_edit_seq :: u64

definition default_manifest_state :: manifest_state where
  "default_manifest_state = \<lparr>live_tables = [], ms_last_sequence = SEQ_FIRST, last_edit_seq = 0\<rparr>"

definition manifest_apply :: "manifest_edit \<Rightarrow> u64 \<Rightarrow> manifest_state \<Rightarrow> manifest_state" where
  "manifest_apply edit edit_seq st0 =
    (let st = st0\<lparr>last_edit_seq := edit_seq\<rparr>
     in (case edit of
           CreateTable meta \<Rightarrow> st\<lparr>live_tables := live_tables st @ [meta]\<rparr>
         | DeleteTable table_id \<Rightarrow> st\<lparr>live_tables := filter (\<lambda>t. tm_table_id t \<noteq> table_id) (live_tables st)\<rparr>
         | SetLastSequence sequence \<Rightarrow> st\<lparr>ms_last_sequence := sequence\<rparr>))"

text \<open>\<^verbatim>\<open>sort_by_key(Reverse(table_id))\<close>, a stable sort.\<close>

definition tables_newest_first :: "manifest_state \<Rightarrow> table_metadata list" where
  "tables_newest_first st = sort_key (\<lambda>t. - (uint (tm_table_id t))) (live_tables st)"

datatype manifest_warning = Truncated nat nat | InvalidTail nat string

section \<open>Reading integers\<close>

definition read_u16_le :: "bytes \<Rightarrow> nat \<Rightarrow> u16 result" where
  "read_u16_le bytes offset =
    (if offset + 2 > length bytes then Inl (Corruption ''truncated u16'')
     else Inr (from_le (subrange offset (offset + 2) bytes)))"

definition read_u32_le :: "bytes \<Rightarrow> nat \<Rightarrow> u32 result" where
  "read_u32_le bytes offset =
    (if offset + 4 > length bytes then Inl (Corruption ''truncated u32'')
     else Inr (from_le (subrange offset (offset + 4) bytes)))"

definition read_u64_le :: "bytes \<Rightarrow> nat \<Rightarrow> u64 result" where
  "read_u64_le bytes offset =
    (if offset + 8 > length bytes then Inl (Corruption ''truncated u64'')
     else Inr (from_le (subrange offset (offset + 8) bytes)))"

section \<open>Payloads\<close>

definition encode_table_metadata :: "table_metadata \<Rightarrow> bytes" where
  "encode_table_metadata meta =
    u64_le (tm_table_id meta) @ u32_le (tm_level meta)
    @ u32_le (word_of_nat (length (as_bytes (tm_path meta))))
    @ u32_le (word_of_nat (length (tm_smallest_key meta)))
    @ u32_le (word_of_nat (length (tm_largest_key meta)))
    @ u64_le (tm_min_sequence meta) @ u64_le (tm_max_sequence meta)
    @ u64_le (tm_entry_count meta) @ u64_le (tm_file_size meta) @ u32_le (tm_footer_checksum meta)
    @ as_bytes (tm_path meta) @ tm_smallest_key meta @ tm_largest_key meta"

definition decode_table_metadata :: "bytes \<Rightarrow> table_metadata result" where
  "decode_table_metadata bytes =
    (if length bytes < 60 then Inl (Corruption ''table metadata too short'')
     else
       res_bind (read_u64_le bytes 0) (\<lambda>table_id.
       res_bind (read_u32_le bytes 8) (\<lambda>lvl.
       res_bind (read_u32_le bytes 12) (\<lambda>path_len32.
       res_bind (read_u32_le bytes 16) (\<lambda>smallest_len32.
       res_bind (read_u32_le bytes 20) (\<lambda>largest_len32.
       res_bind (read_u64_le bytes 24) (\<lambda>min_seq.
       res_bind (read_u64_le bytes 32) (\<lambda>max_seq.
       res_bind (read_u64_le bytes 40) (\<lambda>entry_count.
       res_bind (read_u64_le bytes 48) (\<lambda>file_size.
       res_bind (read_u32_le bytes 56) (\<lambda>footer_checksum.
         let path_len = unat path_len32; smallest_len = unat smallest_len32; largest_len = unat largest_len32;
             o1 = 60 + path_len; o2 = o1 + smallest_len; o3 = o2 + largest_len
         in if o3 > length bytes then Inl (Corruption ''table metadata variable fields truncated'')
            else
              (case from_utf8 (subrange 60 o1 bytes) of
                 None \<Rightarrow> Inl (Corruption ''table path is not valid UTF-8'')
               | Some path \<Rightarrow>
                   Inr \<lparr>tm_table_id = table_id, tm_level = lvl, tm_path = path,
                     tm_smallest_key = subrange o1 o2 bytes, tm_largest_key = subrange o2 o3 bytes,
                     tm_min_sequence = min_seq, tm_max_sequence = max_seq, tm_entry_count = entry_count,
                     tm_file_size = file_size, tm_footer_checksum = footer_checksum\<rparr>))))))))))))"

fun encode_edit_payload :: "manifest_edit \<Rightarrow> u16 \<times> bytes" where
  "encode_edit_payload (CreateTable meta) = (edit_type_wire CreateTableT, encode_table_metadata meta)"
| "encode_edit_payload (DeleteTable table_id) = (edit_type_wire DeleteTableT, u64_le table_id)"
| "encode_edit_payload (SetLastSequence sequence) = (edit_type_wire SetLastSequenceT, u64_le sequence)"

section \<open>Frames\<close>

definition encode_manifest_edit :: "manifest_edit \<Rightarrow> u64 \<Rightarrow> bytes" where
  "encode_manifest_edit edit edit_seq =
    (let (rt, payload) = encode_edit_payload edit;
         payload_crc = crc32c payload;
         header = u32_le MANIFEST_MAGIC @ u16_le MANIFEST_VERSION @ u16_le (word_of_nat MANIFEST_HEADER_LEN)
           @ u16_le rt @ u16_le 0 @ u64_le edit_seq @ u32_le (word_of_nat (length payload));
         header_crc = crc32c (take 24 header)
     in header @ u32_le header_crc @ u32_le payload_crc @ payload)"

datatype decode_edit_result = EditComplete manifest_edit u64 nat | EditIncomplete | EditInvalid string

definition or_incomplete :: "'a result \<Rightarrow> ('a \<Rightarrow> decode_edit_result) \<Rightarrow> decode_edit_result" where
  "or_incomplete r f = (case r of Inl _ \<Rightarrow> EditIncomplete | Inr x \<Rightarrow> f x)"

lemma or_incomplete_simps [simp]: "or_incomplete (Inr x) f = f x" "or_incomplete (Inl e) f = EditIncomplete"
  by (simp_all add: or_incomplete_def)

definition decode_edit_payload :: "manifest_edit_type \<Rightarrow> bytes \<Rightarrow> u64 \<Rightarrow> nat \<Rightarrow> decode_edit_result" where
  "decode_edit_payload edit_type payload edit_seq bytes_read =
    (case edit_type of
       CreateTableT \<Rightarrow>
         (case decode_table_metadata payload of
            Inr meta \<Rightarrow> EditComplete (CreateTable meta) edit_seq bytes_read
          | Inl e \<Rightarrow> EditInvalid (error_to_string e))
     | DeleteTableT \<Rightarrow>
         if length payload < 8 then EditInvalid ''DELETE_TABLE payload too short''
         else or_incomplete (read_u64_le payload 0) (\<lambda>tid. EditComplete (DeleteTable tid) edit_seq bytes_read)
     | SetLastSequenceT \<Rightarrow>
         if length payload < 8 then EditInvalid ''SET_LAST_SEQUENCE payload too short''
         else or_incomplete (read_u64_le payload 0) (\<lambda>seq. EditComplete (SetLastSequence seq) edit_seq bytes_read))"

definition decode_manifest_edit :: "bytes \<Rightarrow> decode_edit_result" where
  "decode_manifest_edit bytes =
    (if length bytes < MANIFEST_HEADER_LEN then EditIncomplete
     else
       or_incomplete (read_u32_le bytes 0) (\<lambda>magic.
       if magic \<noteq> MANIFEST_MAGIC then EditInvalid (''bad manifest magic: 0x'' @ fmt_hex 8 (unat magic))
       else
       or_incomplete (read_u16_le bytes 4) (\<lambda>version.
       if version \<noteq> MANIFEST_VERSION
       then EditInvalid (''unsupported manifest version: '' @ fmt_dec (unat version))
       else
       or_incomplete (read_u32_le bytes 24) (\<lambda>expected_hcrc.
       if expected_hcrc \<noteq> crc32c (take 24 bytes) then EditInvalid ''manifest header CRC mismatch''
       else
       or_incomplete (read_u16_le bytes 8) (\<lambda>rt.
       or_incomplete (read_u64_le bytes 12) (\<lambda>edit_seq.
       or_incomplete (read_u32_le bytes 20) (\<lambda>payload_len32.
       or_incomplete (read_u32_le bytes 28) (\<lambda>expected_pcrc.
       let payload_len = unat payload_len32;
           total = MANIFEST_HEADER_LEN + payload_len
       in if length bytes < total then EditIncomplete
          else
            let payload = subrange MANIFEST_HEADER_LEN total bytes
            in if expected_pcrc \<noteq> crc32c payload then EditInvalid ''manifest payload CRC mismatch''
               else
                 (case edit_type_from_wire rt of
                    None \<Rightarrow> EditInvalid (''unknown manifest edit type: '' @ fmt_dec (unat rt))
                  | Some edit_type \<Rightarrow> decode_edit_payload edit_type payload edit_seq total)))))))))"

section \<open>Replay\<close>

lemma decode_edit_payload_bytes:
  "decode_edit_payload t p s n = EditComplete e s' n' \<Longrightarrow> n' = n"
  by (auto simp: decode_edit_payload_def or_incomplete_def split: manifest_edit_type.splits sum.splits if_splits)

lemma decode_manifest_edit_bytes:
  "decode_manifest_edit bs = EditComplete e s n \<Longrightarrow> MANIFEST_HEADER_LEN \<le> n \<and> n \<le> length bs"
  unfolding decode_manifest_edit_def or_incomplete_def Let_def
  by (auto dest: decode_edit_payload_bytes split: sum.splits if_splits option.splits)

function replay_loop ::
  "bytes \<Rightarrow> nat \<Rightarrow> manifest_state \<Rightarrow> nat \<Rightarrow> manifest_state \<times> nat \<times> manifest_warning list" where
  "replay_loop bytes offset st replayed_count =
    (if offset \<ge> length bytes then (st, replayed_count, [])
     else
       (case decode_manifest_edit (drop offset bytes) of
          EditComplete edit edit_seq bytes_read \<Rightarrow>
            replay_loop bytes (offset + bytes_read) (manifest_apply edit edit_seq st) (replayed_count + 1)
        | EditIncomplete \<Rightarrow> (st, replayed_count, [Truncated offset (length bytes - offset)])
        | EditInvalid message \<Rightarrow> (st, replayed_count, [InvalidTail offset message])))"
  by pat_completeness auto
termination
proof (relation "measure (\<lambda>(bytes, offset, _, _). length bytes - offset)", goal_cases)
  case (2 bytes offset st n edit s k)
  then show ?case using decode_manifest_edit_bytes[of "drop offset bytes" edit s k]
    by (auto simp: MANIFEST_HEADER_LEN_def)
qed simp

declare replay_loop.simps [simp del]

definition replay_manifest :: "bytes \<Rightarrow> manifest_state \<times> nat \<times> manifest_warning list" where
  "replay_manifest bytes = replay_loop bytes 0 default_manifest_state 0"

section \<open>Round trip\<close>

text \<open>What a frame can represent: a UTF-8 path and a payload whose length fits 32 bits.\<close>

fun edit_ok :: "manifest_edit \<Rightarrow> bool" where
  "edit_ok (CreateTable m) \<longleftrightarrow> utf8_valid (as_bytes (tm_path m)) \<and>
    60 + length (as_bytes (tm_path m)) + length (tm_smallest_key m) + length (tm_largest_key m) < 2 ^ 32"
| "edit_ok _ \<longleftrightarrow> True"

lemmas read_le_defs = read_u16_le_def read_u32_le_def read_u64_le_def

lemma decode_encode_table_metadata:
  assumes "edit_ok (CreateTable m)"
  shows "decode_table_metadata (encode_table_metadata m) = Inr m"
proof -
  let ?p = "as_bytes (tm_path m)"
  have u: "unat (word_of_nat (length (tm_path m)) :: u32) = length (tm_path m)"
    "unat (word_of_nat (length (tm_smallest_key m)) :: u32) = length (tm_smallest_key m)"
    "unat (word_of_nat (length (tm_largest_key m)) :: u32) = length (tm_largest_key m)"
    using assms by (simp_all add: unat_of_nat)
  define bs where "bs = encode_table_metadata m"
  have l: "length bs = 60 + length (tm_path m) + length (tm_smallest_key m) + length (tm_largest_key m)"
    by (simp add: bs_def encode_table_metadata_def)
  have sl: "subrange 0 8 bs = u64_le (tm_table_id m)" "subrange 8 12 bs = u32_le (tm_level m)"
    "subrange 12 16 bs = u32_le (word_of_nat (length (tm_path m)))"
    "subrange 16 20 bs = u32_le (word_of_nat (length (tm_smallest_key m)))"
    "subrange 20 24 bs = u32_le (word_of_nat (length (tm_largest_key m)))"
    "subrange 24 32 bs = u64_le (tm_min_sequence m)" "subrange 32 40 bs = u64_le (tm_max_sequence m)"
    "subrange 40 48 bs = u64_le (tm_entry_count m)" "subrange 48 56 bs = u64_le (tm_file_size m)"
    "subrange 56 60 bs = u32_le (tm_footer_checksum m)"
    "subrange 60 (60 + length (tm_path m)) bs = ?p"
    "subrange (60 + length (tm_path m)) (60 + length (tm_path m) + length (tm_smallest_key m)) bs = tm_smallest_key m"
    "subrange (60 + length (tm_path m) + length (tm_smallest_key m))
      (60 + length (tm_path m) + length (tm_smallest_key m) + length (tm_largest_key m)) bs = tm_largest_key m"
    by (simp_all add: bs_def encode_table_metadata_def subrange_all)
  show ?thesis
    unfolding bs_def[symmetric] decode_table_metadata_def read_le_defs
    using assms by (simp add: l sl u Let_def)
qed

lemma encode_edit_payload_decode:
  assumes "edit_ok e" "encode_edit_payload e = (rt, pl)"
  shows "\<exists>t. edit_type_from_wire rt = Some t \<and> decode_edit_payload t pl es n = EditComplete e es n"
    and "length pl < 2 ^ 32"
proof -
  have "subrange 0 8 (u64_le w) = u64_le w" for w by simp
  then show "\<exists>t. edit_type_from_wire rt = Some t \<and> decode_edit_payload t pl es n = EditComplete e es n"
    using assms decode_encode_table_metadata
    by (cases e) (auto simp: edit_type_from_wire_def decode_edit_payload_def read_u64_le_def)
  show "length pl < 2 ^ 32"
    using assms by (cases e) (auto simp: encode_table_metadata_def)
qed

definition frame_header :: "u16 \<Rightarrow> u64 \<Rightarrow> nat \<Rightarrow> bytes" where
  "frame_header rt edit_seq plen = u32_le MANIFEST_MAGIC @ u16_le MANIFEST_VERSION
    @ u16_le (word_of_nat MANIFEST_HEADER_LEN) @ u16_le rt @ u16_le 0 @ u64_le edit_seq @ u32_le (word_of_nat plen)"

lemma frame_header_reads:
  "length (frame_header rt s n) = 24" "subrange 0 4 (frame_header rt s n) = u32_le MANIFEST_MAGIC"
  "subrange 4 6 (frame_header rt s n) = u16_le MANIFEST_VERSION" "subrange 8 10 (frame_header rt s n) = u16_le rt"
  "subrange 12 20 (frame_header rt s n) = u64_le s" "subrange 20 24 (frame_header rt s n) = u32_le (word_of_nat n)"
  by (simp_all add: frame_header_def)

lemma encode_manifest_edit_eq:
  assumes "encode_edit_payload e = (rt, pl)"
  shows "encode_manifest_edit e es = frame_header rt es (length pl) @ u32_le (crc32c (frame_header rt es (length pl)))
    @ u32_le (crc32c pl) @ pl"
proof -
  have "take 24 (frame_header rt es (length pl)) = frame_header rt es (length pl)"
    by (simp add: frame_header_reads)
  then show ?thesis using assms
    by (simp add: encode_manifest_edit_def Let_def frame_header_def[symmetric] del: take_append) 
qed

text \<open>The decoder on an input cut into the parts of a frame.\<close>

lemma decode_manifest_parts:
  assumes "length hp = 24" "length hc = 4" "length pc = 4"
  shows "decode_manifest_edit (hp @ hc @ pc @ tail) =
    (if from_le (subrange 0 4 hp) \<noteq> MANIFEST_MAGIC
     then EditInvalid (''bad manifest magic: 0x'' @ fmt_hex 8 (unat (from_le (subrange 0 4 hp) :: u32)))
     else if from_le (subrange 4 6 hp) \<noteq> MANIFEST_VERSION
     then EditInvalid (''unsupported manifest version: '' @ fmt_dec (unat (from_le (subrange 4 6 hp) :: u16)))
     else if from_le hc \<noteq> crc32c hp then EditInvalid ''manifest header CRC mismatch''
     else let n = unat (from_le (subrange 20 24 hp) :: u32)
          in if length tail < n then EditIncomplete
             else if from_le pc \<noteq> crc32c (take n tail) then EditInvalid ''manifest payload CRC mismatch''
             else (case edit_type_from_wire (from_le (subrange 8 10 hp)) of
                     None \<Rightarrow> EditInvalid (''unknown manifest edit type: '' @ fmt_dec (unat (from_le (subrange 8 10 hp) :: u16)))
                   | Some t \<Rightarrow> decode_edit_payload t (take n tail) (from_le (subrange 12 20 hp)) (32 + n)))"
proof -
  define inp where "inp = hp @ hc @ pc @ tail"
  have l: "length inp = 32 + length tail" using assms by (simp add: inp_def)
  have sl: "subrange 0 4 inp = subrange 0 4 hp" "subrange 4 6 inp = subrange 4 6 hp"
    "subrange 24 28 inp = hc" "subrange 8 10 inp = subrange 8 10 hp" "subrange 12 20 inp = subrange 12 20 hp"
    "subrange 20 24 inp = subrange 20 24 hp" "subrange 28 32 inp = pc" "take 24 inp = hp"
    using assms by (simp_all add: inp_def subrange_all)
  have pl: "subrange 32 (32 + n) inp = take n tail" for n
    using assms by (simp add: inp_def subrange_0_take)
  show ?thesis
    unfolding inp_def[symmetric] decode_manifest_edit_def read_le_defs MANIFEST_HEADER_LEN_def
    by (simp add: l sl pl Let_def)
qed

lemma decode_encode_manifest:
  assumes "edit_ok e"
  shows "decode_manifest_edit (encode_manifest_edit e es @ rest) = EditComplete e es (length (encode_manifest_edit e es))"
proof -
  obtain rt pl where p: "encode_edit_payload e = (rt, pl)" by fastforce
  obtain t where t: "edit_type_from_wire rt = Some t"
    "decode_edit_payload t pl es (32 + length pl) = EditComplete e es (32 + length pl)"
    using encode_edit_payload_decode(1)[OF assms p] by blast
  have n: "unat (word_of_nat (length pl) :: u32) = length pl"
    using encode_edit_payload_decode(2)[OF assms p] by (simp add: unat_of_nat)
  show ?thesis
    by (simp add: encode_manifest_edit_eq[OF p] decode_manifest_parts frame_header_reads t n Let_def)
qed

lemma decode_truncated_manifest:
  assumes "edit_ok e" "k < length (encode_manifest_edit e es)"
  shows "decode_manifest_edit (take k (encode_manifest_edit e es)) = EditIncomplete"
proof -
  obtain rt pl where p: "encode_edit_payload e = (rt, pl)" by fastforce
  have n: "unat (word_of_nat (length pl) :: u32) = length pl"
    using encode_edit_payload_decode(2)[OF assms(1) p] by (simp add: unat_of_nat)
  let ?h = "frame_header rt es (length pl)"
  show ?thesis
  proof (cases "k < 32")
    case True
    then show ?thesis using assms(2) by (simp add: decode_manifest_edit_def MANIFEST_HEADER_LEN_def)
  next
    case False
    then have "take k (encode_manifest_edit e es) = ?h @ u32_le (crc32c ?h) @ u32_le (crc32c pl) @ take (k - 32) pl"
      by (simp add: encode_manifest_edit_eq[OF p] frame_header_reads)
    moreover have "k - 32 < length pl" using assms(2) False by (simp add: encode_manifest_edit_eq[OF p] frame_header_reads)
    ultimately show ?thesis by (simp add: decode_manifest_parts frame_header_reads n Let_def)
  qed
qed

section \<open>Replay and damage\<close>

definition enc_edits :: "(manifest_edit \<times> u64) list \<Rightarrow> bytes" where
  "enc_edits es = concat (map (\<lambda>(e, s). encode_manifest_edit e s) es)"

definition apply_edits :: "(manifest_edit \<times> u64) list \<Rightarrow> manifest_state \<Rightarrow> manifest_state" where
  "apply_edits es st = fold (\<lambda>(e, s). manifest_apply e s) es st"

lemma encode_manifest_edit_ne: "0 < length (encode_manifest_edit e s)"
  by (cases "encode_edit_payload e") (simp add: encode_manifest_edit_eq frame_header_reads)

lemma replay_loop_encs:
  assumes "\<forall>(e, s) \<in> set es. edit_ok e"
  shows "replay_loop (pre @ enc_edits es @ tail) (length pre) st n =
    replay_loop (pre @ enc_edits es @ tail) (length pre + length (enc_edits es)) (apply_edits es st) (n + length es)"
  using assms
proof (induction es arbitrary: pre st n)
  case (Cons x es)
  obtain e s where x: "x = (e, s)" by fastforce
  let ?f = "encode_manifest_edit e s"
  have d: "decode_manifest_edit (drop (length pre) (pre @ enc_edits (x # es) @ tail)) = EditComplete e s (length ?f)"
    using decode_encode_manifest[of e s "enc_edits es @ tail"] Cons.prems by (simp add: enc_edits_def x)
  have "replay_loop (pre @ enc_edits (x # es) @ tail) (length pre) st n =
      replay_loop ((pre @ ?f) @ enc_edits es @ tail) (length (pre @ ?f)) (manifest_apply e s st) (n + 1)"
    using encode_manifest_edit_ne[of e s]
    by (subst replay_loop.simps, subst d) (simp add: enc_edits_def x)
  also have "\<dots> = replay_loop ((pre @ ?f) @ enc_edits es @ tail) (length (pre @ ?f) + length (enc_edits es))
      (apply_edits es (manifest_apply e s st)) (n + 1 + length es)"
    using Cons.prems by (intro Cons.IH) auto
  finally show ?case by (simp add: x enc_edits_def apply_edits_def add_ac)
qed (simp add: enc_edits_def apply_edits_def)

lemma replay_manifest_encs:
  assumes "\<forall>(e, s) \<in> set es. edit_ok e"
  shows "replay_manifest (enc_edits es @ tail) =
    replay_loop (enc_edits es @ tail) (length (enc_edits es)) (apply_edits es default_manifest_state) (length es)"
  using replay_loop_encs[OF assms, of "[]" tail default_manifest_state 0] by (simp add: replay_manifest_def)

lemma replay_torn:
  assumes "\<forall>(e, s) \<in> set es. edit_ok e" and "edit_ok e" and "k < length (encode_manifest_edit e s)"
  shows "replay_manifest (enc_edits es @ take k (encode_manifest_edit e s)) =
    (apply_edits es default_manifest_state, length es, if k = 0 then [] else [Truncated (length (enc_edits es)) k])"
  unfolding replay_manifest_encs[OF assms(1)]
  using decode_truncated_manifest[OF assms(2,3)] assms(3)
  by (subst replay_loop.simps) simp

lemma list_update_ne: "i < length xs \<Longrightarrow> v \<noteq> xs ! i \<Longrightarrow> xs[i := v] \<noteq> xs"
  by (metis nth_list_update_eq)

lemma decode_manifest_one_byte:
  assumes ok: "edit_ok e" and i: "i < length (encode_manifest_edit e es)" and v: "v \<noteq> encode_manifest_edit e es ! i"
  shows "decode_manifest_edit ((encode_manifest_edit e es)[i := v] @ rest) \<noteq> EditComplete e' es' n'"
proof -
  obtain rt pl where p: "encode_edit_payload e = (rt, pl)" by fastforce
  have plen: "unat (word_of_nat (length pl) :: u32) = length pl"
    using encode_edit_payload_decode(2)[OF ok p] by (simp add: unat_of_nat)
  define hp where "hp = frame_header rt es (length pl)"
  define hc where "hc = u32_le (crc32c hp)"
  define pc where "pc = u32_le (crc32c pl)"
  have f: "encode_manifest_edit e es = hp @ hc @ pc @ pl"
    by (simp add: encode_manifest_edit_eq[OF p] hp_def hc_def pc_def)
  have len: "length hp = 24" "length hc = 4" "length pc = 4"
    by (simp_all add: hp_def hc_def pc_def frame_header_reads)
  have hn: "unat (from_le (subrange 20 24 hp) :: u32) = length pl"
    by (simp add: hp_def frame_header_reads plen)
  consider (h) "i < 24" | (c) j where "i = 24 + j" "j < 4" | (q) j where "i = 28 + j" "j < 4"
    | (p) j where "i = 32 + j" "j < length pl"
  proof -
    have "i < 24 \<or> (24 \<le> i \<and> i < 28) \<or> (28 \<le> i \<and> i < 32) \<or> 32 \<le> i" by linarith
    then show thesis
      using that i unfolding f by (elim disjE) (auto simp: len le_iff_add)
  qed
  then show ?thesis
  proof cases
    case h
    have "crc32c (hp[i := v]) \<noteq> crc32c hp" using crc32c_list_update[of i hp v] v h len by (simp add: f nth_append)
    then show ?thesis using h len decode_manifest_parts[of "hp[i := v]" hc pc "pl @ rest"]
      by (auto simp: f list_update_append hc_def Let_def)
  next
    case c
    have "from_le (hc[j := v]) \<noteq> (from_le hc :: u32)"
      using from_le_inject[of "hc[j := v]" 4 hc, where 'a = 32] v c len
      by (simp add: f nth_append list_update_ne)
    then show ?thesis using c len decode_manifest_parts[of hp "hc[j := v]" pc "pl @ rest"]
      by (auto simp: f list_update_append hc_def Let_def)
  next
    case q
    have "from_le (pc[j := v]) \<noteq> (from_le pc :: u32)"
      using from_le_inject[of "pc[j := v]" 4 pc, where 'a = 32] v q len
      by (simp add: f nth_append list_update_ne)
    then show ?thesis using q len hn decode_manifest_parts[of hp hc "pc[j := v]" "pl @ rest"]
      by (auto simp: f list_update_append pc_def Let_def)
  next
    case p
    have "crc32c (pl[j := v]) \<noteq> crc32c pl"
      using crc32c_list_update[of j pl v] v p len by (simp add: f nth_append)
    then show ?thesis using p len hn decode_manifest_parts[of hp hc pc "pl[j := v] @ rest"]
      by (auto simp: f list_update_append pc_def Let_def)
  qed
qed

section \<open>Properties\<close>

text \<open>
  C14. Replaying the manifest gives back the state that was logged, and a torn last frame costs only
  that frame: for any sequence of edits followed by a proper prefix of one more frame, replay applies exactly
  the complete edits in order and reports the tail as truncated (or nothing, when no byte of it was
  written).
\<close>

theorem replay_manifest_torn_tail:
  assumes "\<forall>(e, s) \<in> set es. edit_ok e" and "edit_ok e" and "k < length (encode_manifest_edit e s)"
  shows "replay_manifest (enc_edits es @ take k (encode_manifest_edit e s)) =
    (apply_edits es default_manifest_state, length es, if k = 0 then [] else [Truncated (length (enc_edits es)) k])"
  using assms by (rule replay_torn)

theorem replay_manifest_torn_tail_witness:
  "replay_manifest (enc_edits [(DeleteTable 4, 1), (SetLastSequence 9, 2)] @ take 1 (encode_manifest_edit (DeleteTable 5) 3)) =
    (\<lparr>live_tables = [], ms_last_sequence = 9, last_edit_seq = 2\<rparr>, 2, [Truncated 80 1])"
proof -
  have "length (encode_manifest_edit (DeleteTable 5) 3) = 40"
    "length (enc_edits [(DeleteTable 4, 1), (SetLastSequence 9, 2)]) = 80"
    by (simp_all add: enc_edits_def encode_manifest_edit_eq frame_header_reads)
  then show ?thesis
    using replay_manifest_torn_tail[of "[(DeleteTable 4, 1), (SetLastSequence 9, 2)]" "DeleteTable 5" 1 3]
    by (simp add: apply_edits_def manifest_apply_def default_manifest_state_def)
qed

text \<open>
  C15. An edit is decoded as it was encoded, whatever follows it, and when any one byte of its frame is
  replaced by another value no edit is accepted in its place.
\<close>

theorem manifest_frame_integrity:
  assumes "edit_ok e"
  shows "decode_manifest_edit (encode_manifest_edit e s @ rest) =
      EditComplete e s (length (encode_manifest_edit e s)) \<and>
    (i < length (encode_manifest_edit e s) \<and> v \<noteq> encode_manifest_edit e s ! i \<longrightarrow>
      decode_manifest_edit ((encode_manifest_edit e s)[i := v] @ rest) \<noteq> EditComplete e' s' n)"
  using assms decode_encode_manifest decode_manifest_one_byte by blast

theorem manifest_frame_integrity_witness:
  "decode_manifest_edit ((encode_manifest_edit (DeleteTable 5) 3)[33 := encode_manifest_edit (DeleteTable 5) 3 ! 33 + 1])
    \<noteq> EditComplete (DeleteTable 5) 3 40"
proof -
  have "length (encode_manifest_edit (DeleteTable 5) 3) = 40"
    by (simp add: encode_manifest_edit_eq frame_header_reads)
  then show ?thesis
    using manifest_frame_integrity[of "DeleteTable 5" 3 "[]" 33 "encode_manifest_edit (DeleteTable 5) 3 ! 33 + 1"]
    by simp
qed

end
