(* ===== verification/Sst_Block.thy ===== *)
theory Sst_Block
  imports Manifest
begin

text \<open>
  The parts of a table file, \<^verbatim>\<open>src/crates/kaya-lsm/src/sstable.rs\<close>: data blocks with and without prefix
  compression, the index block, the bloom filter and the footer. The compression libraries are a parameter.
\<close>

section \<open>Data blocks\<close>

record sst_entry =
  se_key :: bytes
  se_value :: "bytes option"
  se_sequence :: u64

definition PREFIX_RESTART_INTERVAL :: nat where "PREFIX_RESTART_INTERVAL = 8"
definition ENTRY_KIND_PUT :: u8 where "ENTRY_KIND_PUT = 1"
definition ENTRY_KIND_DELETE :: u8 where "ENTRY_KIND_DELETE = 2"

definition read_u8 :: "bytes \<Rightarrow> nat \<Rightarrow> u8 result" where
  "read_u8 bytes offset =
    (if offset < length bytes then Inr (bytes ! offset) else Inl (Corruption ''truncated u8''))"

fun common_prefix_len :: "bytes \<Rightarrow> bytes \<Rightarrow> nat" where
  "common_prefix_len (x # xs) (y # ys) = (if x = y then Suc (common_prefix_len xs ys) else 0)"
| "common_prefix_len _ _ = 0"

definition value_bytes :: "sst_entry \<Rightarrow> bytes" where
  "value_bytes e = (case se_value e of Some v \<Rightarrow> v | None \<Rightarrow> [])"

definition entry_kind :: "sst_entry \<Rightarrow> u8" where
  "entry_kind e = (case se_value e of Some _ \<Rightarrow> ENTRY_KIND_PUT | None \<Rightarrow> ENTRY_KIND_DELETE)"

definition encode_entry_legacy :: "sst_entry \<Rightarrow> bytes" where
  "encode_entry_legacy e =
    u32_le (word_of_nat (length (se_key e))) @ u32_le (word_of_nat (length (value_bytes e)))
    @ u64_le (se_sequence e) @ [entry_kind e] @ se_key e @ value_bytes e"

definition encode_entry_prefix :: "sst_entry \<Rightarrow> bytes option \<Rightarrow> bytes" where
  "encode_entry_prefix e prev_key =
    (let shared = (case prev_key of Some prev \<Rightarrow> common_prefix_len prev (se_key e) | None \<Rightarrow> 0);
         non_shared = drop shared (se_key e)
     in u32_le (word_of_nat shared) @ u32_le (word_of_nat (length non_shared))
        @ u32_le (word_of_nat (length (value_bytes e))) @ u64_le (se_sequence e) @ [entry_kind e]
        @ non_shared @ value_bytes e)"

fun encode_prefix_loop ::
  "nat \<Rightarrow> bytes option \<Rightarrow> sst_entry list \<Rightarrow> bytes \<Rightarrow> u32 list \<Rightarrow> bytes \<times> u32 list" where
  "encode_prefix_loop i prev_key [] region restarts = (region, restarts)"
| "encode_prefix_loop i prev_key (e # es) region restarts =
    (let restarts' = (if i mod PREFIX_RESTART_INTERVAL = 0 then restarts @ [word_of_nat (length region)] else restarts);
         prev' = (if i mod PREFIX_RESTART_INTERVAL = 0 then None else prev_key)
     in encode_prefix_loop (i + 1) (Some (se_key e)) es (region @ encode_entry_prefix e prev') restarts')"

definition encode_data_block :: "sst_entry list \<Rightarrow> bool \<Rightarrow> bytes" where
  "encode_data_block es prefix_compression =
    (let buf =
       (if prefix_compression
        then (case encode_prefix_loop 0 None es [] [] of
                (region, restarts) \<Rightarrow>
                  u32_le (word_of_nat (length es)) @ u32_le (word_of_nat (length restarts)) @ region
                  @ concat (map u32_le restarts))
        else u32_le (word_of_nat (length es)) @ u32_le 0 @ concat (map encode_entry_legacy es))
     in buf @ u32_le (crc32c buf))"

definition decode_value :: "u8 \<Rightarrow> bytes \<Rightarrow> nat \<Rightarrow> nat \<Rightarrow> (bytes option \<times> nat) result" where
  "decode_value kind bytes next value_len =
    (if kind = ENTRY_KIND_PUT then Inr (Some (subrange next (next + value_len) bytes), next + value_len)
     else if kind = ENTRY_KIND_DELETE then Inr (None, next)
     else Inl (Corruption (''unknown entry kind: '' @ fmt_dec (unat kind))))"

definition decode_entry_legacy :: "bytes \<Rightarrow> nat \<Rightarrow> nat \<Rightarrow> (sst_entry \<times> nat) result" where
  "decode_entry_legacy bytes offset data_len =
    (if offset + 17 > data_len then Inl (Corruption ''truncated data block entry header'')
     else
       res_bind (read_u32_le bytes offset) (\<lambda>key_len.
       res_bind (read_u32_le bytes (offset + 4)) (\<lambda>value_len.
       res_bind (read_u64_le bytes (offset + 8)) (\<lambda>sequence.
       res_bind (read_u8 bytes (offset + 16)) (\<lambda>kind.
         let next = offset + 17
         in if next + unat key_len + unat value_len > data_len then Inl (Corruption ''truncated entry key/value'')
            else
              let key = subrange next (next + unat key_len) bytes
              in res_bind (decode_value kind bytes (next + unat key_len) (unat value_len)) (\<lambda>(v, next').
                   Inr (\<lparr>se_key = key, se_value = v, se_sequence = sequence\<rparr>, next')))))))"

definition decode_entry_prefix :: "bytes \<Rightarrow> nat \<Rightarrow> nat \<Rightarrow> bytes \<Rightarrow> (sst_entry \<times> nat) result" where
  "decode_entry_prefix bytes offset data_len restart_key =
    (if offset + 21 > data_len then Inl (Corruption ''truncated prefix entry header'')
     else
       res_bind (read_u32_le bytes offset) (\<lambda>shared.
       res_bind (read_u32_le bytes (offset + 4)) (\<lambda>non_shared_len.
       res_bind (read_u32_le bytes (offset + 8)) (\<lambda>value_len.
       res_bind (read_u64_le bytes (offset + 12)) (\<lambda>sequence.
       res_bind (read_u8 bytes (offset + 20)) (\<lambda>kind.
         let next = offset + 21
         in if unat shared > length restart_key \<or> next + unat non_shared_len + unat value_len > data_len
            then Inl (Corruption ''truncated prefix entry key/value'')
            else
              let key = take (unat shared) restart_key @ subrange next (next + unat non_shared_len) bytes
              in res_bind (decode_value kind bytes (next + unat non_shared_len) (unat value_len)) (\<lambda>(v, next').
                   Inr (\<lparr>se_key = key, se_value = v, se_sequence = sequence\<rparr>, next'))))))))"

fun decode_legacy_loop :: "nat \<Rightarrow> bytes \<Rightarrow> nat \<Rightarrow> nat \<Rightarrow> sst_entry list result" where
  "decode_legacy_loop 0 bytes offset data_len = Inr []"
| "decode_legacy_loop (Suc n) bytes offset data_len =
    res_bind (decode_entry_legacy bytes offset data_len) (\<lambda>(e, next).
    res_bind (decode_legacy_loop n bytes next data_len) (\<lambda>es. Inr (e # es)))"

text \<open>Reading the restart array: \<^verbatim>\<open>prev\<close> is the restart read before, if there is one.\<close>

fun read_restarts :: "nat \<Rightarrow> bytes \<Rightarrow> nat \<Rightarrow> nat \<Rightarrow> nat option \<Rightarrow> nat list result" where
  "read_restarts 0 bytes pos span prev = Inr []"
| "read_restarts (Suc n) bytes pos span prev =
    res_bind (read_u32_le bytes pos) (\<lambda>rel32.
      let rel = unat rel32
      in if rel > span then Inl (Corruption ''restart offset out of entries range'')
         else if (case prev of Some p \<Rightarrow> rel \<le> p | None \<Rightarrow> False)
         then Inl (Corruption ''restart offsets not monotonic'')
         else res_bind (read_restarts n bytes (pos + 4) span (Some rel)) (\<lambda>rs. Inr (rel # rs)))"

fun skip_restarts :: "nat \<Rightarrow> nat list \<Rightarrow> bytes \<Rightarrow> nat list \<times> bytes" where
  "skip_restarts offset [] restart_key = ([], restart_key)"
| "skip_restarts offset (r # rs) restart_key =
    (if offset = 8 + r then skip_restarts offset rs [] else (r # rs, restart_key))"

fun decode_prefix_loop ::
  "nat \<Rightarrow> bytes \<Rightarrow> nat \<Rightarrow> nat \<Rightarrow> nat list \<Rightarrow> bytes \<Rightarrow> (sst_entry list \<times> nat) result" where
  "decode_prefix_loop 0 bytes offset entries_end restarts restart_key = Inr ([], offset)"
| "decode_prefix_loop (Suc n) bytes offset entries_end restarts restart_key =
    (case skip_restarts offset restarts restart_key of
       (restarts', key') \<Rightarrow>
         res_bind (decode_entry_prefix bytes offset entries_end key') (\<lambda>(e, next).
         res_bind (decode_prefix_loop n bytes next entries_end restarts' (se_key e)) (\<lambda>(es, end).
           Inr (e # es, end))))"

definition decode_data_block :: "bytes \<Rightarrow> sst_entry list result" where
  "decode_data_block bytes =
    (if length bytes < 12 then Inl (Corruption ''data block too short'')
     else
       let data_len = length bytes - 4
       in res_bind (read_u32_le bytes data_len) (\<lambda>expected_crc.
          if expected_crc \<noteq> crc32c (take data_len bytes)
          then Inl (Corruption ''SSTable data block CRC mismatch'')
          else
            res_bind (read_u32_le bytes 0) (\<lambda>entry_count.
            res_bind (read_u32_le bytes 4) (\<lambda>restart_count.
              if restart_count = 0 then decode_legacy_loop (unat entry_count) bytes 8 data_len
              else
                let restarts_bytes = unat restart_count * 4
                in if data_len < 8 + restarts_bytes then Inl (Corruption ''truncated restart array'')
                   else
                     let entries_end = data_len - restarts_bytes
                     in res_bind (read_restarts (unat restart_count) bytes entries_end (entries_end - 8) None) (\<lambda>restarts.
                        res_bind (decode_prefix_loop (unat entry_count) bytes 8 entries_end restarts []) (\<lambda>(es, end).
                          if end \<noteq> entries_end then Inl (Corruption ''prefix entries region size mismatch'')
                          else Inr es))))))"

definition entry_estimate :: "sst_entry list \<Rightarrow> nat \<Rightarrow> nat" where
  "entry_estimate es i =
    (let shared = (if i mod PREFIX_RESTART_INTERVAL = 0 then 0
                   else common_prefix_len (se_key (es ! (i - 1))) (se_key (es ! i)))
     in 21 + (length (se_key (es ! i)) - shared) + length (value_bytes (es ! i)))"

definition estimate_block_size :: "sst_entry list \<Rightarrow> bool \<Rightarrow> nat" where
  "estimate_block_size es prefix_compression =
    (if prefix_compression
     then sum_list (map (entry_estimate es) [0..<length es]) + 8
       + (length es div PREFIX_RESTART_INTERVAL + 1) * 4 + 4
     else sum_list (map (\<lambda>e. 17 + length (se_key e) + length (value_bytes e)) es) + 12)"

section \<open>Storage of data blocks\<close>

definition COMPRESSION_CODEC_NONE :: u32 where "COMPRESSION_CODEC_NONE = 0"
definition COMPRESSION_CODEC_LZ4 :: u32 where "COMPRESSION_CODEC_LZ4 = 1"
definition COMPRESSION_CODEC_ZSTD :: u32 where "COMPRESSION_CODEC_ZSTD = 2"
definition BLOCK_STORE_RAW :: u8 where "BLOCK_STORE_RAW = 0"
definition BLOCK_STORE_LZ4 :: u8 where "BLOCK_STORE_LZ4 = 1"
definition BLOCK_STORE_ZSTD :: u8 where "BLOCK_STORE_ZSTD = 2"

lemmas codec_consts = COMPRESSION_CODEC_NONE_def COMPRESSION_CODEC_LZ4_def COMPRESSION_CODEC_ZSTD_def
  BLOCK_STORE_RAW_def BLOCK_STORE_LZ4_def BLOCK_STORE_ZSTD_def

text \<open>
  The crates \<^verbatim>\<open>lz4_flex\<close> and \<^verbatim>\<open>zstd\<close>. Decompression fails with a message; zstd compression may fail.
\<close>

record compressors =
  lz4_compress :: "bytes \<Rightarrow> bytes"
  lz4_decompress :: "bytes \<Rightarrow> string + bytes"
  zstd_encode :: "bytes \<Rightarrow> bytes option"
  zstd_decode :: "bytes \<Rightarrow> string + bytes"

text \<open>What the code relies on: decompressing what was compressed gives it back.\<close>

definition compressors_ok :: "compressors \<Rightarrow> bool" where
  "compressors_ok C \<longleftrightarrow> (\<forall>b. lz4_decompress C (lz4_compress C b) = Inr b) \<and>
    (\<forall>b c. zstd_encode C b = Some c \<longrightarrow> zstd_decode C c = Inr b)"

definition wrap_data_block_for_storage :: "compressors \<Rightarrow> bytes \<Rightarrow> u32 \<Rightarrow> bytes" where
  "wrap_data_block_for_storage C raw codec =
    (if codec = COMPRESSION_CODEC_NONE then raw
     else if codec \<noteq> COMPRESSION_CODEC_LZ4 \<and> codec \<noteq> COMPRESSION_CODEC_ZSTD then raw
     else
       let (store_kind, compressed) =
         (if codec = COMPRESSION_CODEC_LZ4 then (BLOCK_STORE_LZ4, lz4_compress C raw)
          else (BLOCK_STORE_ZSTD, case zstd_encode C raw of Some c \<Rightarrow> c | None \<Rightarrow> raw))
       in if length compressed + 1 < length raw then store_kind # compressed else BLOCK_STORE_RAW # raw)"

definition unwrap_data_block_from_storage :: "compressors \<Rightarrow> bytes \<Rightarrow> u32 \<Rightarrow> bytes result" where
  "unwrap_data_block_from_storage C stored codec =
    (if codec = COMPRESSION_CODEC_NONE then Inr stored
     else
       (case stored of
          [] \<Rightarrow> Inl (Corruption ''compressed data block is empty'')
        | kind # body \<Rightarrow>
            if kind = BLOCK_STORE_RAW then Inr body
            else if kind = BLOCK_STORE_LZ4
            then (case lz4_decompress C body of Inr raw \<Rightarrow> Inr raw
                  | Inl e \<Rightarrow> Inl (Corruption (''LZ4 data block decompress failed: '' @ e)))
            else if kind = BLOCK_STORE_ZSTD
            then (case zstd_decode C body of Inr raw \<Rightarrow> Inr raw
                  | Inl e \<Rightarrow> Inl (Corruption (''ZSTD data block decompress failed: '' @ e)))
            else Inl (Corruption (''unknown SSTable block store kind: '' @ fmt_dec (unat kind)))))"

section \<open>Index block\<close>

record index_entry =
  separator_key :: bytes
  block_offset :: u64
  block_len :: u32
  first_seq :: u64
  last_seq :: u64

definition encode_index_entry :: "index_entry \<Rightarrow> bytes" where
  "encode_index_entry ie =
    u32_le (word_of_nat (length (separator_key ie))) @ u64_le (block_offset ie) @ u32_le (block_len ie)
    @ u64_le (first_seq ie) @ u64_le (last_seq ie) @ separator_key ie"

definition finalize_index_block :: "index_entry list \<Rightarrow> bytes" where
  "finalize_index_block ies =
    (let buf = u32_le (word_of_nat (length ies)) @ concat (map encode_index_entry ies)
     in buf @ u32_le (crc32c buf))"

fun decode_index_loop :: "nat \<Rightarrow> bytes \<Rightarrow> nat \<Rightarrow> nat \<Rightarrow> index_entry list result" where
  "decode_index_loop 0 bytes offset data_len = Inr []"
| "decode_index_loop (Suc n) bytes offset data_len =
    (if offset + 32 > data_len then Inl (Corruption ''truncated index entry header'')
     else
       res_bind (read_u32_le bytes offset) (\<lambda>sep_len.
       res_bind (read_u64_le bytes (offset + 4)) (\<lambda>boff.
       res_bind (read_u32_le bytes (offset + 12)) (\<lambda>blen.
       res_bind (read_u64_le bytes (offset + 16)) (\<lambda>fseq.
       res_bind (read_u64_le bytes (offset + 24)) (\<lambda>lseq.
         let o1 = offset + 32; o2 = o1 + unat sep_len
         in if o2 > data_len then Inl (Corruption ''truncated index separator key'')
            else res_bind (decode_index_loop n bytes o2 data_len) (\<lambda>ies.
                   Inr (\<lparr>separator_key = subrange o1 o2 bytes, block_offset = boff, block_len = blen,
                     first_seq = fseq, last_seq = lseq\<rparr> # ies))))))))"

definition decode_index_block :: "bytes \<Rightarrow> index_entry list result" where
  "decode_index_block bytes =
    (if length bytes < 8 then Inl (Corruption ''index block too short'')
     else
       let data_len = length bytes - 4
       in res_bind (read_u32_le bytes data_len) (\<lambda>expected_crc.
          if expected_crc \<noteq> crc32c (take data_len bytes)
          then Inl (Corruption ''SSTable index block CRC mismatch'')
          else res_bind (read_u32_le bytes 0) (\<lambda>entry_count.
                 decode_index_loop (unat entry_count) bytes 4 data_len)))"

end
