(* ===== verification/Sst_Codec.thy ===== *)
theory Sst_Codec
  imports Sst_Block
begin

text \<open>
  Round trips of the blocks of a table file: a data block, plain or prefix compressed, and an index block
  are decoded as they were encoded, and a stored block is unwrapped to what was wrapped.
\<close>

definition entry_fits :: "sst_entry \<Rightarrow> bool" where
  "entry_fits e \<longleftrightarrow> length (se_key e) < 2 ^ 32 \<and> length (value_bytes e) < 2 ^ 32"

lemma unat_len32: "n < 2 ^ 32 \<Longrightarrow> unat (word_of_nat n :: u32) = n"
  by (simp add: unat_of_nat)

lemma decode_value_eq:
  assumes "length (pre @ value_bytes e) \<le> n" and "n \<le> length bytes" and "take (length (pre @ value_bytes e)) bytes = pre @ value_bytes e"
  shows "decode_value (entry_kind e) bytes (length pre) (length (value_bytes e)) =
    Inr (se_value e, length pre + length (value_bytes e))"
proof -
  have "subrange (length pre) (length pre + length (value_bytes e)) bytes = value_bytes e"
    using arg_cong[OF assms(3), of "drop (length pre)"] by (simp add: subrange_def drop_take)
  then show ?thesis
    by (cases "se_value e") (simp_all add: decode_value_def entry_kind_def ENTRY_KIND_PUT_def ENTRY_KIND_DELETE_def value_bytes_def)
qed

text \<open>Reading at a known place of a byte string.\<close>

lemma read_at_pos:
  assumes "bytes = pre @ x @ suf" "offset = length pre"
  shows "length x = 4 \<Longrightarrow> read_u32_le bytes offset = Inr (from_le x)"
    "length x = 8 \<Longrightarrow> read_u64_le bytes offset = Inr (from_le x)"
    "length x = 1 \<Longrightarrow> read_u8 bytes offset = Inr (hd x)"
  using assms by (auto simp: read_u32_le_def read_u64_le_def read_u8_def subrange_all nth_append length_Suc_conv)

lemma subrange_at_pos: "bytes = pre @ x @ suf \<Longrightarrow> i = length pre \<Longrightarrow> j = i + length x \<Longrightarrow> subrange i j bytes = x"
  by (simp add: subrange_all)

section \<open>Plain entries\<close>

lemma decode_encode_entry_legacy:
  assumes fit: "entry_fits e" and bytes: "bytes = pre @ encode_entry_legacy e @ suf"
    and d: "length pre + length (encode_entry_legacy e) \<le> data_len"
  shows "decode_entry_legacy bytes (length pre) data_len = Inr (e, length pre + length (encode_entry_legacy e))"
proof -
  let ?k = "u32_le (word_of_nat (length (se_key e)))" and ?v = "u32_le (word_of_nat (length (value_bytes e)))"
    and ?s = "u64_le (se_sequence e)"
  have u: "unat (word_of_nat (length (se_key e)) :: u32) = length (se_key e)"
    "unat (word_of_nat (length (value_bytes e)) :: u32) = length (value_bytes e)"
    using fit by (simp_all add: entry_fits_def unat_of_nat)
  have b: "bytes = pre @ ?k @ (?v @ ?s @ [entry_kind e] @ se_key e @ value_bytes e @ suf)"
    "bytes = (pre @ ?k) @ ?v @ (?s @ [entry_kind e] @ se_key e @ value_bytes e @ suf)"
    "bytes = (pre @ ?k @ ?v) @ ?s @ ([entry_kind e] @ se_key e @ value_bytes e @ suf)"
    "bytes = (pre @ ?k @ ?v @ ?s) @ [entry_kind e] @ (se_key e @ value_bytes e @ suf)"
    "bytes = (pre @ ?k @ ?v @ ?s @ [entry_kind e]) @ se_key e @ (value_bytes e @ suf)"
    "bytes = (pre @ ?k @ ?v @ ?s @ [entry_kind e] @ se_key e) @ value_bytes e @ suf"
    by (simp_all add: bytes encode_entry_legacy_def)
  have len: "length (encode_entry_legacy e) = 17 + length (se_key e) + length (value_bytes e)"
    by (simp add: encode_entry_legacy_def)
  have r: "read_u32_le bytes (length pre) = Inr (word_of_nat (length (se_key e)))"
    "read_u32_le bytes (length pre + 4) = Inr (word_of_nat (length (value_bytes e)))"
    "read_u64_le bytes (length pre + 8) = Inr (se_sequence e)"
    "read_u8 bytes (length pre + 16) = Inr (entry_kind e)"
    "subrange (length pre + 17) (length pre + 17 + length (se_key e)) bytes = se_key e"
    using read_at_pos(1)[OF b(1)] read_at_pos(1)[OF b(2)] read_at_pos(2)[OF b(3)] read_at_pos(3)[OF b(4)]
      subrange_at_pos[OF b(5)] by simp_all
  have v: "decode_value (entry_kind e) bytes (length pre + 17 + length (se_key e)) (length (value_bytes e)) =
      Inr (se_value e, length pre + 17 + length (se_key e) + length (value_bytes e))"
    using decode_value_eq[of "pre @ ?k @ ?v @ ?s @ [entry_kind e] @ se_key e" e "length bytes" bytes]
    by (simp add: b(6) add_ac)
  show ?thesis using d len
    by (simp add: decode_entry_legacy_def r u v Let_def)
qed

lemma decode_legacy_loop_encs:
  assumes "\<forall>e \<in> set es. entry_fits e" and "bytes = pre @ concat (map encode_entry_legacy es) @ suf"
    and "data_len = length pre + length (concat (map encode_entry_legacy es))"
  shows "decode_legacy_loop (length es) bytes (length pre) data_len = Inr es"
  using assms
proof (induction es arbitrary: pre)
  case (Cons e es)
  have "decode_entry_legacy bytes (length pre) data_len = Inr (e, length pre + length (encode_entry_legacy e))"
    using Cons.prems by (intro decode_encode_entry_legacy[where suf = "concat (map encode_entry_legacy es) @ suf"]) auto
  moreover have "decode_legacy_loop (length es) bytes (length (pre @ encode_entry_legacy e)) data_len = Inr es"
    using Cons.prems by (intro Cons.IH) auto
  ultimately show ?case by simp
qed simp

section \<open>Prefix compressed entries\<close>

lemma common_prefix_take: "take (common_prefix_len p k) p = take (common_prefix_len p k) k"
  and common_prefix_le: "common_prefix_len p k \<le> length p" "common_prefix_len p k \<le> length k"
  by (induction p k rule: common_prefix_len.induct) auto

definition shared_len :: "bytes option \<Rightarrow> bytes \<Rightarrow> nat" where
  "shared_len prev k = (case prev of Some p \<Rightarrow> common_prefix_len p k | None \<Rightarrow> 0)"

lemma decode_encode_entry_prefix:
  assumes fit: "entry_fits e" and bytes: "bytes = pre @ encode_entry_prefix e prev @ suf"
    and d: "length pre + length (encode_entry_prefix e prev) \<le> data_len"
    and key: "prev = None \<or> prev = Some key"
  shows "decode_entry_prefix bytes (length pre) data_len key = Inr (e, length pre + length (encode_entry_prefix e prev))"
proof -
  define sh where "sh = shared_len prev (se_key e)"
  define ns where "ns = drop sh (se_key e)"
  let ?k = "u32_le (word_of_nat sh)" and ?n = "u32_le (word_of_nat (length ns))"
    and ?v = "u32_le (word_of_nat (length (value_bytes e)))" and ?s = "u64_le (se_sequence e)"
  have enc: "encode_entry_prefix e prev = ?k @ ?n @ ?v @ ?s @ [entry_kind e] @ ns @ value_bytes e"
    by (simp add: encode_entry_prefix_def Let_def sh_def ns_def shared_len_def)
  have le: "sh \<le> length key" "sh \<le> length (se_key e)" "take sh key @ ns = se_key e"
    using key common_prefix_le[of key "se_key e"] common_prefix_take[of key "se_key e"]
    by (auto simp: sh_def ns_def shared_len_def)
  have u: "unat (word_of_nat sh :: u32) = sh" "unat (word_of_nat (length ns) :: u32) = length ns"
    "unat (word_of_nat (length (value_bytes e)) :: u32) = length (value_bytes e)"
    using fit le(2) by (auto simp: entry_fits_def ns_def intro!: unat_len32 simp del: of_nat_diff length_drop) (simp add: ns_def)
  have b: "bytes = pre @ ?k @ (?n @ ?v @ ?s @ [entry_kind e] @ ns @ value_bytes e @ suf)"
    "bytes = (pre @ ?k) @ ?n @ (?v @ ?s @ [entry_kind e] @ ns @ value_bytes e @ suf)"
    "bytes = (pre @ ?k @ ?n) @ ?v @ (?s @ [entry_kind e] @ ns @ value_bytes e @ suf)"
    "bytes = (pre @ ?k @ ?n @ ?v) @ ?s @ ([entry_kind e] @ ns @ value_bytes e @ suf)"
    "bytes = (pre @ ?k @ ?n @ ?v @ ?s) @ [entry_kind e] @ (ns @ value_bytes e @ suf)"
    "bytes = (pre @ ?k @ ?n @ ?v @ ?s @ [entry_kind e]) @ ns @ (value_bytes e @ suf)"
    "bytes = (pre @ ?k @ ?n @ ?v @ ?s @ [entry_kind e] @ ns) @ value_bytes e @ suf"
    by (simp_all add: bytes enc)
  have len: "length (encode_entry_prefix e prev) = 21 + length ns + length (value_bytes e)" by (simp add: enc)
  have r: "read_u32_le bytes (length pre) = Inr (word_of_nat sh)"
    "read_u32_le bytes (length pre + 4) = Inr (word_of_nat (length ns))"
    "read_u32_le bytes (length pre + 8) = Inr (word_of_nat (length (value_bytes e)))"
    "read_u64_le bytes (length pre + 12) = Inr (se_sequence e)"
    "read_u8 bytes (length pre + 20) = Inr (entry_kind e)"
    "subrange (length pre + 21) (length pre + 21 + length ns) bytes = ns"
    using read_at_pos(1)[OF b(1)] read_at_pos(1)[OF b(2)] read_at_pos(1)[OF b(3)] read_at_pos(2)[OF b(4)]
      read_at_pos(3)[OF b(5)] subrange_at_pos[OF b(6)] by simp_all
  have v: "decode_value (entry_kind e) bytes (length pre + 21 + length ns) (length (value_bytes e)) =
      Inr (se_value e, length pre + 21 + length ns + length (value_bytes e))"
    using decode_value_eq[of "pre @ ?k @ ?n @ ?v @ ?s @ [entry_kind e] @ ns" e "length bytes" bytes]
    by (simp add: b(7) add_ac)
  show ?thesis using d len le
    by (simp add: decode_entry_prefix_def r u v Let_def)
qed

text \<open>The entry region and the restart offsets that the encoder's loop builds.\<close>

fun prefix_region :: "nat \<Rightarrow> bytes option \<Rightarrow> sst_entry list \<Rightarrow> bytes" where
  "prefix_region i prev [] = []"
| "prefix_region i prev (e # es) =
    encode_entry_prefix e (if i mod PREFIX_RESTART_INTERVAL = 0 then None else prev)
    @ prefix_region (i + 1) (Some (se_key e)) es"

fun prefix_restarts :: "nat \<Rightarrow> bytes option \<Rightarrow> nat \<Rightarrow> sst_entry list \<Rightarrow> nat list" where
  "prefix_restarts i prev off [] = []"
| "prefix_restarts i prev off (e # es) =
    (if i mod PREFIX_RESTART_INTERVAL = 0 then [off] else [])
    @ prefix_restarts (i + 1) (Some (se_key e))
        (off + length (encode_entry_prefix e (if i mod PREFIX_RESTART_INTERVAL = 0 then None else prev))) es"

lemma encode_prefix_loop_eq:
  "encode_prefix_loop i prev es region restarts =
    (region @ prefix_region i prev es, restarts @ map word_of_nat (prefix_restarts i prev (length region) es))"
  by (induction es arbitrary: i prev region restarts) (simp_all add: Let_def)

lemma length_encode_entry_prefix: "21 \<le> length (encode_entry_prefix e prev)"
  by (simp add: encode_entry_prefix_def Let_def)

lemma prefix_restarts_range:
  "r \<in> set (prefix_restarts i prev off es) \<Longrightarrow> off \<le> r \<and> r < off + length (prefix_region i prev es)"
proof (induction es arbitrary: i prev off)
  case (Cons e es)
  define n where "n = length (encode_entry_prefix e (if i mod PREFIX_RESTART_INTERVAL = 0 then None else prev))"
  have n: "21 \<le> n" unfolding n_def by (rule length_encode_entry_prefix)
  have len: "length (prefix_region i prev (e # es)) = n + length (prefix_region (i + 1) (Some (se_key e)) es)"
    by (simp only: prefix_region.simps length_append n_def)
  have "r = off \<or> r \<in> set (prefix_restarts (i + 1) (Some (se_key e)) (off + n) es)"
    using Cons.prems by (simp add: n_def split: if_splits)
  then show ?case
  proof
    assume "r \<in> set (prefix_restarts (i + 1) (Some (se_key e)) (off + n) es)"
    from Cons.IH[OF this] show ?thesis using len by linarith
  qed (use n len in linarith)
qed simp

lemma prefix_restarts_sorted: "sorted_wrt (<) (prefix_restarts i prev off es)"
proof (induction es arbitrary: i prev off)
  case (Cons e es)
  have "off < r" if "r \<in> set (prefix_restarts (i + 1) (Some (se_key e))
      (off + length (encode_entry_prefix e (if i mod PREFIX_RESTART_INTERVAL = 0 then None else prev))) es)" for r
    using prefix_restarts_range[OF that] length_encode_entry_prefix[of e "if i mod PREFIX_RESTART_INTERVAL = 0 then None else prev"]
    by linarith
  then show ?case using Cons.IH by (simp add: sorted_wrt_append)
qed simp

lemma length_prefix_restarts: "length (prefix_restarts i prev off es) \<le> length es"
proof (induction es arbitrary: i prev off)
  case (Cons e es)
  show ?case using Cons.IH by (simp add: le_SucI)
qed simp

lemma skip_restarts_other: "\<forall>r \<in> set rs. offset < 8 + r \<Longrightarrow> skip_restarts offset rs key = (rs, key)"
  by (cases rs) auto

lemma skip_prefix_restarts:
  "skip_restarts (8 + off) (prefix_restarts i prev off (e # es)) key =
    (prefix_restarts (i + 1) (Some (se_key e))
        (off + length (encode_entry_prefix e (if i mod PREFIX_RESTART_INTERVAL = 0 then None else prev))) es,
     if i mod PREFIX_RESTART_INTERVAL = 0 then [] else key)"
proof -
  let ?p = "if i mod PREFIX_RESTART_INTERVAL = 0 then None else prev"
  let ?rs = "prefix_restarts (i + 1) (Some (se_key e)) (off + length (encode_entry_prefix e ?p)) es"
  have "8 + off < 8 + r" if "r \<in> set ?rs" for r
    using prefix_restarts_range[OF that] length_encode_entry_prefix[of e ?p] by linarith
  then have "skip_restarts (8 + off) ?rs k = (?rs, k)" for k by (intro skip_restarts_other ballI)
  from this[of "[]"] this[of key] show ?thesis by (cases "i mod PREFIX_RESTART_INTERVAL = 0") simp_all
qed

lemma decode_prefix_loop_region:
  assumes "\<forall>e \<in> set es. entry_fits e" and "bytes = pre @ prefix_region i prev es @ suf"
    and "length pre = 8 + off" and "entries_end = length pre + length (prefix_region i prev es)"
    and "i mod PREFIX_RESTART_INTERVAL = 0 \<or> prev = Some key"
  shows "decode_prefix_loop (length es) bytes (length pre) entries_end (prefix_restarts i prev off es) key =
    Inr (es, entries_end)"
  using assms
proof (induction es arbitrary: pre i prev off key)
  case (Cons e es)
  let ?p = "if i mod PREFIX_RESTART_INTERVAL = 0 then None else prev"
  let ?key = "if i mod PREFIX_RESTART_INTERVAL = 0 then [] else key"
  let ?enc = "encode_entry_prefix e ?p"
  have 1: "decode_entry_prefix bytes (length pre) entries_end ?key = Inr (e, length pre + length ?enc)"
    using Cons.prems
    by (intro decode_encode_entry_prefix[where suf = "prefix_region (i + 1) (Some (se_key e)) es @ suf"]) auto
  have 2: "decode_prefix_loop (length es) bytes (length (pre @ ?enc)) entries_end
      (prefix_restarts (i + 1) (Some (se_key e)) (off + length ?enc) es) (se_key e) = Inr (es, entries_end)"
    using Cons.prems by (intro Cons.IH) auto
  show ?case
    unfolding length_Cons decode_prefix_loop.simps Cons.prems(3) skip_prefix_restarts prod.case
    using 1 2 unfolding length_append Cons.prems(3) by (simp only: res_bind_simps prod.case)
qed simp

lemma read_restarts_encoded:
  assumes "bytes = pre @ concat (map u32_le (map word_of_nat rs)) @ suf"
    and "sorted_wrt (<) rs" and "\<forall>r \<in> set rs. r \<le> span \<and> r < 2 ^ 32"
    and "case prev of Some p \<Rightarrow> (\<forall>r \<in> set rs. p < r) | None \<Rightarrow> True"
  shows "read_restarts (length rs) bytes (length pre) span prev = Inr rs"
  using assms
proof (induction rs arbitrary: pre prev)
  case (Cons r rs)
  have r: "read_u32_le bytes (length pre) = Inr (word_of_nat r)"
    using Cons.prems(1) read_at_pos(1)[of bytes pre "u32_le (word_of_nat r)"] by simp
  have u: "unat (word_of_nat r :: u32) = r" using Cons.prems(3) by (intro unat_len32) simp
  have "read_restarts (length rs) bytes (length (pre @ u32_le (word_of_nat r))) span (Some r) = Inr rs"
  proof (rule Cons.IH)
    show "bytes = (pre @ u32_le (word_of_nat r)) @ concat (map u32_le (map word_of_nat rs)) @ suf"
      using Cons.prems(1) by simp
    show "sorted_wrt (<) rs" "\<forall>r \<in> set rs. r \<le> span \<and> r < 2 ^ 32" "case Some r of Some p \<Rightarrow> \<forall>r \<in> set rs. p < r | None \<Rightarrow> True"
      using Cons.prems(2,3) by simp_all
  qed
  then have ih: "read_restarts (length rs) bytes (length pre + 4) span (Some r) = Inr rs" by simp
  have g: "\<not> span < r" "\<not> (case prev of Some p \<Rightarrow> r \<le> p | None \<Rightarrow> False)"
    using Cons.prems(3,4) by (auto split: option.splits)
  show ?case by (simp only: length_Cons read_restarts.simps r res_bind_simps Let_def u g if_False ih)
qed simp

section \<open>Checksummed blocks\<close>

definition sealed :: "bytes \<Rightarrow> bytes" where
  "sealed b = b @ u32_le (crc32c b)"

lemma length_sealed [simp]: "length (sealed b) = length b + 4"
  by (simp add: sealed_def)

lemma read_sealed_crc [simp]: "read_u32_le (sealed b) (length b) = Inr (crc32c b)"
  using read_at_pos(1)[of "sealed b" b "u32_le (crc32c b)" "[]"] by (simp add: sealed_def)

lemma take_sealed [simp]: "take (length b) (sealed b) = b"
  by (simp add: sealed_def)

lemma sealed_damaged:
  assumes i: "i < length (sealed b)" and v: "v \<noteq> sealed b ! i"
  shows "\<exists>c. read_u32_le ((sealed b)[i := v]) (length b) = Inr c \<and> c \<noteq> crc32c (take (length b) ((sealed b)[i := v]))"
proof (cases "i < length b")
  case True
  then have "(sealed b)[i := v] = b[i := v] @ u32_le (crc32c b)" by (simp add: sealed_def list_update_append)
  moreover have "crc32c (b[i := v]) \<noteq> crc32c b"
    using True v by (simp add: crc32c_list_update sealed_def nth_append)
  ultimately show ?thesis
    using read_at_pos(1)[of "(sealed b)[i := v]" "b[i := v]" "u32_le (crc32c b)" "[]"] True
    by auto
next
  case False
  define j where "j = i - length b"
  let ?c = "(u32_le (crc32c b))[j := v]"
  have eq: "(sealed b)[i := v] = b @ ?c" using False by (simp add: sealed_def list_update_append j_def)
  have "?c \<noteq> u32_le (crc32c b)"
    using i v False by (intro list_update_ne) (auto simp: j_def sealed_def nth_append)
  then have "(from_le ?c :: u32) \<noteq> from_le (u32_le (crc32c b))"
    using from_le_inject[of ?c 4 "u32_le (crc32c b)", where ?'a = 32] by simp
  then show ?thesis
    using read_at_pos(1)[of "(sealed b)[i := v]" b ?c "[]"] eq by auto
qed

section \<open>Data blocks\<close>

text \<open>
  What a block of entries must satisfy for its 32-bit fields: every key and value, the number of entries, and
  with prefix compression the entry region, are below 4 GiB.
\<close>

definition block_fits :: "sst_entry list \<Rightarrow> bool \<Rightarrow> bool" where
  "block_fits es pc \<longleftrightarrow> list_all entry_fits es \<and> length es < 2 ^ 32 \<and>
    (pc \<longrightarrow> length (prefix_region 0 None es) < 2 ^ 32)"

definition block_body :: "sst_entry list \<Rightarrow> bool \<Rightarrow> bytes" where
  "block_body es pc =
    (if pc then u32_le (word_of_nat (length es)) @ u32_le (word_of_nat (length (prefix_restarts 0 None 0 es)))
       @ prefix_region 0 None es @ concat (map u32_le (map word_of_nat (prefix_restarts 0 None 0 es)))
     else u32_le (word_of_nat (length es)) @ u32_le 0 @ concat (map encode_entry_legacy es))"

lemma encode_data_block_sealed: "encode_data_block es pc = sealed (block_body es pc)"
  by (simp add: encode_data_block_def sealed_def block_body_def encode_prefix_loop_eq Let_def)

lemma block_body_len: "8 \<le> length (block_body es pc)"
  by (simp add: block_body_def)

lemma decode_sealed_block:
  assumes "8 \<le> length b"
  shows "decode_data_block (sealed b) =
    res_bind (read_u32_le (sealed b) 0) (\<lambda>entry_count.
    res_bind (read_u32_le (sealed b) 4) (\<lambda>restart_count.
      if restart_count = 0 then decode_legacy_loop (unat entry_count) (sealed b) 8 (length b)
      else
        let restarts_bytes = unat restart_count * 4
        in if length b < 8 + restarts_bytes then Inl (Corruption ''truncated restart array'')
           else
             let entries_end = length b - restarts_bytes
             in res_bind (read_restarts (unat restart_count) (sealed b) entries_end (entries_end - 8) None) (\<lambda>restarts.
                res_bind (decode_prefix_loop (unat entry_count) (sealed b) 8 entries_end restarts []) (\<lambda>(es, end).
                  if end \<noteq> entries_end then Inl (Corruption ''prefix entries region size mismatch'')
                  else Inr es))))"
  using assms by (simp add: decode_data_block_def Let_def)

lemma length_concat_u32: "length (concat (map u32_le rs)) = 4 * length rs"
  by (induction rs) simp_all

lemma decode_data_block_prefix:
  assumes fits: "block_fits es True" and ne: "es \<noteq> []"
  shows "decode_data_block (encode_data_block es True) = Inr es"
proof -
  let ?rs = "prefix_restarts 0 None 0 es" and ?reg = "prefix_region 0 None es"
  let ?n = "u32_le (word_of_nat (length es))" and ?m = "u32_le (word_of_nat (length ?rs))"
  let ?tl = "concat (map u32_le (map word_of_nat ?rs))"
  define b where "b = block_body es True"
  have b: "sealed b = ?n @ ?m @ ?reg @ ?tl @ u32_le (crc32c b)"
    by (simp add: sealed_def b_def block_body_def)
  have ln: "length es < 2 ^ 32" "length ?rs < 2 ^ 32"
    using fits length_prefix_restarts[of 0 None 0 es] by (auto simp: block_fits_def)
  then have u: "unat (word_of_nat (length es) :: u32) = length es" "unat (word_of_nat (length ?rs) :: u32) = length ?rs"
    by (simp_all only: unat_len32)
  have pos: "0 < length ?rs" using ne by (cases es) simp_all
  then have nz: "(word_of_nat (length ?rs) :: u32) \<noteq> 0" using u(2) by fastforce
  have lb: "length b = 8 + length ?reg + 4 * length ?rs"
    by (simp add: b_def block_body_def length_concat_u32 del: map_map)
  have r0: "read_u32_le (sealed b) 0 = Inr (word_of_nat (length es))"
    using read_at_pos(1)[of "sealed b" "[]" ?n] b by simp
  have r4: "read_u32_le (sealed b) 4 = Inr (word_of_nat (length ?rs))"
    using read_at_pos(1)[of "sealed b" ?n ?m] b by simp
  have rs: "read_restarts (length ?rs) (sealed b) (length (?n @ ?m @ ?reg)) (length ?reg) None = Inr ?rs"
  proof (rule read_restarts_encoded)
    show "sealed b = (?n @ ?m @ ?reg) @ ?tl @ u32_le (crc32c b)" using b by simp
    show "\<forall>r \<in> set ?rs. r \<le> length ?reg \<and> r < 2 ^ 32"
    proof
      fix r assume "r \<in> set ?rs"
      from prefix_restarts_range[OF this] show "r \<le> length ?reg \<and> r < 2 ^ 32"
        using fits unfolding block_fits_def by auto
    qed
  qed (simp_all add: prefix_restarts_sorted)
  have dl: "decode_prefix_loop (length es) (sealed b) (length (?n @ ?m)) (length (?n @ ?m) + length ?reg) ?rs [] =
      Inr (es, length (?n @ ?m) + length ?reg)"
  proof (rule decode_prefix_loop_region)
    show "sealed b = (?n @ ?m) @ ?reg @ (?tl @ u32_le (crc32c b))" using b by simp
    show "\<forall>e \<in> set es. entry_fits e" using fits by (simp add: block_fits_def list_all_iff)
  qed simp_all
  show ?thesis
    unfolding encode_data_block_sealed b_def[symmetric]
    by (subst decode_sealed_block)
      (use rs dl in \<open>simp_all add: lb r0 r4 u nz Let_def block_body_len del: concat.simps\<close>)
qed

lemma decode_data_block_legacy:
  assumes fits: "block_fits es pc" and c: "\<not> pc \<or> es = []"
  shows "decode_data_block (encode_data_block es pc) = Inr es"
proof -
  let ?n = "u32_le (word_of_nat (length es))"
  define b where "b = block_body es pc"
  have b: "sealed b = ?n @ u32_le 0 @ concat (map encode_entry_legacy es) @ u32_le (crc32c b)"
    using c by (auto simp: sealed_def b_def block_body_def)
  have u: "unat (word_of_nat (length es) :: u32) = length es"
    using fits unfolding block_fits_def by (intro unat_len32) simp
  have r: "read_u32_le (sealed b) 0 = Inr (word_of_nat (length es))" "read_u32_le (sealed b) 4 = Inr 0"
    using read_at_pos(1)[of "sealed b" "[]" ?n] read_at_pos(1)[of "sealed b" ?n "u32_le 0"] b by simp_all
  have lb: "length b = length (?n @ u32_le 0) + length (concat (map encode_entry_legacy es))"
    using c by (auto simp: b_def block_body_def)
  have "decode_legacy_loop (length es) (sealed b) (length (?n @ u32_le 0)) (length b) = Inr es"
    by (rule decode_legacy_loop_encs[where suf = "u32_le (crc32c b)", OF _ _ lb])
      (use fits b in \<open>simp_all add: block_fits_def list_all_iff\<close>)
  then show ?thesis
    unfolding encode_data_block_sealed b_def[symmetric]
    by (subst decode_sealed_block) (simp_all add: lb r u)
qed

lemma decode_encode_data_block: "block_fits es pc \<Longrightarrow> decode_data_block (encode_data_block es pc) = Inr es"
  using decode_data_block_prefix[of es] decode_data_block_legacy[of es pc] by (cases "pc \<and> es \<noteq> []") auto

lemma decode_data_block_damaged:
  assumes "i < length (encode_data_block es pc)" and "v \<noteq> encode_data_block es pc ! i"
  shows "decode_data_block ((encode_data_block es pc)[i := v]) = Inl (Corruption ''SSTable data block CRC mismatch'')"
proof -
  obtain c where "read_u32_le ((sealed (block_body es pc))[i := v]) (length (block_body es pc)) = Inr c"
    "c \<noteq> crc32c (take (length (block_body es pc)) ((sealed (block_body es pc))[i := v]))"
    using sealed_damaged assms unfolding encode_data_block_sealed by blast
  then show ?thesis
    using block_body_len[of es pc] by (simp add: encode_data_block_sealed decode_data_block_def Let_def)
qed

section \<open>Index blocks\<close>

definition index_fits :: "index_entry list \<Rightarrow> bool" where
  "index_fits ies \<longleftrightarrow> length ies < 2 ^ 32 \<and> list_all (\<lambda>ie. length (separator_key ie) < 2 ^ 32) ies"

lemma decode_index_loop_encs:
  assumes "list_all (\<lambda>ie. length (separator_key ie) < 2 ^ 32) ies"
    and "bytes = pre @ concat (map encode_index_entry ies) @ suf"
    and "data_len = length pre + length (concat (map encode_index_entry ies))"
  shows "decode_index_loop (length ies) bytes (length pre) data_len = Inr ies"
  using assms
proof (induction ies arbitrary: pre)
  case (Cons ie ies)
  let ?l = "u32_le (word_of_nat (length (separator_key ie)))" and ?o = "u64_le (block_offset ie)"
    and ?b = "u32_le (block_len ie)" and ?f = "u64_le (first_seq ie)" and ?s = "u64_le (last_seq ie)"
  let ?rest = "concat (map encode_index_entry ies) @ suf"
  have u: "unat (word_of_nat (length (separator_key ie)) :: u32) = length (separator_key ie)"
    using Cons.prems(1) by (intro unat_len32) simp
  have b: "bytes = pre @ ?l @ (?o @ ?b @ ?f @ ?s @ separator_key ie @ ?rest)"
    "bytes = (pre @ ?l) @ ?o @ (?b @ ?f @ ?s @ separator_key ie @ ?rest)"
    "bytes = (pre @ ?l @ ?o) @ ?b @ (?f @ ?s @ separator_key ie @ ?rest)"
    "bytes = (pre @ ?l @ ?o @ ?b) @ ?f @ (?s @ separator_key ie @ ?rest)"
    "bytes = (pre @ ?l @ ?o @ ?b @ ?f) @ ?s @ (separator_key ie @ ?rest)"
    "bytes = (pre @ ?l @ ?o @ ?b @ ?f @ ?s) @ separator_key ie @ ?rest"
    using Cons.prems(2) by (simp_all add: encode_index_entry_def[of ie])
  have r: "read_u32_le bytes (length pre) = Inr (word_of_nat (length (separator_key ie)))"
    "read_u64_le bytes (length pre + 4) = Inr (block_offset ie)"
    "read_u32_le bytes (length pre + 12) = Inr (block_len ie)"
    "read_u64_le bytes (length pre + 16) = Inr (first_seq ie)"
    "read_u64_le bytes (length pre + 24) = Inr (last_seq ie)"
    "subrange (length pre + 32) (length pre + 32 + length (separator_key ie)) bytes = separator_key ie"
    using read_at_pos(1)[OF b(1)] read_at_pos(2)[OF b(2)] read_at_pos(1)[OF b(3)] read_at_pos(2)[OF b(4)]
      read_at_pos(2)[OF b(5)] subrange_at_pos[OF b(6)] by simp_all
  have len: "length (encode_index_entry ie) = 32 + length (separator_key ie)" by (simp add: encode_index_entry_def)
  have "decode_index_loop (length ies) bytes (length (pre @ encode_index_entry ie)) data_len = Inr ies"
    using Cons.prems by (intro Cons.IH) simp_all
  then have ih: "decode_index_loop (length ies) bytes (length pre + 32 + length (separator_key ie)) data_len = Inr ies"
    by (simp add: len add.assoc)
  have "length pre + 32 + length (separator_key ie) \<le> data_len" using Cons.prems(3) len by simp
  then show ?case by (simp add: r u ih)
qed simp

lemma finalize_index_sealed:
  "finalize_index_block ies = sealed (u32_le (word_of_nat (length ies)) @ concat (map encode_index_entry ies))"
  by (simp add: finalize_index_block_def sealed_def Let_def)

lemma decode_finalize_index:
  assumes "index_fits ies"
  shows "decode_index_block (finalize_index_block ies) = Inr ies"
proof -
  let ?n = "u32_le (word_of_nat (length ies))"
  define b where "b = ?n @ concat (map encode_index_entry ies)"
  have s: "sealed b = ?n @ concat (map encode_index_entry ies) @ u32_le (crc32c b)" by (simp add: sealed_def b_def)
  have u: "unat (word_of_nat (length ies) :: u32) = length ies"
    using assms unfolding index_fits_def by (intro unat_len32) simp
  have r: "read_u32_le (sealed b) 0 = Inr (word_of_nat (length ies))"
    using read_at_pos(1)[of "sealed b" "[]" ?n] s by simp
  have "decode_index_loop (length ies) (sealed b) (length ?n) (length b) = Inr ies"
    by (rule decode_index_loop_encs[of _ _ _ "u32_le (crc32c b)"]) (use assms s in \<open>simp_all add: index_fits_def b_def\<close>)
  then show ?thesis
    unfolding finalize_index_sealed b_def[symmetric] decode_index_block_def by (simp add: r u Let_def) (simp add: b_def)
qed

section \<open>Stored form\<close>

lemma unwrap_wrap:
  assumes "compressors_ok C" and "codec \<in> {COMPRESSION_CODEC_NONE, COMPRESSION_CODEC_LZ4, COMPRESSION_CODEC_ZSTD}"
  shows "unwrap_data_block_from_storage C (wrap_data_block_for_storage C raw codec) codec = Inr raw"
  using assms
  by (cases "zstd_encode C raw")
    (auto simp: unwrap_data_block_from_storage_def wrap_data_block_for_storage_def codec_consts compressors_ok_def Let_def)

text \<open>Compression costs at most the one byte that names the stored form.\<close>

lemma wrap_length: "length (wrap_data_block_for_storage C raw codec) \<le> length raw + 1"
  by (auto simp: wrap_data_block_for_storage_def Let_def)

section \<open>Properties\<close>

text \<open>
  C20. A data block, plain or prefix compressed, is decoded from its stored form to the entries it was built
  from, for every codec. The checksum is computed over the block before compression: the decoder refuses an encoded block in
  which one byte was replaced, and so the read of a block stored without compression refuses it. Damage to the bytes of
  a compressed block goes to the decompressor first, about which nothing is assumed but that it inverts the compressor.
\<close>

theorem data_block_integrity:
  assumes "compressors_ok C" and "block_fits es pc"
    and "codec \<in> {COMPRESSION_CODEC_NONE, COMPRESSION_CODEC_LZ4, COMPRESSION_CODEC_ZSTD}"
  shows "res_bind (unwrap_data_block_from_storage C (wrap_data_block_for_storage C (encode_data_block es pc) codec) codec)
      decode_data_block = Inr es \<and>
    (i < length (encode_data_block es pc) \<and> v \<noteq> encode_data_block es pc ! i \<longrightarrow>
      decode_data_block ((encode_data_block es pc)[i := v]) = Inl (Corruption ''SSTable data block CRC mismatch'') \<and>
      res_bind (unwrap_data_block_from_storage C
          ((wrap_data_block_for_storage C (encode_data_block es pc) COMPRESSION_CODEC_NONE)[i := v]) COMPRESSION_CODEC_NONE)
        decode_data_block = Inl (Corruption ''SSTable data block CRC mismatch''))"
  using unwrap_wrap[OF assms(1,3)] decode_encode_data_block[OF assms(2)] decode_data_block_damaged[of i es pc v]
  by (simp add: wrap_data_block_for_storage_def unwrap_data_block_from_storage_def)

theorem data_block_integrity_witness:
  "decode_data_block ((encode_data_block [\<lparr>se_key = [5], se_value = None, se_sequence = 1\<rparr>] True)[0 := 9]) =
    Inl (Corruption ''SSTable data block CRC mismatch'')"
proof -
  let ?es = "[\<lparr>se_key = [5], se_value = None, se_sequence = 1\<rparr>] :: sst_entry list"
  let ?C = "\<lparr>lz4_compress = (\<lambda>b. b), lz4_decompress = Inr, zstd_encode = (\<lambda>_. None), zstd_decode = (\<lambda>_. Inl [])\<rparr>"
  have C: "compressors_ok ?C" by (simp add: compressors_ok_def)
  have fits: "block_fits ?es True"
    by (simp add: block_fits_def entry_fits_def value_bytes_def encode_entry_prefix_def Let_def)
  have len: "0 < length (encode_data_block ?es True)" by (simp add: encode_data_block_sealed)
  have one: "u32_le (1 :: u32) = [1, 0, 0, 0]" by code_simp
  have "block_body ?es True ! 0 = 1" and "0 < length (block_body ?es True)" by (simp_all add: block_body_def one)
  then have "encode_data_block ?es True ! 0 = 1" by (simp add: encode_data_block_sealed sealed_def nth_append)
  then show ?thesis using data_block_integrity[OF C fits, of COMPRESSION_CODEC_NONE 0 9] len by simp
qed

end
