(* ===== verification/Sst_Footer.thy ===== *)
theory Sst_Footer
  imports Sst_Block
begin

text \<open>
  The bloom filter and the footer of a table file, \<^verbatim>\<open>src/crates/kaya-lsm/src/sstable.rs\<close>. The bloom filter has
  no false negatives. A footer of version 3 or 4 is always read back as written; a footer of version
  2 is not when the third and fourth byte of its entry count happen to spell the length of a version 3
  footer.
\<close>

section \<open>Bloom filter\<close>

text \<open>
  The number of hashes is \<^verbatim>\<open>(f64::from(bits_per_key) * LN_2).ceil()\<close>. The double \<^verbatim>\<open>LN_2\<close> is
  6243314768165359 / 2^53; the product is rounded to 53 significant bits, ties to even.
\<close>

fun bit_len :: "nat \<Rightarrow> nat" where
  "bit_len n = (if n = 0 then 0 else Suc (bit_len (n div 2)))"

declare bit_len.simps [simp del]

definition round53 :: "nat \<Rightarrow> nat" where
  "round53 p =
    (let s = bit_len p - 53; q = p div 2 ^ s; r = p mod 2 ^ s;
         q' = (if 2 * r > 2 ^ s \<or> (2 * r = 2 ^ s \<and> odd q) then q + 1 else q)
     in q' * 2 ^ s)"

definition bloom_hash_count :: "u32 \<Rightarrow> u32" where
  "bloom_hash_count bits_per_key =
    (let p = round53 (unat bits_per_key * 6243314768165359); k = (p + 2 ^ 53 - 1) div 2 ^ 53
     in max (word_of_nat k) 1)"

definition bloom_num_bits :: "nat \<Rightarrow> u32 \<Rightarrow> u32" where
  "bloom_num_bits num_keys bits_per_key =
    (let bits = min (num_keys * unat bits_per_key) (2 ^ 64 - 1) in word_of_nat (max bits 64))"

definition bloom_hash_pair :: "bytes \<Rightarrow> u64 \<times> u64" where
  "bloom_hash_pair key =
    (let h1 = ucast (crc32c key) :: u64;
         seed_bytes = key @ take 4 (u64_le h1);
         h2 = (ucast (crc32c seed_bytes) :: u64) OR 1
     in (h1, h2))"

definition bloom_bit_index :: "u64 \<Rightarrow> u64 \<Rightarrow> u32 \<Rightarrow> u32 \<Rightarrow> u32" where
  "bloom_bit_index h1 h2 i num_bits = ucast ((h1 + ucast i * h2) mod ucast num_bits)"

definition bloom_set_bit :: "bytes \<Rightarrow> u32 \<Rightarrow> bytes" where
  "bloom_set_bit bits index =
    (let byte = unat index div 8; b = unat index mod 8 in bits[byte := bits ! byte OR push_bit b 1])"

definition bloom_get_bit :: "bytes \<Rightarrow> u32 \<Rightarrow> bool" where
  "bloom_get_bit bits index =
    (let byte = unat index div 8; b = unat index mod 8 in bits ! byte AND push_bit b 1 \<noteq> 0)"

definition u32_saturating_mul8 :: "u32 \<Rightarrow> u32" where
  "u32_saturating_mul8 n = (if unat n * 8 < 2 ^ 32 then n * 8 else - 1)"

definition set_key_bits :: "u32 \<Rightarrow> u32 \<Rightarrow> bytes \<Rightarrow> bytes \<Rightarrow> bytes" where
  "set_key_bits hash_count num_bits key bits =
    (case bloom_hash_pair key of
       (h1, h2) \<Rightarrow> fold (\<lambda>i bits. bloom_set_bit bits (bloom_bit_index h1 h2 (word_of_nat i) num_bits))
                    [0..<unat hash_count] bits)"

text \<open>The result is \<^verbatim>\<open>None\<close> when the bit count is zero, where the code panics on a remainder by zero.\<close>

definition build_bloom_filter :: "bytes list \<Rightarrow> u32 \<Rightarrow> (bytes \<times> u32) option" where
  "build_bloom_filter keys bits_per_key =
    (let hash_count = bloom_hash_count bits_per_key;
         target_bits = bloom_num_bits (length keys) bits_per_key;
         byte_len = (unat target_bits + 7) div 8;
         num_bits = u32_saturating_mul8 (word_of_nat byte_len)
     in if num_bits = 0 \<and> keys \<noteq> [] then None
        else Some (fold (set_key_bits hash_count num_bits) keys (replicate byte_len 0), hash_count))"

record bloom_filter =
  bf_bits :: bytes
  bf_num_bits :: u32
  bf_hash_count :: u32

definition bloom_from_bytes :: "bytes \<Rightarrow> u32 \<Rightarrow> bloom_filter result" where
  "bloom_from_bytes bytes hash_count =
    (if hash_count = 0 then Inl (Corruption ''bloom filter hash_count is zero'')
     else
       let num_bits = u32_saturating_mul8 (word_of_nat (length bytes))
       in if num_bits = 0 then Inl (Corruption ''bloom filter is empty'')
          else Inr \<lparr>bf_bits = bytes, bf_num_bits = num_bits, bf_hash_count = hash_count\<rparr>)"

definition might_contain :: "bloom_filter \<Rightarrow> bytes \<Rightarrow> bool" where
  "might_contain f key =
    (case bloom_hash_pair key of
       (h1, h2) \<Rightarrow> list_all (\<lambda>i. bloom_get_bit (bf_bits f) (bloom_bit_index h1 h2 (word_of_nat i) (bf_num_bits f)))
                    [0..<unat (bf_hash_count f)])"

section \<open>Footer\<close>

definition SST_MAGIC :: u32 where "SST_MAGIC = 0x4b535354"
definition SST_VERSION :: u16 where "SST_VERSION = 3"
definition SST_VERSION_V1 :: u16 where "SST_VERSION_V1 = 1"
definition SST_VERSION_V2 :: u16 where "SST_VERSION_V2 = 2"
definition SST_VERSION_V4 :: u16 where "SST_VERSION_V4 = 4"
definition SST_FOOTER_LEN :: nat where "SST_FOOTER_LEN = 48"
definition SST_FOOTER_LEN_V2 :: nat where "SST_FOOTER_LEN_V2 = 64"
definition SST_FOOTER_LEN_V3 :: nat where "SST_FOOTER_LEN_V3 = 72"

lemmas sst_consts = SST_MAGIC_def SST_VERSION_def SST_VERSION_V1_def SST_VERSION_V2_def SST_VERSION_V4_def
  SST_FOOTER_LEN_def SST_FOOTER_LEN_V2_def SST_FOOTER_LEN_V3_def

record sst_footer =
  index_block_offset :: u64
  index_block_len :: u32
  ft_min_seq :: u64
  ft_max_seq :: u64
  ft_entry_count :: u64
  format_version :: u16
  bloom_offset :: u64
  bloom_len :: u32
  ft_bloom_hash_count :: u32
  compression_codec :: u32

definition physical_len :: "sst_footer \<Rightarrow> nat" where
  "physical_len f =
    (if format_version f \<le> SST_VERSION_V1 then SST_FOOTER_LEN
     else if format_version f = SST_VERSION_V2 then SST_FOOTER_LEN_V2
     else SST_FOOTER_LEN_V3)"

definition encode_footer :: "sst_footer \<Rightarrow> bytes" where
  "encode_footer f =
    (let plen = physical_len f;
         buf = u64_le (index_block_offset f) @ u32_le (index_block_len f) @ u64_le (ft_min_seq f)
           @ u64_le (ft_max_seq f) @ u64_le (ft_entry_count f) @ u16_le (format_version f)
           @ u16_le (word_of_nat plen)
           @ (if plen \<ge> SST_FOOTER_LEN_V2
              then u64_le (bloom_offset f) @ u32_le (bloom_len f) @ u32_le (ft_bloom_hash_count f) else [])
           @ (if plen = SST_FOOTER_LEN_V3 then u32_le (compression_codec f) @ u32_le 0 else []);
         crc = crc32c (take (plen - 8) buf)
     in buf @ u32_le crc @ u32_le SST_MAGIC)"

text \<open>The footer length stored at the place where a footer of length \<^verbatim>\<open>n\<close> keeps it.\<close>

definition stored_footer_len :: "bytes \<Rightarrow> nat \<Rightarrow> u16 result" where
  "stored_footer_len bytes n = read_u16_le (drop (length bytes - n) bytes) 38"

definition detect_v1 :: "bytes \<Rightarrow> nat result" where
  "detect_v1 bytes =
    res_bind (stored_footer_len bytes SST_FOOTER_LEN) (\<lambda>n1.
      if n1 = word_of_nat SST_FOOTER_LEN then Inr SST_FOOTER_LEN
      else Inl (Corruption (''invalid SSTable footer_len: '' @ fmt_dec (unat n1))))"

definition detect_v2 :: "bytes \<Rightarrow> nat result" where
  "detect_v2 bytes =
    (if length bytes \<ge> SST_FOOTER_LEN_V2
     then res_bind (stored_footer_len bytes SST_FOOTER_LEN_V2) (\<lambda>n2.
            if n2 = word_of_nat SST_FOOTER_LEN_V2 then Inr SST_FOOTER_LEN_V2 else detect_v1 bytes)
     else detect_v1 bytes)"

definition detect_footer_len :: "bytes \<Rightarrow> nat result" where
  "detect_footer_len bytes =
    (if length bytes \<ge> SST_FOOTER_LEN_V3
     then res_bind (stored_footer_len bytes SST_FOOTER_LEN_V3) (\<lambda>n3.
            if n3 = word_of_nat SST_FOOTER_LEN_V3 then Inr SST_FOOTER_LEN_V3 else detect_v2 bytes)
     else detect_v2 bytes)"

definition decode_footer :: "bytes \<Rightarrow> sst_footer result" where
  "decode_footer bytes =
    (if length bytes < SST_FOOTER_LEN then Inl (Corruption ''file too short for SSTable footer'')
     else
       res_bind (read_u32_le (drop (length bytes - 4) bytes) 0) (\<lambda>magic.
       if magic \<noteq> SST_MAGIC
       then Inl (Corruption (''bad SSTable magic: 0x'' @ fmt_hex 8 (unat magic) @ '' (expected 0x''
              @ fmt_hex 8 (unat SST_MAGIC) @ '')''))
       else
       res_bind (detect_footer_len bytes) (\<lambda>plen.
       if length bytes < plen then Inl (Corruption ''file too short for SSTable footer'')
       else
         let fb = drop (length bytes - plen) bytes
         in res_bind (read_u32_le fb (plen - 8)) (\<lambda>expected_crc.
            if expected_crc \<noteq> crc32c (take (plen - 8) fb) then Inl (Corruption ''SSTable footer CRC mismatch'')
            else
            res_bind (read_u16_le fb 36) (\<lambda>version.
            if version \<noteq> SST_VERSION_V1 \<and> version \<noteq> SST_VERSION_V2 \<and> version \<noteq> SST_VERSION \<and> version \<noteq> SST_VERSION_V4
            then Inl (Corruption (''unsupported SSTable version: '' @ fmt_dec (unat version)))
            else
            res_bind
              (if plen \<ge> SST_FOOTER_LEN_V2
               then res_bind (read_u64_le fb 40) (\<lambda>bo. res_bind (read_u32_le fb 48) (\<lambda>bl.
                    res_bind (read_u32_le fb 52) (\<lambda>bh. Inr (bo, bl, bh))))
               else Inr (0, 0, 0)) (\<lambda>(bo, bl, bh).
            res_bind
              (if plen = SST_FOOTER_LEN_V3
               then res_bind (read_u32_le fb 56) (\<lambda>codec.
                    if codec \<noteq> COMPRESSION_CODEC_NONE \<and> codec \<noteq> COMPRESSION_CODEC_LZ4 \<and> codec \<noteq> COMPRESSION_CODEC_ZSTD
                    then Inl (Corruption (''unsupported SSTable compression codec: '' @ fmt_dec (unat codec)))
                    else Inr codec)
               else Inr COMPRESSION_CODEC_NONE) (\<lambda>codec.
            res_bind (read_u64_le fb 0) (\<lambda>ioff.
            res_bind (read_u32_le fb 8) (\<lambda>ilen.
            res_bind (read_u64_le fb 12) (\<lambda>minseq.
            res_bind (read_u64_le fb 20) (\<lambda>maxseq.
            res_bind (read_u64_le fb 28) (\<lambda>count.
              Inr \<lparr>index_block_offset = ioff, index_block_len = ilen, ft_min_seq = minseq, ft_max_seq = maxseq,
                ft_entry_count = count, format_version = version, bloom_offset = bo, bloom_len = bl,
                ft_bloom_hash_count = bh, compression_codec = codec\<rparr>)))))))))))) "

definition footer_stored_crc :: "bytes \<Rightarrow> u32 result" where
  "footer_stored_crc bytes =
    res_bind (decode_footer bytes) (\<lambda>f.
      read_u32_le (drop (length bytes - physical_len f) bytes) (physical_len f - 8))"

section \<open>The bloom filter has no false negatives\<close>

lemma length_bloom_set_bit [simp]: "length (bloom_set_bit bits i) = length bits"
  by (simp add: bloom_set_bit_def Let_def)

lemma bloom_get_bit_iff: "bloom_get_bit bits i \<longleftrightarrow> bit (bits ! (unat i div 8)) (unat i mod 8)"
proof -
  have "b AND push_bit n 1 \<noteq> 0 \<longleftrightarrow> bit b n" if "n < 8" for b :: u8 and n
  proof
    assume "b AND push_bit n 1 \<noteq> 0"
    then obtain m where "bit (b AND push_bit n 1) m" using bit_eqI[of "b AND push_bit n 1" 0] by auto
    then show "bit b n" by (auto simp: bit_and_iff bit_push_bit_iff bit_1_iff bit_exp_iff)
  next
    assume "bit b n"
    then have "bit (b AND push_bit n 1) n" using that by (simp add: bit_and_iff bit_push_bit_iff bit_1_iff bit_exp_iff)
    then show "b AND push_bit n 1 \<noteq> 0" by auto
  qed
  then show ?thesis by (simp add: bloom_get_bit_def Let_def)
qed

lemma bloom_get_set_bit:
  assumes "unat i < 8 * length bits"
  shows "bloom_get_bit (bloom_set_bit bits i) j \<longleftrightarrow> j = i \<or> bloom_get_bit bits j"
proof -
  have "unat i div 8 < length bits" using assms by (simp add: less_mult_imp_div_less mult.commute)
  moreover have "j = i \<longleftrightarrow> unat j div 8 = unat i div 8 \<and> unat j mod 8 = unat i mod 8"
    by (metis div_mult_mod_eq word_unat_eq_iff)
  ultimately show ?thesis
    unfolding bloom_get_bit_iff
    by (cases "unat j div 8 = unat i div 8")
      (auto simp: bloom_set_bit_def Let_def bit_or_iff bit_push_bit_iff bit_1_iff bit_exp_iff)
qed

lemma fold_set_bits:
  assumes "\<And>i. i \<in> set is \<Longrightarrow> unat (ix i) < 8 * length bits"
  shows "length (fold (\<lambda>i bits. bloom_set_bit bits (ix i)) is bits) = length bits"
    and "bloom_get_bit (fold (\<lambda>i bits. bloom_set_bit bits (ix i)) is bits) j \<longleftrightarrow> j \<in> ix ` set is \<or> bloom_get_bit bits j"
  using assms by (induction "is" arbitrary: bits) (auto simp: bloom_get_set_bit)

lemma unat_u32_saturating_mul8: "unat (u32_saturating_mul8 (word_of_nat n)) \<le> 8 * n"
proof -
  have n: "unat (word_of_nat n :: u32) \<le> n" by (simp add: unat_of_nat)
  show ?thesis
  proof (cases "unat (word_of_nat n :: u32) * 8 < 2 ^ 32")
    case True
    then have "unat (word_of_nat n * 8 :: u32) = unat (word_of_nat n :: u32) * 8"
      by (subst unat_mult_lem[THEN iffD1]) simp_all
    then show ?thesis using True n by (simp add: u32_saturating_mul8_def)
  next
    case False
    then have "2 ^ 32 \<le> 8 * n" using n by linarith
    moreover have "unat (- 1 :: u32) = 2 ^ 32 - 1" by (simp add: unsigned_minus_1_eq_mask mask_eq_exp_minus_1)
    ultimately show ?thesis using False by (simp add: u32_saturating_mul8_def)
  qed
qed

lemma bloom_bit_index_less: "num_bits \<noteq> 0 \<Longrightarrow> unat (bloom_bit_index h1 h2 i num_bits) < unat num_bits"
proof -
  assume "num_bits \<noteq> 0"
  define x where "x = h1 + ucast i * h2"
  have u: "unat (ucast num_bits :: u64) = unat num_bits"
    using unsigned_less[of num_bits, where ?'a = nat] by (simp add: unsigned_ucast_eq take_bit_nat_eq_self)
  have "unat (x mod ucast num_bits) = unat x mod unat num_bits" by (simp add: unat_mod u)
  also have "\<dots> < unat num_bits" using \<open>num_bits \<noteq> 0\<close> by (simp add: unat_gt_0)
  finally have lt: "unat (x mod ucast num_bits) < unat num_bits" .
  also have "\<dots> < 2 ^ 32" using unsigned_less[of num_bits, where ?'a = nat] by simp
  finally have "unat (ucast (x mod ucast num_bits) :: u32) = unat (x mod ucast num_bits)"
    by (simp add: unsigned_ucast_eq take_bit_nat_eq_self)
  then show ?thesis using lt by (simp add: bloom_bit_index_def x_def)
qed

lemma set_key_bits_props:
  assumes "num_bits \<noteq> 0" "unat num_bits \<le> 8 * length bits"
  shows "length (set_key_bits hc num_bits key bits) = length bits"
    and "bloom_get_bit bits j \<Longrightarrow> bloom_get_bit (set_key_bits hc num_bits key bits) j"
    and "n < unat hc \<Longrightarrow> bloom_hash_pair key = (h1, h2) \<Longrightarrow>
      bloom_get_bit (set_key_bits hc num_bits key bits) (bloom_bit_index h1 h2 (word_of_nat n) num_bits)"
proof -
  define ix where "ix = (\<lambda>i. bloom_bit_index (fst (bloom_hash_pair key)) (snd (bloom_hash_pair key)) (word_of_nat i) num_bits)"
  have b: "unat (ix i) < 8 * length bits" for i
    using bloom_bit_index_less[OF assms(1)] assms(2) unfolding ix_def by (meson less_le_trans)
  have eq: "set_key_bits hc num_bits key bits = fold (\<lambda>i bits. bloom_set_bit bits (ix i)) [0..<unat hc] bits"
    by (simp add: set_key_bits_def case_prod_beta ix_def)
  note F = fold_set_bits[of "[0..<unat hc]" ix bits, OF b]
  show "length (set_key_bits hc num_bits key bits) = length bits" by (simp add: eq F(1))
  show "bloom_get_bit bits j \<Longrightarrow> bloom_get_bit (set_key_bits hc num_bits key bits) j" by (simp add: eq F(2))
  show "n < unat hc \<Longrightarrow> bloom_hash_pair key = (h1, h2) \<Longrightarrow>
      bloom_get_bit (set_key_bits hc num_bits key bits) (bloom_bit_index h1 h2 (word_of_nat n) num_bits)"
    unfolding eq F(2) by (auto simp: ix_def)
qed

lemma fold_set_key_bits:
  assumes "num_bits \<noteq> 0" "unat num_bits \<le> 8 * length bits"
  shows "length (fold (set_key_bits hc num_bits) keys bits) = length bits"
    and "bloom_get_bit bits j \<Longrightarrow> bloom_get_bit (fold (set_key_bits hc num_bits) keys bits) j"
    and "key \<in> set keys \<Longrightarrow> n < unat hc \<Longrightarrow> bloom_hash_pair key = (h1, h2) \<Longrightarrow>
      bloom_get_bit (fold (set_key_bits hc num_bits) keys bits) (bloom_bit_index h1 h2 (word_of_nat n) num_bits)"
proof -
  have "length (fold (set_key_bits hc num_bits) keys bits) = length bits
    \<and> (\<forall>j. bloom_get_bit bits j \<longrightarrow> bloom_get_bit (fold (set_key_bits hc num_bits) keys bits) j)
    \<and> (key \<in> set keys \<longrightarrow> n < unat hc \<longrightarrow> bloom_hash_pair key = (h1, h2) \<longrightarrow>
      bloom_get_bit (fold (set_key_bits hc num_bits) keys bits) (bloom_bit_index h1 h2 (word_of_nat n) num_bits))"
    using assms
  proof (induction keys arbitrary: bits)
    case (Cons k keys)
    note S = set_key_bits_props[OF Cons.prems, where hc = hc and key = k]
    show ?case
      using Cons.IH[of "set_key_bits hc num_bits k bits"] Cons.prems S by auto
  qed simp
  then show "length (fold (set_key_bits hc num_bits) keys bits) = length bits"
    "bloom_get_bit bits j \<Longrightarrow> bloom_get_bit (fold (set_key_bits hc num_bits) keys bits) j"
    "key \<in> set keys \<Longrightarrow> n < unat hc \<Longrightarrow> bloom_hash_pair key = (h1, h2) \<Longrightarrow>
      bloom_get_bit (fold (set_key_bits hc num_bits) keys bits) (bloom_bit_index h1 h2 (word_of_nat n) num_bits)"
    by blast+
qed

lemma bloom_hash_count_pos: "bloom_hash_count b \<noteq> 0"
  by (auto simp: bloom_hash_count_def Let_def max_def split: if_splits)

lemma bloom_sound:
  assumes b: "build_bloom_filter keys bpk = Some (bits, hc)" and k: "key \<in> set keys"
  shows "\<exists>f. bloom_from_bytes bits hc = Inr f \<and> might_contain f key"
proof -
  define bl where "bl = (unat (bloom_num_bits (length keys) bpk) + 7) div 8"
  define nb where "nb = u32_saturating_mul8 (word_of_nat bl)"
  have nb0: "nb \<noteq> 0" and bits: "bits = fold (set_key_bits hc nb) keys (replicate bl 0)"
    and hc: "hc = bloom_hash_count bpk"
    using b k by (auto simp: build_bloom_filter_def Let_def bl_def nb_def split: if_splits)
  have le: "unat nb \<le> 8 * length (replicate bl (0 :: u8))"
    using unat_u32_saturating_mul8[of bl] by (simp add: nb_def)
  note F = fold_set_key_bits[OF nb0 le]
  have "length bits = bl" using F(1) by (simp add: bits)
  then have f: "bloom_from_bytes bits hc = Inr \<lparr>bf_bits = bits, bf_num_bits = nb, bf_hash_count = hc\<rparr>"
    using nb0 bloom_hash_count_pos by (simp add: bloom_from_bytes_def hc Let_def nb_def)
  have "might_contain \<lparr>bf_bits = bits, bf_num_bits = nb, bf_hash_count = hc\<rparr> key"
    using F(3)[OF k] by (auto simp: might_contain_def bits list_all_iff split: prod.split)
  then show ?thesis using f by blast
qed

section \<open>Footer round trip\<close>

definition footer_body :: "sst_footer \<Rightarrow> bytes" where
  "footer_body f = take (physical_len f - 8) (encode_footer f)"

lemma physical_len_cases: "physical_len f = 48 \<or> physical_len f = 64 \<or> physical_len f = 72"
  by (simp add: physical_len_def sst_consts)

lemma encode_footer_eq: "encode_footer f = footer_body f @ u32_le (crc32c (footer_body f)) @ u32_le SST_MAGIC"
  and length_encode_footer: "length (encode_footer f) = physical_len f"
  using physical_len_cases[of f]
  by (auto simp: footer_body_def encode_footer_def Let_def sst_consts)

lemma footer_reads:
  "subrange 0 8 (encode_footer f) = u64_le (index_block_offset f)"
  "subrange 8 12 (encode_footer f) = u32_le (index_block_len f)"
  "subrange 12 20 (encode_footer f) = u64_le (ft_min_seq f)"
  "subrange 20 28 (encode_footer f) = u64_le (ft_max_seq f)"
  "subrange 28 36 (encode_footer f) = u64_le (ft_entry_count f)"
  "subrange 36 38 (encode_footer f) = u16_le (format_version f)"
  "subrange 38 40 (encode_footer f) = u16_le (word_of_nat (physical_len f))"
  "physical_len f \<ge> 64 \<Longrightarrow> subrange 40 48 (encode_footer f) = u64_le (bloom_offset f)"
  "physical_len f \<ge> 64 \<Longrightarrow> subrange 48 52 (encode_footer f) = u32_le (bloom_len f)"
  "physical_len f \<ge> 64 \<Longrightarrow> subrange 52 56 (encode_footer f) = u32_le (ft_bloom_hash_count f)"
  "physical_len f = 72 \<Longrightarrow> subrange 56 60 (encode_footer f) = u32_le (compression_codec f)"
  using physical_len_cases[of f] by (auto simp: encode_footer_def Let_def sst_consts)

text \<open>The fields a version does not store have their default.\<close>

definition footer_ok :: "sst_footer \<Rightarrow> bool" where
  "footer_ok f \<longleftrightarrow> format_version f \<in> {1, 2, 3, 4} \<and>
    (physical_len f < 64 \<longrightarrow> bloom_offset f = 0 \<and> bloom_len f = 0 \<and> ft_bloom_hash_count f = 0) \<and>
    (if physical_len f < 72 then compression_codec f = 0 else compression_codec f \<in> {0, 1, 2})"

lemma decode_footer_detected:
  assumes ok: "footer_ok f" and det: "detect_footer_len (pre @ encode_footer f) = Inr (physical_len f)"
  shows "decode_footer (pre @ encode_footer f) = Inr f"
proof -
  define n where "n = physical_len f"
  define fb where "fb = encode_footer f"
  have n: "n = 48 \<or> n = 64 \<or> n = 72" using physical_len_cases by (simp add: n_def)
  have l: "length fb = n" by (simp add: fb_def n_def length_encode_footer)
  have bl: "length (footer_body f) = n - 8" by (simp add: footer_body_def length_encode_footer n_def)
  have magic: "drop (length pre + n - 4) (pre @ fb) = u32_le SST_MAGIC"
    using n bl unfolding fb_def encode_footer_eq by auto
  have crc: "subrange (n - 8) (n - 4) fb = u32_le (crc32c (footer_body f))" "take (n - 8) fb = footer_body f"
    using n bl unfolding fb_def encode_footer_eq by auto
  note R = footer_reads[of f, folded fb_def n_def]
  have V: "\<not> (format_version f \<noteq> 1 \<and> format_version f \<noteq> 2 \<and> format_version f \<noteq> 3 \<and> format_version f \<noteq> 4)"
    using ok by (simp add: footer_ok_def)
  have B: "n = 48 \<Longrightarrow> bloom_offset f = 0 \<and> bloom_len f = 0 \<and> ft_bloom_hash_count f = 0"
    and C: "n = 48 \<or> n = 64 \<Longrightarrow> compression_codec f = 0"
    and D: "n = 72 \<Longrightarrow> \<not> (compression_codec f \<noteq> 0 \<and> compression_codec f \<noteq> 1 \<and> compression_codec f \<noteq> 2)"
    using ok by (auto simp: footer_ok_def n_def)
  have det': "detect_footer_len (pre @ fb) = Inr n" using det by (simp add: fb_def n_def)
  have dr: "drop (length (pre @ fb) - n) (pre @ fb) = fb" "length (pre @ fb) = length pre + n"
    using l by simp_all
  have m: "read_u32_le (drop (length (pre @ fb) - 4) (pre @ fb)) 0 = Inr SST_MAGIC"
    using magic dr(2) by (simp add: read_u32_le_def)
  have rd: "read_u32_le fb (n - 8) = Inr (crc32c (footer_body f))" "read_u16_le fb 36 = Inr (format_version f)"
    "read_u64_le fb 0 = Inr (index_block_offset f)" "read_u32_le fb 8 = Inr (index_block_len f)"
    "read_u64_le fb 12 = Inr (ft_min_seq f)" "read_u64_le fb 20 = Inr (ft_max_seq f)"
    "read_u64_le fb 28 = Inr (ft_entry_count f)"
    using n R crc l by (auto simp: read_le_defs)
  have rd2: "n \<ge> 64 \<Longrightarrow> read_u64_le fb 40 = Inr (bloom_offset f)" "n \<ge> 64 \<Longrightarrow> read_u32_le fb 48 = Inr (bloom_len f)"
    "n \<ge> 64 \<Longrightarrow> read_u32_le fb 52 = Inr (ft_bloom_hash_count f)"
    "n = 72 \<Longrightarrow> read_u32_le fb 56 = Inr (compression_codec f)"
    using R l by (simp_all add: read_le_defs)
  show ?thesis
    unfolding fb_def[symmetric] decode_footer_def m det' res_bind_simps Let_def dr(1) rd crc(2) sst_consts codec_consts
    using n V B C D rd2 by (elim disjE) (simp_all add: l)
qed

lemma detect_v3:
  assumes "physical_len f = 72"
  shows "detect_footer_len (pre @ encode_footer f) = Inr 72"
proof -
  have "length (encode_footer f) = 72" using assms by (simp add: length_encode_footer)
  then show ?thesis using footer_reads(7)[of f] assms
    by (simp add: detect_footer_len_def stored_footer_len_def read_u16_le_def sst_consts)
qed

lemma take_to_le: "k \<le> n \<Longrightarrow> take k (to_le n w) = to_le k w"
proof (induction k arbitrary: n w)
  case (Suc k)
  then show ?case by (cases n) simp_all
qed simp

lemma drop_to_le: "drop k (to_le n w) = to_le (n - k) (drop_bit (8 * k) w)"
proof (induction k arbitrary: n w)
  case (Suc k)
  show ?case using Suc[of _ "drop_bit 8 w"] by (cases n) (simp_all add: add.commute)
qed simp

lemma u16_le_ucast: "to_le 2 (w :: u64) = u16_le (ucast w)"
  by (simp add: numeral_2_eq_2) (auto intro!: bit_word_eqI simp: bit_simps)

lemma count_middle_bytes:
  "from_le (subrange 2 4 (u64_le w)) = (72 :: u16) \<longleftrightarrow> unat w div 65536 mod 65536 = 72"
proof -
  have "subrange 2 4 (u64_le w) = to_le 2 (drop_bit 16 w)"
    by (simp add: subrange_def drop_to_le take_to_le)
  then have "from_le (subrange 2 4 (u64_le w)) = (ucast (drop_bit 16 w) :: u16)"
    by (simp add: u16_le_ucast)
  moreover have "unat (ucast (drop_bit 16 w) :: u16) = unat w div 65536 mod 65536"
    by (simp add: unsigned_ucast_eq take_bit_eq_mod drop_bit_eq_div unat_div)
  ultimately show ?thesis by (simp add: word_unat_eq_iff)
qed

lemma detect_v2_footer:
  assumes p: "physical_len f = 64" and pre: "8 \<le> length pre"
  shows "detect_footer_len (pre @ encode_footer f) =
    Inr (if unat (ft_entry_count f) div 65536 mod 65536 = 72 then 72 else 64)"
proof -
  define fb where "fb = encode_footer f"
  have l: "length fb = 64" using p by (simp add: fb_def length_encode_footer)
  obtain a b where ab: "pre = a @ b" "length b = 8"
    using pre by (metis append_take_drop_id diff_diff_cancel length_drop)
  have dr: "drop (length (pre @ fb) - 72) (pre @ fb) = b @ fb" using ab l by simp
  have "subrange 38 40 (b @ fb) = subrange 30 32 fb" using ab(2) by simp
  also have "\<dots> = subrange 2 4 (subrange 28 36 fb)" by (simp add: subrange_def drop_take min_def)
  also have "\<dots> = subrange 2 4 (u64_le (ft_entry_count f))" using footer_reads(5)[of f] by (simp add: fb_def)
  finally have mid: "subrange 38 40 (b @ fb) = subrange 2 4 (u64_le (ft_entry_count f))" .
  have s72: "stored_footer_len (pre @ fb) 72 = Inr (from_le (subrange 2 4 (u64_le (ft_entry_count f))))"
    unfolding stored_footer_len_def dr read_u16_le_def using mid ab(2) l by simp
  have s64: "stored_footer_len (pre @ fb) 64 = Inr 64"
    using footer_reads(7)[of f] l p by (simp add: stored_footer_len_def read_u16_le_def fb_def)
  show ?thesis unfolding fb_def[symmetric]
    using s72 s64 ab l count_middle_bytes[of "ft_entry_count f"]
    by (simp add: detect_footer_len_def detect_v2_def sst_consts)
qed

section \<open>Properties\<close>

text \<open>
  C16. The bloom filter has no false negatives: for a filter built from a list of keys, the
  bytes load as a filter, and the filter admits every one of the keys.
\<close>

theorem bloom_no_false_negatives:
  assumes "build_bloom_filter keys bpk = Some (bits, hc)" and "key \<in> set keys"
  shows "\<exists>f. bloom_from_bytes bits hc = Inr f \<and> might_contain f key"
  using assms by (rule bloom_sound)

theorem bloom_no_false_negatives_witness:
  "\<exists>bits hc f. build_bloom_filter [[1, 2], [3]] 10 = Some (bits, hc) \<and> bloom_from_bytes bits hc = Inr f \<and> might_contain f [3]"
proof -
  obtain bits hc where b: "build_bloom_filter [[1, 2], [3]] 10 = Some (bits, hc)"
    by (simp add: build_bloom_filter_def bloom_num_bits_def u32_saturating_mul8_def Let_def)
  show ?thesis using b bloom_no_false_negatives[OF b, of "[3]"] by auto
qed

text \<open>
  C17. Footers of versions 2 to 4 at the end of a file with at least 8 bytes before them. The footer length is detected correctly,
  and the footer decoded as written, except for a version 2 footer whose entry count has the value 72 in its
  third and fourth byte: the code then takes it for a version 3 footer.
\<close>

theorem footer_roundtrip:
  assumes "footer_ok f" and "format_version f \<noteq> 1" and "8 \<le> length pre"
  shows "(detect_footer_len (pre @ encode_footer f) = Inr (physical_len f) \<longleftrightarrow>
      \<not> (format_version f = 2 \<and> unat (ft_entry_count f) div 65536 mod 65536 = 72)) \<and>
    (\<not> (format_version f = 2 \<and> unat (ft_entry_count f) div 65536 mod 65536 = 72) \<longrightarrow>
      decode_footer (pre @ encode_footer f) = Inr f)"
proof -
  have p: "physical_len f = (if format_version f = 2 then 64 else 72)"
    using assms(1,2) by (auto simp: physical_len_def footer_ok_def sst_consts word_le_nat_alt)
  have d: "detect_footer_len (pre @ encode_footer f) = Inr (physical_len f) \<longleftrightarrow>
      \<not> (format_version f = 2 \<and> unat (ft_entry_count f) div 65536 mod 65536 = 72)"
    using detect_v3[of f pre] detect_v2_footer[of f pre] assms(3) p by (auto split: if_splits)
  then show ?thesis using decode_footer_detected[OF assms(1)] by blast
qed

definition example_footer :: sst_footer where
  "example_footer = \<lparr>index_block_offset = 40, index_block_len = 44, ft_min_seq = 1, ft_max_seq = 9,
    ft_entry_count = 4718592, format_version = 2, bloom_offset = 0, bloom_len = 0, ft_bloom_hash_count = 0,
    compression_codec = 0\<rparr>"

theorem footer_roundtrip_witness:
  "detect_footer_len (replicate 8 0 @ encode_footer example_footer) \<noteq> Inr (physical_len example_footer) \<and>
   decode_footer (replicate 8 0 @ encode_footer (example_footer\<lparr>format_version := 4\<rparr>)) =
     Inr (example_footer\<lparr>format_version := 4\<rparr>)"
proof -
  have ok: "footer_ok example_footer" "footer_ok (example_footer\<lparr>format_version := 4\<rparr>)"
    by (simp_all add: footer_ok_def example_footer_def physical_len_def sst_consts word_le_nat_alt)
  show ?thesis
    using footer_roundtrip[OF ok(1), of "replicate 8 0"] footer_roundtrip[OF ok(2), of "replicate 8 0"]
    by (simp add: example_footer_def)
qed

end
