(* ===== verification/Sst_Table.thy ===== *)
theory Sst_Table
  imports Sst_Codec Sst_Footer Internal_Key
begin

text \<open>
  Whole table files, \<^verbatim>\<open>src/crates/kaya-lsm/src/sstable.rs\<close> and \<^verbatim>\<open>block_cache.rs\<close>: the builder, which cuts
  sorted entries into blocks, the reader, and its cache of decoded blocks, with the invariant of the cache. What reads return
  is shown in the theories that follow.
\<close>

section \<open>Block cache\<close>

record block_cache =
  bc_capacity :: nat
  bc_order :: "u64 list"
  bc_map :: "(u64, sst_entry list) btree_map"
  bc_hits :: u64
  bc_misses :: u64

definition block_cache_new :: "nat \<Rightarrow> block_cache" where
  "block_cache_new capacity = \<lparr>bc_capacity = capacity, bc_order = [], bc_map = bt_empty, bc_hits = 0, bc_misses = 0\<rparr>"

record block_cache_stats =
  st_hits :: u64
  st_misses :: u64

definition bc_stats :: "block_cache \<Rightarrow> block_cache_stats" where
  "bc_stats c = \<lparr>st_hits = bc_hits c, st_misses = bc_misses c\<rparr>"

definition bc_get :: "u64 \<Rightarrow> block_cache \<Rightarrow> sst_entry list option \<times> block_cache" where
  "bc_get off c =
    (if \<not> bt_contains off (bc_map c) then (None, c\<lparr>bc_misses := bc_misses c + 1\<rparr>)
     else
       let c' = c\<lparr>bc_hits := bc_hits c + 1, bc_order := remove1 off (bc_order c) @ [off]\<rparr>
       in (bt_get off (bc_map c'), c'))"

definition bc_insert :: "u64 \<Rightarrow> sst_entry list \<Rightarrow> block_cache \<Rightarrow> block_cache" where
  "bc_insert off es c =
    (if bc_capacity c = 0 then c
     else
       let c1 =
         (if bt_contains off (bc_map c) then c\<lparr>bc_order := remove1 off (bc_order c)\<rparr>
          else if length (bc_map c) \<ge> bc_capacity c
          then (case bc_order c of
                  [] \<Rightarrow> c
                | evict # rest \<Rightarrow> c\<lparr>bc_order := rest, bc_map := bt_remove evict (bc_map c)\<rparr>)
          else c)
       in c1\<lparr>bc_map := bt_insert off es (bc_map c1), bc_order := bc_order c1 @ [off]\<rparr>)"

section \<open>Builder\<close>

record sstable_build_options =
  target_block_bytes :: nat
  bloom_bits_per_key :: u32
  compression_lz4 :: bool
  compression_zstd :: bool
  prefix_compression :: bool
  mvcc :: bool

definition default_build_options :: sstable_build_options where
  "default_build_options =
    \<lparr>target_block_bytes = 32 * 1024, bloom_bits_per_key = 10, compression_lz4 = False, compression_zstd = False,
     prefix_compression = False, mvcc = False\<rparr>"

definition options_of_config :: "sstable_config \<Rightarrow> sstable_build_options" where
  "options_of_config cfg =
    \<lparr>target_block_bytes = block_target_bytes cfg, bloom_bits_per_key = cfg_bloom_bits_per_key cfg,
     compression_lz4 = cfg_compression_lz4 cfg, compression_zstd = cfg_compression_zstd cfg,
     prefix_compression = cfg_prefix_compression cfg, mvcc = False\<rparr>"

definition resolve_compression_codec :: "sstable_build_options \<Rightarrow> u32" where
  "resolve_compression_codec opts =
    (if compression_zstd opts then COMPRESSION_CODEC_ZSTD
     else if compression_lz4 opts then COMPRESSION_CODEC_LZ4
     else COMPRESSION_CODEC_NONE)"

record sstable_builder =
  sb_options :: sstable_build_options
  current_entries :: "sst_entry list"
  current_count :: u32
  current_first_seq :: "u64 option"
  current_last_seq :: "u64 option"
  current_last_key :: "bytes option"
  data_bytes :: bytes
  index_entries :: "index_entry list"
  all_keys :: "bytes list"
  smallest_key :: "bytes option"
  largest_key :: "bytes option"
  table_min_seq :: "u64 option"
  table_max_seq :: "u64 option"
  total_entries :: u64
  last_internal_key :: "internal_key option"

definition builder_with_options :: "sstable_build_options \<Rightarrow> sstable_builder" where
  "builder_with_options opts =
    \<lparr>sb_options = opts\<lparr>target_block_bytes := max (target_block_bytes opts) 1\<rparr>, current_entries = [], current_count = 0,
     current_first_seq = None, current_last_seq = None, current_last_key = None, data_bytes = [], index_entries = [],
     all_keys = [], smallest_key = None, largest_key = None, table_min_seq = None, table_max_seq = None,
     total_entries = 0, last_internal_key = None\<rparr>"

definition builder_new :: "nat \<Rightarrow> u32 \<Rightarrow> sstable_builder" where
  "builder_new target bits =
    builder_with_options (default_build_options\<lparr>target_block_bytes := target, bloom_bits_per_key := bits\<rparr>)"

definition flush_current_block :: "compressors \<Rightarrow> sstable_builder \<Rightarrow> sstable_builder" where
  "flush_current_block C b =
    (if current_count b = 0 then b
     else
       let raw_block = encode_data_block (current_entries b) (prefix_compression (sb_options b));
           block_data = wrap_data_block_for_storage C raw_block (resolve_compression_codec (sb_options b));
           ie = \<lparr>separator_key = (case current_last_key b of Some k \<Rightarrow> k | None \<Rightarrow> []),
                 block_offset = word_of_nat (length (data_bytes b)),
                 block_len = word_of_nat (length block_data),
                 first_seq = (case current_first_seq b of Some s \<Rightarrow> s | None \<Rightarrow> 1),
                 last_seq = (case current_last_seq b of Some s \<Rightarrow> s | None \<Rightarrow> 1)\<rparr>
       in b\<lparr>data_bytes := data_bytes b @ block_data, index_entries := index_entries b @ [ie],
            current_entries := [], current_count := 0, current_first_seq := None, current_last_seq := None,
            current_last_key := None\<rparr>)"

text \<open>
  Adding an entry. The debug assertion that the entries of a multi-version table come in order is not
  part of release builds; the order is a hypothesis where it matters.
\<close>

definition builder_add :: "compressors \<Rightarrow> sst_entry \<Rightarrow> sstable_builder \<Rightarrow> sstable_builder" where
  "builder_add C e b =
    (let s = se_sequence e;
         b1 = b\<lparr>last_internal_key := (if mvcc (sb_options b) then Some (InternalKey (se_key e) s) else last_internal_key b),
                all_keys := all_keys b @ [se_key e],
                current_entries := current_entries b @ [e],
                current_count := current_count b + 1,
                total_entries := total_entries b + 1,
                current_first_seq := (case current_first_seq b of None \<Rightarrow> Some s | f \<Rightarrow> f),
                current_last_seq := Some s,
                current_last_key := Some (se_key e),
                smallest_key := (case smallest_key b of None \<Rightarrow> Some (se_key e) | k \<Rightarrow> k),
                largest_key := Some (se_key e),
                table_min_seq := Some (case table_min_seq b of None \<Rightarrow> s | Some m \<Rightarrow> min m s),
                table_max_seq := Some (case table_max_seq b of None \<Rightarrow> s | Some m \<Rightarrow> max m s)\<rparr>
     in if estimate_block_size (current_entries b1) (prefix_compression (sb_options b1))
             \<ge> target_block_bytes (sb_options b1)
        then flush_current_block C b1 else b1)"

definition builder_is_empty :: "sstable_builder \<Rightarrow> bool" where
  "builder_is_empty b \<longleftrightarrow> total_entries b = 0"

definition format_version_of :: "sstable_build_options \<Rightarrow> u16" where
  "format_version_of opts =
    (if mvcc opts then SST_VERSION_V4
     else if resolve_compression_codec opts \<noteq> COMPRESSION_CODEC_NONE \<or> prefix_compression opts then SST_VERSION
     else SST_VERSION_V2)"

text \<open>The bloom section: its bytes, offset, length and hash count; nothing when the filter panics.\<close>

definition bloom_section :: "sstable_builder \<Rightarrow> nat \<Rightarrow> (bytes \<times> u64 \<times> u32 \<times> u32) option" where
  "bloom_section b offset =
    (if bloom_bits_per_key (sb_options b) = 0 then Some ([], 0, 0, 0)
     else
       (case build_bloom_filter (all_keys b) (bloom_bits_per_key (sb_options b)) of
          None \<Rightarrow> None
        | Some (bb, hc) \<Rightarrow> Some (bb, word_of_nat offset, word_of_nat (length bb), hc)))"

definition builder_finish :: "compressors \<Rightarrow> sstable_builder \<Rightarrow> bytes result option" where
  "builder_finish C b =
    (if builder_is_empty b then Some (Inl (InvalidArgument ''cannot build empty SSTable''))
     else
       let b1 = flush_current_block C b;
           index_offset = length (data_bytes b1);
           index_bytes = finalize_index_block (index_entries b1);
           out = data_bytes b1 @ index_bytes
       in (case bloom_section b1 (length out) of
             None \<Rightarrow> None
           | Some (bloom_bytes, boff, blen, bhc) \<Rightarrow>
               let footer = \<lparr>index_block_offset = word_of_nat index_offset,
                     index_block_len = word_of_nat (length index_bytes),
                     ft_min_seq = (case table_min_seq b1 of Some s \<Rightarrow> s | None \<Rightarrow> 1),
                     ft_max_seq = (case table_max_seq b1 of Some s \<Rightarrow> s | None \<Rightarrow> 1),
                     ft_entry_count = total_entries b1, format_version = format_version_of (sb_options b1),
                     bloom_offset = boff, bloom_len = blen, ft_bloom_hash_count = bhc,
                     compression_codec = resolve_compression_codec (sb_options b1)\<rparr>
               in Some (Inr (out @ bloom_bytes @ encode_footer footer))))"

section \<open>Reader\<close>

record sstable_reader =
  rd_bytes :: bytes
  rd_footer :: sst_footer
  rd_index :: "index_entry list"
  rd_bloom :: "bloom_filter option"
  rd_cache :: "block_cache option"

definition open_with_cache :: "bytes \<Rightarrow> nat \<Rightarrow> sstable_reader result" where
  "open_with_cache bytes capacity =
    res_bind (decode_footer bytes) (\<lambda>f.
      let footer_len = physical_len f;
          idx_start = unat (index_block_offset f);
          idx_end = idx_start + unat (index_block_len f);
          content_end = length bytes - footer_len
      in if idx_end > content_end then Inl (Corruption ''index block range exceeds content area'')
         else
           res_bind
             (if bloom_len f > 0
              then
                let bloom_start = unat (bloom_offset f);
                    bloom_end = bloom_start + unat (bloom_len f)
                in if bloom_start < idx_end \<or> bloom_end > content_end
                   then Inl (Corruption ''bloom filter range invalid'')
                   else res_bind (bloom_from_bytes (subrange bloom_start bloom_end bytes) (ft_bloom_hash_count f))
                          (\<lambda>bf. Inr (Some bf))
              else Inr None) (\<lambda>bloom.
           res_bind (decode_index_block (subrange idx_start idx_end bytes)) (\<lambda>idx.
             Inr \<lparr>rd_bytes = bytes, rd_footer = f, rd_index = idx, rd_bloom = bloom,
               rd_cache = (if capacity > 0 then Some (block_cache_new capacity) else None)\<rparr>)))"

definition sst_open :: "bytes \<Rightarrow> sstable_reader result" where
  "sst_open bytes = open_with_cache bytes 0"

definition block_cache_stats_of :: "sstable_reader \<Rightarrow> block_cache_stats" where
  "block_cache_stats_of r = (case rd_cache r of Some c \<Rightarrow> bc_stats c | None \<Rightarrow> \<lparr>st_hits = 0, st_misses = 0\<rparr>)"

text \<open>Decoding a block from the file, the part of the read below the cache.\<close>

definition load_block :: "compressors \<Rightarrow> sstable_reader \<Rightarrow> index_entry \<Rightarrow> sst_entry list result" where
  "load_block C r ie =
    (let start = unat (block_offset ie); end' = start + unat (block_len ie);
         data_end = unat (index_block_offset (rd_footer r))
     in if end' > data_end then Inl (Corruption ''data block offset out of bounds'')
        else
          res_bind (unwrap_data_block_from_storage C (subrange start end' (rd_bytes r)) (compression_codec (rd_footer r)))
            decode_data_block)"

definition read_data_block ::
  "compressors \<Rightarrow> sstable_reader \<Rightarrow> index_entry \<Rightarrow> sst_entry list result \<times> sstable_reader" where
  "read_data_block C r ie =
    (case rd_cache r of
       None \<Rightarrow> (load_block C r ie, r)
     | Some c \<Rightarrow>
         (case bc_get (block_offset ie) c of
            (Some es, c') \<Rightarrow> (Inr es, r\<lparr>rd_cache := Some c'\<rparr>)
          | (None, c') \<Rightarrow>
              (case load_block C r ie of
                 Inl e \<Rightarrow> (Inl e, r\<lparr>rd_cache := Some c'\<rparr>)
               | Inr es \<Rightarrow> (Inr es, r\<lparr>rd_cache := Some (bc_insert (block_offset ie) es c')\<rparr>))))"

text \<open>
  The entries of one block in a point lookup: the result if the lookup returns there, and
  nothing if it goes on behind the block.
\<close>

fun get_in_block :: "bool \<Rightarrow> bytes \<Rightarrow> u64 \<Rightarrow> sst_entry list \<Rightarrow> sst_entry option option" where
  "get_in_block multi key read_ts [] = None"
| "get_in_block multi key read_ts (e # es) =
    (if se_key e < key then get_in_block multi key read_ts es
     else if se_key e > key then Some None
     else if se_sequence e \<le> read_ts then Some (Some e)
     else if \<not> multi then Some None
     else get_in_block multi key read_ts es)"

fun get_loop ::
  "compressors \<Rightarrow> bool \<Rightarrow> bytes \<Rightarrow> u64 \<Rightarrow> bool \<Rightarrow> index_entry list \<Rightarrow> sstable_reader
    \<Rightarrow> sst_entry option result \<times> sstable_reader" where
  "get_loop C multi key read_ts started [] r = (Inr None, r)"
| "get_loop C multi key read_ts started (ie # ies) r =
    (if \<not> started \<and> separator_key ie < key then get_loop C multi key read_ts started ies r
     else
       (case read_data_block C r ie of
          (Inl e, r') \<Rightarrow> (Inl e, r')
        | (Inr block, r') \<Rightarrow>
            (case get_in_block multi key read_ts block of
               Some res \<Rightarrow> (Inr res, r')
             | None \<Rightarrow>
                 if \<not> multi then (Inr None, r')
                 else if separator_key ie > key then (Inr None, r')
                 else get_loop C multi key read_ts True ies r')))"

definition sst_get_at :: "compressors \<Rightarrow> sstable_reader \<Rightarrow> bytes \<Rightarrow> u64 \<Rightarrow> sst_entry option result \<times> sstable_reader" where
  "sst_get_at C r key read_ts =
    (if (case rd_bloom r of Some bf \<Rightarrow> \<not> might_contain bf key | None \<Rightarrow> False) then (Inr None, r)
     else get_loop C (format_version (rd_footer r) \<ge> SST_VERSION_V4) key read_ts False (rd_index r) r)"

definition sst_get :: "compressors \<Rightarrow> sstable_reader \<Rightarrow> bytes \<Rightarrow> sst_entry option result \<times> sstable_reader" where
  "sst_get C r key = sst_get_at C r key (- 1)"

text \<open>
  The entries of one block in a prefix scan: the entries selected so far, the current key and whether a version
  of it was selected; the flag says that the scan is past the prefix and returns.
\<close>

fun scan_in_block ::
  "bytes \<Rightarrow> u64 \<Rightarrow> sst_entry list \<Rightarrow> sst_entry list \<times> bytes option \<times> bool
    \<Rightarrow> bool \<times> sst_entry list \<times> bytes option \<times> bool" where
  "scan_in_block pfx read_ts [] st = (False, st)"
| "scan_in_block pfx read_ts (e # es) (result, current_key, selected) =
    (if pfx \<noteq> [] \<and> \<not> prefix pfx (se_key e)
     then if se_key e < pfx then scan_in_block pfx read_ts es (result, current_key, selected)
          else (True, result, current_key, selected)
     else
       let is_new = (current_key \<noteq> Some (se_key e));
           current_key' = (if is_new then Some (se_key e) else current_key);
           selected' = (if is_new then False else selected)
       in if selected' then scan_in_block pfx read_ts es (result, current_key', selected')
          else if se_sequence e \<le> read_ts then scan_in_block pfx read_ts es (result @ [e], current_key', True)
          else scan_in_block pfx read_ts es (result, current_key', selected'))"

fun sst_scan_loop ::
  "compressors \<Rightarrow> bytes \<Rightarrow> u64 \<Rightarrow> index_entry list \<Rightarrow> sst_entry list \<times> bytes option \<times> bool \<Rightarrow> sstable_reader
    \<Rightarrow> sst_entry list result \<times> sstable_reader" where
  "sst_scan_loop C pfx read_ts [] st r = (Inr (fst st), r)"
| "sst_scan_loop C pfx read_ts (ie # ies) st r =
    (if separator_key ie \<noteq> [] \<and> separator_key ie < pfx then sst_scan_loop C pfx read_ts ies st r
     else
       (case read_data_block C r ie of
          (Inl e, r') \<Rightarrow> (Inl e, r')
        | (Inr block, r') \<Rightarrow>
            (case scan_in_block pfx read_ts block st of
               (True, result, _, _) \<Rightarrow> (Inr result, r')
             | (False, st') \<Rightarrow> sst_scan_loop C pfx read_ts ies st' r')))"

definition sst_scan_prefix_at ::
  "compressors \<Rightarrow> sstable_reader \<Rightarrow> bytes \<Rightarrow> u64 \<Rightarrow> sst_entry list result \<times> sstable_reader" where
  "sst_scan_prefix_at C r pfx read_ts = sst_scan_loop C pfx read_ts (rd_index r) ([], None, False) r"

definition sst_scan_prefix :: "compressors \<Rightarrow> sstable_reader \<Rightarrow> bytes \<Rightarrow> sst_entry list result \<times> sstable_reader" where
  "sst_scan_prefix C r pfx = sst_scan_prefix_at C r pfx (- 1)"

fun all_entries_loop :: "compressors \<Rightarrow> index_entry list \<Rightarrow> sstable_reader \<Rightarrow> sst_entry list result \<times> sstable_reader" where
  "all_entries_loop C [] r = (Inr [], r)"
| "all_entries_loop C (ie # ies) r =
    (case read_data_block C r ie of
       (Inl e, r') \<Rightarrow> (Inl e, r')
     | (Inr block, r') \<Rightarrow>
         (case all_entries_loop C ies r' of
            (Inl e, r'') \<Rightarrow> (Inl e, r'')
          | (Inr rest, r'') \<Rightarrow> (Inr (block @ rest), r'')))"

definition sst_all_entries :: "compressors \<Rightarrow> sstable_reader \<Rightarrow> sst_entry list result \<times> sstable_reader" where
  "sst_all_entries C r = all_entries_loop C (rd_index r) r"

section \<open>The cache is a bounded, transparent copy\<close>

definition bc_inv :: "block_cache \<Rightarrow> bool" where
  "bc_inv c \<longleftrightarrow> 0 < bc_capacity c \<and> bt_inv (bc_map c) \<and> distinct (bc_order c) \<and>
    set (bc_order c) = fst ` set (bc_map c) \<and> length (bc_map c) \<le> bc_capacity c"

lemma bc_inv_new: "0 < cap \<Longrightarrow> bc_inv (block_cache_new cap)"
  by (simp add: bc_inv_def block_cache_new_def bt_empty_def)

lemma bc_get_result: "fst (bc_get off c) = bt_get off (bc_map c)"
  by (auto simp: bc_get_def bt_contains_def Let_def)

lemma bc_get_map [simp]: "bc_map (snd (bc_get off c)) = bc_map c" "bc_capacity (snd (bc_get off c)) = bc_capacity c"
  by (simp_all add: bc_get_def Let_def)

lemma bc_inv_get: "bc_inv c \<Longrightarrow> bc_inv (snd (bc_get off c))"
  by (auto simp: bc_inv_def bc_get_def bt_contains_iff Let_def)

lemma length_bt_insert:
  "bt_inv m \<Longrightarrow> length (bt_insert k v m) = (if bt_contains k m then length m else length m + 1)"
proof (induction k v m rule: bt_insert.induct)
  case (2 k v k' v' m)
  then show ?case by (auto simp: bt_contains_iff bt_inv_Cons)
qed (simp add: bt_contains_def)

lemma length_bt_remove: "bt_inv m \<Longrightarrow> bt_contains k m \<Longrightarrow> length (bt_remove k m) = length m - 1"
proof (induction m)
  case (Cons e m)
  obtain k' v' where e: "e = (k', v')" by force
  show ?case
  proof (cases "k' = k")
    case True
    then have "filter (\<lambda>e. fst e \<noteq> k) m = m"
      using Cons.prems(1) by (auto simp: e bt_inv_Cons intro!: filter_True)
    then show ?thesis using True by (simp add: bt_remove_def e)
  next
    case False
    then have c: "bt_contains k m" "bt_inv m" using Cons.prems by (auto simp: bt_contains_iff e bt_inv_Cons)
    then have "m \<noteq> []" by (auto simp: bt_contains_def)
    then show ?thesis using Cons.IH[OF c(2,1)] False by (cases m) (simp_all add: bt_remove_def e)
  qed
qed (simp add: bt_contains_def)

lemma bc_inv_insert:
  assumes "bc_inv c"
  shows "bc_inv (bc_insert off es c)"
proof (cases "bt_contains off (bc_map c)")
  case True
  then show ?thesis using assms
    by (auto simp: bc_inv_def bc_insert_def Let_def length_bt_insert bt_contains_iff)
next
  case False
  show ?thesis
  proof (cases "length (bc_map c) \<ge> bc_capacity c")
    case full: True
    then have "bc_map c \<noteq> []" using assms by (auto simp: bc_inv_def)
    then obtain ev rest where o: "bc_order c = ev # rest" using assms by (cases "bc_order c") (auto simp: bc_inv_def)
    have ev: "bt_contains ev (bc_map c)" "ev \<noteq> off" "ev \<notin> set rest"
      using assms False o by (auto simp: bc_inv_def bt_contains_iff)
    have keys: "fst ` set (bt_remove ev (bc_map c)) = set rest"
      using assms ev(3) o by (auto simp: bc_inv_def bt_remove_def)
    have off: "off \<notin> set rest" using assms False o by (auto simp: bc_inv_def bt_contains_iff)
    have "length (bt_remove ev (bc_map c)) < bc_capacity c"
      using assms ev(1) \<open>bc_map c \<noteq> []\<close> by (cases "bc_map c") (auto simp: bc_inv_def length_bt_remove)
    then show ?thesis using assms full False o keys off
      by (simp add: bc_inv_def bc_insert_def Let_def length_bt_insert bt_contains_iff)
  next
    case False': False
    then show ?thesis using assms False
      by (auto simp: bc_inv_def bc_insert_def Let_def length_bt_insert bt_contains_iff)
  qed
qed

text \<open>What the cache answers after an insertion: the inserted block, or a block it held before.\<close>

lemma bc_insert_get:
  assumes "bc_inv c" and "bt_get k (bc_map (bc_insert off es c)) = Some v"
  shows "(k = off \<and> v = es) \<or> bt_get k (bc_map c) = Some v"
  using assms by (auto simp: bc_insert_def bc_inv_def Let_def split: if_splits list.splits)

end
