(* ===== verification/Sst_Reads.thy ===== *)
theory Sst_Reads
  imports Sst_Table
begin

text \<open>
  What reading a table file returns. A reader of a file whose blocks decode answers every read from the list of
  its entries, and stays such a reader: the cache does not show. A built file is opened as such a reader
  of the entries that were added, and its footer and bloom filter describe them.
\<close>

section \<open>A reader and its blocks\<close>

text \<open>
  The blocks behind the index of a reader: each index entry decodes to its block, is separated by the last
  key of it, and the cache holds decoded blocks only.
\<close>

definition cache_sound :: "(index_entry \<times> sst_entry list) list \<Rightarrow> block_cache option \<Rightarrow> bool" where
  "cache_sound ibs co \<longleftrightarrow> (case co of None \<Rightarrow> True | Some c \<Rightarrow> bc_inv c \<and>
    (\<forall>off es. bt_get off (bc_map c) = Some es \<longrightarrow> (\<exists>ie. (ie, es) \<in> set ibs \<and> block_offset ie = off)))"

definition reads_blocks :: "compressors \<Rightarrow> sstable_reader \<Rightarrow> (index_entry \<times> sst_entry list) list \<Rightarrow> bool" where
  "reads_blocks C r ibs \<longleftrightarrow> rd_index r = map fst ibs \<and> distinct (map (block_offset \<circ> fst) ibs) \<and>
    (\<forall>(ie, es) \<in> set ibs. load_block C r ie = Inr es \<and> es \<noteq> [] \<and> separator_key ie = se_key (last es)) \<and>
    cache_sound ibs (rd_cache r)"

text \<open>Readers that differ in their cache only.\<close>

definition same_table :: "sstable_reader \<Rightarrow> sstable_reader \<Rightarrow> bool" where
  "same_table r r' \<longleftrightarrow> rd_bytes r' = rd_bytes r \<and> rd_footer r' = rd_footer r \<and> rd_index r' = rd_index r \<and>
    rd_bloom r' = rd_bloom r"

lemma same_table_refl [simp]: "same_table r r" and
  same_table_trans: "same_table r r' \<Longrightarrow> same_table r' r'' \<Longrightarrow> same_table r r''"
  by (auto simp: same_table_def)

lemma reads_blocks_cache:
  assumes "reads_blocks C r ibs" and "cache_sound ibs co"
  shows "reads_blocks C (r\<lparr>rd_cache := co\<rparr>) ibs \<and> same_table r (r\<lparr>rd_cache := co\<rparr>)"
proof -
  have "load_block C (r\<lparr>rd_cache := co\<rparr>) ie = load_block C r ie" for ie by (simp add: load_block_def Let_def)
  then show ?thesis using assms by (auto simp: reads_blocks_def same_table_def)
qed

lemma read_data_block_view:
  assumes v: "reads_blocks C r ibs" and m: "(ie, es) \<in> set ibs"
  shows "\<exists>r'. read_data_block C r ie = (Inr es, r') \<and> reads_blocks C r' ibs \<and> same_table r r'"
proof (cases "rd_cache r")
  case None
  then show ?thesis using v m by (auto simp: read_data_block_def reads_blocks_def)
next
  case (Some c)
  have l: "load_block C r ie = Inr es" using v m by (auto simp: reads_blocks_def)
  have inv: "bc_inv c" and held: "\<And>off xs. bt_get off (bc_map c) = Some xs \<Longrightarrow> \<exists>ie. (ie, xs) \<in> set ibs \<and> block_offset ie = off"
    using v Some by (auto simp: reads_blocks_def cache_sound_def)
  have uniq: "ie' = ie" "xs = es" if "(ie', xs) \<in> set ibs" "block_offset ie' = block_offset ie" for ie' xs
  proof -
    have "inj_on (block_offset \<circ> fst) (set ibs)" using v by (simp add: reads_blocks_def distinct_map)
    then have "(ie', xs) = (ie, es)" using that m by (elim inj_onD) auto
    then show "ie' = ie" "xs = es" by simp_all
  qed
  obtain res c' where g: "bc_get (block_offset ie) c = (res, c')" by force
  have res: "res = bt_get (block_offset ie) (bc_map c)" using bc_get_result[of "block_offset ie" c] g by simp
  have c': "bc_inv c'" "bc_map c' = bc_map c"
    using bc_inv_get[OF inv, of "block_offset ie"] bc_get_map(1)[of "block_offset ie" c] g by simp_all
  show ?thesis
  proof (cases res)
    case None
    have "cache_sound ibs (Some (bc_insert (block_offset ie) es c'))"
      using bc_inv_insert[OF c'(1)] bc_insert_get[OF c'(1)] held m c'(2) by (fastforce simp: cache_sound_def)
    from reads_blocks_cache[OF v this] show ?thesis
      using Some None g l by (auto simp: read_data_block_def)
  next
    case hit: (Some xs)
    then obtain ie' where "(ie', xs) \<in> set ibs" "block_offset ie' = block_offset ie" using held res by metis
    then have "xs = es" by (rule uniq(2))
    moreover have "cache_sound ibs (Some c')" using c' held by (auto simp: cache_sound_def)
    ultimately show ?thesis
      using reads_blocks_cache[OF v, of "Some c'"] Some hit g by (auto simp: read_data_block_def)
  qed
qed

section \<open>Loops over the blocks\<close>

lemma all_entries_loop_view:
  assumes "reads_blocks C r ibs" and "set sub \<subseteq> set ibs"
  shows "\<exists>r'. all_entries_loop C (map fst sub) r = (Inr (concat (map snd sub)), r') \<and> reads_blocks C r' ibs \<and> same_table r r'"
  using assms
proof (induction sub arbitrary: r)
  case (Cons b sub)
  obtain ie es where b: "b = (ie, es)" by force
  obtain r1 where r1: "read_data_block C r ie = (Inr es, r1)" "reads_blocks C r1 ibs" "same_table r r1"
    using read_data_block_view[OF Cons.prems(1), of ie es] Cons.prems(2) b by auto
  obtain r2 where "all_entries_loop C (map fst sub) r1 = (Inr (concat (map snd sub)), r2)" "reads_blocks C r2 ibs" "same_table r1 r2"
    using Cons.IH[OF r1(2)] Cons.prems(2) by auto
  then show ?case using r1 b same_table_trans by fastforce
qed simp

lemma get_in_block_append:
  "get_in_block multi k ts (xs @ ys) = (case get_in_block multi k ts xs of Some res \<Rightarrow> Some res | None \<Rightarrow> get_in_block multi k ts ys)"
  by (induction xs) (auto split: option.splits)

lemma get_in_block_below: "\<forall>e \<in> set es. se_key e < k \<Longrightarrow> get_in_block multi k ts es = None"
  by (induction es) simp_all

text \<open>A block that ends at or after the key ends the lookup, unless it is one of many versions.\<close>

lemma get_in_block_reached:
  assumes "es \<noteq> []" and "k \<le> se_key (last es)"
  shows "get_in_block False k ts es \<noteq> None" and "k < se_key (last es) \<Longrightarrow> get_in_block True k ts es \<noteq> None"
  using assms by (induction es) (auto split: if_splits)

definition blocks_sorted :: "sst_entry list list \<Rightarrow> bool" where
  "blocks_sorted bss \<longleftrightarrow> sorted (map se_key (concat bss))"

lemma block_below_separator: "blocks_sorted (es # bss) \<Longrightarrow> es \<noteq> [] \<Longrightarrow> e \<in> set es \<Longrightarrow> se_key e \<le> se_key (last es)"
  unfolding blocks_sorted_def
  by (cases es rule: rev_cases) (auto simp: sorted_append)

lemma get_loop_view:
  assumes "reads_blocks C r ibs" and "set sub \<subseteq> set ibs" and "blocks_sorted (map snd sub)" and "multi \<or> \<not> started"
  shows "\<exists>r'. get_loop C multi k ts started (map fst sub) r =
      (Inr (case get_in_block multi k ts (concat (map snd sub)) of Some res \<Rightarrow> res | None \<Rightarrow> None), r') \<and>
    reads_blocks C r' ibs \<and> same_table r r'"
  using assms
proof (induction sub arbitrary: r started)
  case (Cons b sub)
  obtain ie es where b: "b = (ie, es)" by force
  have ie: "es \<noteq> []" "separator_key ie = se_key (last es)"
    using Cons.prems(1,2) b by (auto simp: reads_blocks_def)
  have srt: "blocks_sorted (map snd sub)" using Cons.prems(3) b by (auto simp: blocks_sorted_def sorted_append)
  note IH = Cons.IH[OF _ _ srt]
  show ?case
  proof (cases "\<not> started \<and> separator_key ie < k")
    case True
    have "get_in_block multi k ts es = None"
      using block_below_separator[of es "map snd sub"] Cons.prems(3) b ie True
      by (intro get_in_block_below) (auto intro: le_less_trans)
    then show ?thesis using IH[OF Cons.prems(1), of started] Cons.prems(2,4) b True by (simp add: get_in_block_append)
  next
    case False
    obtain r1 where r1: "read_data_block C r ie = (Inr es, r1)" "reads_blocks C r1 ibs" "same_table r r1"
      using read_data_block_view[OF Cons.prems(1), of ie es] Cons.prems(2) b by auto
    show ?thesis
    proof (cases "get_in_block multi k ts es")
      case None
      have "\<not> (\<not> multi \<and> k \<le> separator_key ie)"
        using get_in_block_reached(1)[OF ie(1), of k ts] None ie(2) by (cases multi) auto
      then have m: "multi" using False Cons.prems(4) by (auto simp: not_less)
      then have m2: "\<not> k < separator_key ie"
        using get_in_block_reached(2)[OF ie(1), of k ts] None ie(2) by (auto simp: less_imp_le)
      obtain r2 where r2: "get_loop C multi k ts True (map fst sub) r1 =
          (Inr (case get_in_block multi k ts (concat (map snd sub)) of Some res \<Rightarrow> res | None \<Rightarrow> None), r2)"
        "reads_blocks C r2 ibs" "same_table r1 r2"
        using IH[OF r1(2), of True] Cons.prems(2) m by auto
      then show ?thesis
        using r1 b False None m m2 same_table_trans[OF r1(3) r2(3)] by (auto simp: get_in_block_append)
    next
      case (Some res)
      then show ?thesis using r1 b False by (auto simp: get_in_block_append)
    qed
  qed
qed simp


text \<open>The first version of the key that is visible, in the order of the table.\<close>

definition table_lookup :: "sst_entry list \<Rightarrow> bytes \<Rightarrow> u64 \<Rightarrow> sst_entry option" where
  "table_lookup es k ts = find (\<lambda>e. se_key e = k \<and> se_sequence e \<le> ts) es"

lemma table_lookup_None: "k \<notin> se_key ` set es \<Longrightarrow> table_lookup es k ts = None"
  by (auto simp: table_lookup_def find_None_iff)

lemma get_in_block_sorted:
  assumes "sorted (map se_key es)" and "\<not> multi \<longrightarrow> distinct (map se_key es)"
  shows "(case get_in_block multi k ts es of Some res \<Rightarrow> res | None \<Rightarrow> None) = table_lookup es k ts"
  using assms
proof (induction es)
  case (Cons e es)
  have gt: "table_lookup es k ts = None" if "k < se_key e"
    using that Cons.prems(1) by (intro table_lookup_None) auto
  have one: "table_lookup es k ts = None" if "\<not> multi" "se_key e = k"
    using that Cons.prems(2) by (intro table_lookup_None) auto
  show ?case using Cons gt one by (auto simp: table_lookup_def)
qed (simp add: table_lookup_def)

lemma scan_in_block_append:
  "scan_in_block pfx ts (xs @ ys) st =
    (case scan_in_block pfx ts xs st of (True, st') \<Rightarrow> (True, st') | (False, st') \<Rightarrow> scan_in_block pfx ts ys st')"
proof (induction xs arbitrary: st)
  case (Cons e xs)
  obtain res ck sel where "st = (res, ck, sel)" by (cases st)
  then show ?case using Cons.IH by (cases "pfx = []") (simp_all add: Let_def)
qed simp

lemma not_prefix_below: "k < pfx \<Longrightarrow> \<not> prefix pfx k" for pfx k :: bytes
  using prefix_le[of pfx k] by auto

lemma scan_in_block_below: "\<forall>e \<in> set es. se_key e < pfx \<Longrightarrow> scan_in_block pfx ts es st = (False, st)"
proof (induction es arbitrary: st)
  case (Cons e es)
  obtain res ck sel where "st = (res, ck, sel)" by (cases st)
  moreover have "pfx \<noteq> []" using Cons.prems by auto
  ultimately show ?case using Cons not_prefix_below[of "se_key e" pfx] by simp
qed simp

lemma sst_scan_loop_view:
  assumes "reads_blocks C r ibs" and "set sub \<subseteq> set ibs" and "blocks_sorted (map snd sub)"
  shows "\<exists>r'. sst_scan_loop C pfx ts (map fst sub) st r =
      (Inr (fst (snd (scan_in_block pfx ts (concat (map snd sub)) st))), r') \<and> reads_blocks C r' ibs \<and> same_table r r'"
  using assms
proof (induction sub arbitrary: r st)
  case (Cons b sub)
  obtain ie es where b: "b = (ie, es)" by force
  have ie: "es \<noteq> []" "separator_key ie = se_key (last es)"
    using Cons.prems(1,2) b by (auto simp: reads_blocks_def)
  have srt: "blocks_sorted (map snd sub)" using Cons.prems(3) b by (auto simp: blocks_sorted_def sorted_append)
  note IH = Cons.IH[OF _ _ srt]
  show ?case
  proof (cases "separator_key ie \<noteq> [] \<and> separator_key ie < pfx")
    case True
    have "scan_in_block pfx ts es st = (False, st)"
      using block_below_separator[of es "map snd sub"] Cons.prems(3) b ie True
      by (intro scan_in_block_below) (auto intro: le_less_trans)
    then show ?thesis using IH[OF Cons.prems(1), of st] Cons.prems(2) b True by (simp add: scan_in_block_append)
  next
    case False
    obtain r1 where r1: "read_data_block C r ie = (Inr es, r1)" "reads_blocks C r1 ibs" "same_table r r1"
      using read_data_block_view[OF Cons.prems(1), of ie es] Cons.prems(2) b by auto
    obtain stop st' where s: "scan_in_block pfx ts es st = (stop, st')" by (metis surj_pair)
    obtain res ck sel where st': "st' = (res, ck, sel)" by (cases st')
    show ?thesis
    proof (cases stop)
      case True
      then show ?thesis using r1 b False s st' by (auto simp: scan_in_block_append)
    next
      case go: False
      obtain r2 where r2: "sst_scan_loop C pfx ts (map fst sub) st' r1 =
          (Inr (fst (snd (scan_in_block pfx ts (concat (map snd sub)) st'))), r2)" "reads_blocks C r2 ibs" "same_table r1 r2"
        using IH[OF r1(2), of st'] Cons.prems(2) by auto
      then show ?thesis
        using r1 b False s st' go same_table_trans[OF r1(3) r2(3)] by (auto simp: scan_in_block_append)
    qed
  qed
qed simp

text \<open>What a scan selects: of every key under the prefix the first visible version.\<close>

fun select_versions :: "bytes \<Rightarrow> u64 \<Rightarrow> bytes option \<Rightarrow> sst_entry list \<Rightarrow> sst_entry list" where
  "select_versions pfx ts dn [] = []"
| "select_versions pfx ts dn (e # es) =
    (if prefix pfx (se_key e) \<and> se_sequence e \<le> ts \<and> dn \<noteq> Some (se_key e)
     then e # select_versions pfx ts (Some (se_key e)) es
     else select_versions pfx ts dn es)"

lemma select_versions_cong:
  "(\<And>e. e \<in> set es \<Longrightarrow> dn = Some (se_key e) \<longleftrightarrow> dn' = Some (se_key e)) \<Longrightarrow>
   select_versions pfx ts dn es = select_versions pfx ts dn' es"
  by (induction es) auto

lemma select_versions_none: "(\<And>e. e \<in> set es \<Longrightarrow> \<not> prefix pfx (se_key e)) \<Longrightarrow> select_versions pfx ts dn es = []"
  by (induction es) auto

lemma not_prefix_above:
  assumes "\<not> prefix pfx k" "pfx \<le> (k :: bytes)" "k \<le> k'"
  shows "\<not> prefix pfx k'"
  using assms prefix_convex by blast

lemma scan_in_block_selects:
  assumes "sorted (map se_key es)" and "\<And>c e. ck = Some c \<Longrightarrow> e \<in> set es \<Longrightarrow> c \<le> se_key e"
  shows "fst (snd (scan_in_block pfx ts es (res, ck, sel))) = res @ select_versions pfx ts (if sel then ck else None) es"
  using assms
proof (induction es arbitrary: res ck sel)
  case (Cons e es)
  have srt: "sorted (map se_key es)" "\<And>x. x \<in> set es \<Longrightarrow> se_key e \<le> se_key x" using Cons.prems(1) by auto
  show ?case
  proof (cases "prefix pfx (se_key e)")
    case False
    show ?thesis
    proof (cases "se_key e < pfx")
      case True
      have "fst (snd (scan_in_block pfx ts es (res, ck, sel))) = res @ select_versions pfx ts (if sel then ck else None) es"
        by (rule Cons.IH[OF srt(1)]) (use Cons.prems(2) in auto)
      moreover have "pfx \<noteq> []" using False by auto
      ultimately show ?thesis using False True by simp
    next
      case nl: False
      then have "select_versions pfx ts dn es = []" for dn
        using not_prefix_above[OF False] srt(2) by (intro select_versions_none) (auto simp: not_less)
      moreover have "pfx \<noteq> []" using False by auto
      ultimately show ?thesis using False nl by simp
    qed
  next
    case pfx: True
    have ih: "fst (snd (scan_in_block pfx ts es (res, Some (se_key e), sel))) =
        res @ select_versions pfx ts (if sel then Some (se_key e) else None) es" for res sel
      by (rule Cons.IH[OF srt(1)]) (use srt(2) in auto)
    show ?thesis
    proof (cases "ck = Some (se_key e)")
      case True
      then show ?thesis using pfx by (simp add: Let_def ih)
    next
      case new: False
      have old: "select_versions pfx ts (if sel then ck else None) es = select_versions pfx ts None es"
      proof (rule select_versions_cong)
        fix x assume x: "x \<in> set es"
        have "ck \<noteq> Some (se_key x)"
          using new Cons.prems(2)[of "se_key x" e] srt(2)[OF x] by (cases "ck = Some (se_key x)") simp_all
        then show "(if sel then ck else None) = Some (se_key x) \<longleftrightarrow> None = Some (se_key x)" by simp
      qed
      have "(if sel then ck else None) \<noteq> Some (se_key e)" using new by simp
      then show ?thesis using new pfx
        unfolding select_versions.simps old by (cases "se_sequence e \<le> ts") (simp_all add: Let_def ih)
    qed
  qed
qed simp

lemma table_lookup_Cons:
  "table_lookup (e # es) k ts = (if se_key e = k \<and> se_sequence e \<le> ts then Some e else table_lookup es k ts)"
  by (simp add: table_lookup_def)

lemma table_lookup_Some: "table_lookup es k ts = Some x \<Longrightarrow> x \<in> set es \<and> se_key x = k \<and> se_sequence x \<le> ts"
  by (induction es) (auto simp: table_lookup_def split: if_splits)

lemma select_versions_set:
  assumes "sorted (map se_key es)" and "\<And>c e. dn = Some c \<Longrightarrow> e \<in> set es \<Longrightarrow> c \<le> se_key e"
  shows "x \<in> set (select_versions pfx ts dn es) \<longleftrightarrow>
    prefix pfx (se_key x) \<and> table_lookup es (se_key x) ts = Some x \<and> dn \<noteq> Some (se_key x)"
  using assms
proof (induction es arbitrary: dn)
  case (Cons e es)
  have srt: "sorted (map se_key es)" "\<And>x. x \<in> set es \<Longrightarrow> se_key e \<le> se_key x" using Cons.prems(1) by auto
  have ih: "x \<in> set (select_versions pfx ts (Some (se_key e)) es) \<longleftrightarrow>
      prefix pfx (se_key x) \<and> table_lookup es (se_key x) ts = Some x \<and> se_key e \<noteq> se_key x"
    using Cons.IH[OF srt(1), of "Some (se_key e)"] srt(2) by auto
  have ih2: "x \<in> set (select_versions pfx ts dn es) \<longleftrightarrow>
      prefix pfx (se_key x) \<and> table_lookup es (se_key x) ts = Some x \<and> dn \<noteq> Some (se_key x)"
    by (rule Cons.IH[OF srt(1)]) (use Cons.prems(2) in auto)
  have c: "dn = Some (se_key e)" if "dn = Some (se_key x)" "table_lookup es (se_key x) ts = Some x"
    using that Cons.prems(2)[of "se_key x" e] srt(2)[of x] table_lookup_Some[OF that(2)] by auto
  show ?case
  proof (cases "prefix pfx (se_key e) \<and> se_sequence e \<le> ts \<and> dn \<noteq> Some (se_key e)")
    case True
    then show ?thesis using ih c by (cases "x = e") (auto simp: table_lookup_Cons)
  next
    case False
    then show ?thesis using ih2 by (auto simp: table_lookup_Cons)
  qed
qed (simp add: table_lookup_def)

lemma select_versions_sub: "set (select_versions pfx ts dn es) \<subseteq> set es"
  by (induction es arbitrary: dn) auto

lemma select_versions_sorted:
  assumes "sorted (map se_key es)" and "\<And>c e. dn = Some c \<Longrightarrow> e \<in> set es \<Longrightarrow> c \<le> se_key e"
  shows "sorted_wrt (<) (map se_key (select_versions pfx ts dn es)) \<and>
    (\<forall>e \<in> set (select_versions pfx ts dn es). \<forall>c. dn = Some c \<longrightarrow> c < se_key e)"
  using assms
proof (induction es arbitrary: dn)
  case (Cons e es)
  have srt: "sorted (map se_key es)" "\<And>x. x \<in> set es \<Longrightarrow> se_key e \<le> se_key x" using Cons.prems(1) by auto
  have 1: "sorted_wrt (<) (map se_key (select_versions pfx ts (Some (se_key e)) es)) \<and>
      (\<forall>x \<in> set (select_versions pfx ts (Some (se_key e)) es). \<forall>c. Some (se_key e) = Some c \<longrightarrow> c < se_key x)"
    by (rule Cons.IH[OF srt(1)]) (use srt(2) in auto)
  have 2: "sorted_wrt (<) (map se_key (select_versions pfx ts dn es)) \<and>
      (\<forall>x \<in> set (select_versions pfx ts dn es). \<forall>c. dn = Some c \<longrightarrow> c < se_key x)"
    by (rule Cons.IH[OF srt(1)]) (use Cons.prems(2) in auto)
  show ?case
  proof (cases "prefix pfx (se_key e) \<and> se_sequence e \<le> ts \<and> dn \<noteq> Some (se_key e)")
    case True
    have 3: "c < se_key e" if "dn = Some c" for c
      using that True Cons.prems(2)[of c e] by (simp add: order.strict_iff_order)
    have "c < se_key x" if "x \<in> set (select_versions pfx ts (Some (se_key e)) es)" "dn = Some c" for x c
      using 1 that(1) 3[OF that(2)] by (blast intro: order.strict_trans)
    then show ?thesis using True 1 3 by simp
  next
    case False
    then have "select_versions pfx ts dn (e # es) = select_versions pfx ts dn es" by auto
    then show ?thesis using 2 by argo
  qed
qed simp

section \<open>Reads of a table\<close>

text \<open>
  A reader of a table with these entries: its blocks concatenate to them, they are in order, with one
  version of each key in the formats before version 4, and the bloom filter admits their keys.
\<close>

definition reads_table :: "compressors \<Rightarrow> sstable_reader \<Rightarrow> sst_entry list \<Rightarrow> bool" where
  "reads_table C r es \<longleftrightarrow> (\<exists>ibs. reads_blocks C r ibs \<and> concat (map snd ibs) = es) \<and>
    sorted (map se_key es) \<and> (format_version (rd_footer r) < SST_VERSION_V4 \<longrightarrow> distinct (map se_key es)) \<and>
    (\<forall>bf k. rd_bloom r = Some bf \<and> k \<in> se_key ` set es \<longrightarrow> might_contain bf k)"

lemma reads_table_same:
  "reads_table C r es \<Longrightarrow> reads_blocks C r' ibs \<Longrightarrow> concat (map snd ibs) = es \<Longrightarrow> same_table r r' \<Longrightarrow> reads_table C r' es"
  by (auto simp: reads_table_def same_table_def)

lemma sst_all_entries_table:
  assumes "reads_table C r es"
  shows "\<exists>r'. sst_all_entries C r = (Inr es, r') \<and> reads_table C r' es"
proof -
  obtain ibs where i: "reads_blocks C r ibs" "concat (map snd ibs) = es" using assms by (auto simp: reads_table_def)
  have idx: "rd_index r = map fst ibs" using i(1) by (simp add: reads_blocks_def)
  show ?thesis
    using all_entries_loop_view[OF i(1), of ibs] reads_table_same[OF assms _ i(2)] i(2) idx
    by (auto simp: sst_all_entries_def)
qed

lemma sst_get_at_table:
  assumes "reads_table C r es"
  shows "\<exists>r'. sst_get_at C r k ts = (Inr (table_lookup es k ts), r') \<and> reads_table C r' es"
proof (cases "\<exists>bf. rd_bloom r = Some bf \<and> \<not> might_contain bf k")
  case True
  then have "k \<notin> se_key ` set es" using assms by (auto simp: reads_table_def)
  then show ?thesis using True assms by (auto simp: sst_get_at_def table_lookup_None)
next
  case False
  let ?m = "format_version (rd_footer r) \<ge> SST_VERSION_V4"
  obtain ibs where i: "reads_blocks C r ibs" "concat (map snd ibs) = es" using assms by (auto simp: reads_table_def)
  have idx: "rd_index r = map fst ibs" using i(1) by (simp add: reads_blocks_def)
  have srt: "blocks_sorted (map snd ibs)" using assms i(2) by (simp add: blocks_sorted_def reads_table_def)
  have "(case get_in_block ?m k ts es of Some res \<Rightarrow> res | None \<Rightarrow> None) = table_lookup es k ts"
    using assms by (intro get_in_block_sorted) (auto simp: reads_table_def not_le)
  moreover have "sst_get_at C r k ts = get_loop C ?m k ts False (map fst ibs) r"
    using False idx by (auto simp: sst_get_at_def split: option.splits)
  ultimately show ?thesis
    using get_loop_view[OF i(1) _ srt, of ?m False k ts] reads_table_same[OF assms _ i(2)] i(2) by auto
qed

lemma sst_scan_prefix_at_table:
  assumes "reads_table C r es"
  shows "\<exists>r'. sst_scan_prefix_at C r pfx ts = (Inr (select_versions pfx ts None es), r') \<and> reads_table C r' es"
proof -
  obtain ibs where i: "reads_blocks C r ibs" "concat (map snd ibs) = es" using assms by (auto simp: reads_table_def)
  have idx: "rd_index r = map fst ibs" using i(1) by (simp add: reads_blocks_def)
  have srt: "blocks_sorted (map snd ibs)" using assms i(2) by (simp add: blocks_sorted_def reads_table_def)
  have "fst (snd (scan_in_block pfx ts es ([], None, False))) = select_versions pfx ts None es"
    using scan_in_block_selects[of es None pfx ts "[]" False] assms by (simp add: reads_table_def)
  then show ?thesis
    using sst_scan_loop_view[OF i(1) _ srt, of pfx ts "([], None, False)"] reads_table_same[OF assms _ i(2)] i(2) idx
    by (auto simp: sst_scan_prefix_at_def)
qed

end
