(* ===== verification/Sst_Build.thy ===== *)
theory Sst_Build
  imports Sst_Reads
begin

text \<open>
  The builder of table files meets the reader: a file built from sorted entries below the size limits of the
  format is opened, with any cache, as a reader of exactly those entries.
\<close>

section \<open>What the builder has written\<close>

definition stored_block :: "compressors \<Rightarrow> sstable_build_options \<Rightarrow> sst_entry list \<Rightarrow> bytes" where
  "stored_block C opts es =
    wrap_data_block_for_storage C (encode_data_block es (prefix_compression opts)) (resolve_compression_codec opts)"

definition block_index_entry :: "compressors \<Rightarrow> sstable_build_options \<Rightarrow> nat \<Rightarrow> sst_entry list \<Rightarrow> index_entry" where
  "block_index_entry C opts off es =
    \<lparr>separator_key = se_key (last es), block_offset = word_of_nat off,
     block_len = word_of_nat (length (stored_block C opts es)),
     first_seq = se_sequence (hd es), last_seq = se_sequence (last es)\<rparr>"

fun index_of_blocks :: "compressors \<Rightarrow> sstable_build_options \<Rightarrow> nat \<Rightarrow> sst_entry list list \<Rightarrow> index_entry list" where
  "index_of_blocks C opts off [] = []"
| "index_of_blocks C opts off (es # bss) =
    block_index_entry C opts off es # index_of_blocks C opts (off + length (stored_block C opts es)) bss"

lemma index_of_blocks_append:
  "index_of_blocks C opts off (xs @ ys) =
    index_of_blocks C opts off xs @ index_of_blocks C opts (off + length (concat (map (stored_block C opts) xs))) ys"
  by (induction xs arbitrary: off) (simp_all add: add.assoc)

lemma length_index_of_blocks [simp]: "length (index_of_blocks C opts off bss) = length bss"
  by (induction bss arbitrary: off) simp_all

definition built_blocks :: "compressors \<Rightarrow> sstable_builder \<Rightarrow> sst_entry list list \<Rightarrow> bool" where
  "built_blocks C b bss \<longleftrightarrow>
    data_bytes b = concat (map (stored_block C (sb_options b)) bss) \<and>
    index_entries b = index_of_blocks C (sb_options b) 0 bss \<and> [] \<notin> set bss \<and>
    current_count b = word_of_nat (length (current_entries b)) \<and>
    current_first_seq b = (if current_entries b = [] then None else Some (se_sequence (hd (current_entries b)))) \<and>
    current_last_seq b = (if current_entries b = [] then None else Some (se_sequence (last (current_entries b)))) \<and>
    current_last_key b = (if current_entries b = [] then None else Some (se_key (last (current_entries b))))"

definition built_stats :: "sstable_builder \<Rightarrow> sst_entry list \<Rightarrow> bool" where
  "built_stats b es \<longleftrightarrow> all_keys b = map se_key es \<and> total_entries b = word_of_nat (length es) \<and>
    smallest_key b = (if es = [] then None else Some (se_key (hd es))) \<and>
    largest_key b = (if es = [] then None else Some (se_key (last es))) \<and>
    table_min_seq b = (if es = [] then None else Some (Min (se_sequence ` set es))) \<and>
    table_max_seq b = (if es = [] then None else Some (Max (se_sequence ` set es)))"

lemma flush_frame:
  "sb_options (flush_current_block C b) = sb_options b" "built_stats (flush_current_block C b) es = built_stats b es"
  by (simp_all add: flush_current_block_def built_stats_def Let_def)

lemma flush_built:
  assumes inv: "built_blocks C b bss" and ne: "current_entries b \<noteq> []" and len: "length (current_entries b) < 2 ^ 32"
  shows "built_blocks C (flush_current_block C b) (bss @ [current_entries b]) \<and> current_entries (flush_current_block C b) = []"
proof -
  have "unat (current_count b) = length (current_entries b)" using inv unat_len32[OF len] by (simp add: built_blocks_def)
  then have c: "current_count b \<noteq> 0" using ne by auto
  show ?thesis using inv ne c
    by (simp add: built_blocks_def flush_current_block_def Let_def index_of_blocks_append block_index_entry_def stored_block_def)
qed

lemma flush_built_any:
  assumes "built_blocks C b bss" and "length (current_entries b) < 2 ^ 32"
  shows "\<exists>bss'. built_blocks C (flush_current_block C b) bss' \<and> concat bss' = concat bss @ current_entries b \<and>
    current_entries (flush_current_block C b) = []"
proof (cases "current_entries b = []")
  case True
  then have "flush_current_block C b = b" using assms by (simp add: flush_current_block_def built_blocks_def)
  then show ?thesis using assms True by auto
next
  case False
  then show ?thesis using flush_built[OF assms(1) False assms(2)] by (intro exI[of _ "bss @ [current_entries b]"]) simp
qed

text \<open>The builder after the fields of an entry are recorded, before the block is cut.\<close>

definition add_entry :: "sst_entry \<Rightarrow> sstable_builder \<Rightarrow> sstable_builder" where
  "add_entry e b =
    b\<lparr>last_internal_key := (if mvcc (sb_options b) then Some (InternalKey (se_key e) (se_sequence e)) else last_internal_key b),
      all_keys := all_keys b @ [se_key e], current_entries := current_entries b @ [e],
      current_count := current_count b + 1, total_entries := total_entries b + 1,
      current_first_seq := (case current_first_seq b of None \<Rightarrow> Some (se_sequence e) | f \<Rightarrow> f),
      current_last_seq := Some (se_sequence e), current_last_key := Some (se_key e),
      smallest_key := (case smallest_key b of None \<Rightarrow> Some (se_key e) | k \<Rightarrow> k), largest_key := Some (se_key e),
      table_min_seq := Some (case table_min_seq b of None \<Rightarrow> se_sequence e | Some m \<Rightarrow> min m (se_sequence e)),
      table_max_seq := Some (case table_max_seq b of None \<Rightarrow> se_sequence e | Some m \<Rightarrow> max m (se_sequence e))\<rparr>"

lemma builder_add_eq:
  "builder_add C e b =
    (if estimate_block_size (current_entries b @ [e]) (prefix_compression (sb_options b)) \<ge> target_block_bytes (sb_options b)
     then flush_current_block C (add_entry e b) else add_entry e b)"
  by (simp add: builder_add_def add_entry_def Let_def)

lemma add_entry_built:
  assumes "built_blocks C b bss"
  shows "built_blocks C (add_entry e b) bss \<and> current_entries (add_entry e b) = current_entries b @ [e] \<and>
    sb_options (add_entry e b) = sb_options b"
  using assms by (simp add: built_blocks_def add_entry_def)

lemma add_entry_stats:
  assumes "built_stats b es"
  shows "built_stats (add_entry e b) (es @ [e])"
proof -
  have "Min (insert (se_sequence e) (se_sequence ` set es)) = min (Min (se_sequence ` set es)) (se_sequence e)"
    "Max (insert (se_sequence e) (se_sequence ` set es)) = max (Max (se_sequence ` set es)) (se_sequence e)" if "es \<noteq> []"
    using that by (simp_all add: min.commute max.commute)
  then show ?thesis using assms by (auto simp: built_stats_def add_entry_def)
qed

lemma builder_add_built:
  assumes "built_blocks C b bss" and "built_stats b es" and "concat bss @ current_entries b = es" and "length es + 1 < 2 ^ 32"
  shows "\<exists>bss'. built_blocks C (builder_add C e b) bss' \<and> concat bss' @ current_entries (builder_add C e b) = es @ [e] \<and>
    built_stats (builder_add C e b) (es @ [e]) \<and> sb_options (builder_add C e b) = sb_options b"
proof -
  note A = add_entry_built[OF assms(1), of e] and S = add_entry_stats[OF assms(2), of e]
  show ?thesis
  proof (cases "estimate_block_size (current_entries b @ [e]) (prefix_compression (sb_options b)) \<ge> target_block_bytes (sb_options b)")
    case True
    have "length (current_entries (add_entry e b)) < 2 ^ 32" using assms(3,4) A by auto
    from flush_built_any[OF conjunct1[OF A] this] show ?thesis
      using True A S assms(3) flush_frame[of C "add_entry e b"] by (auto simp: builder_add_eq)
  next
    case False
    then show ?thesis using A S assms(3) by (auto simp: builder_add_eq)
  qed
qed

definition build_table :: "compressors \<Rightarrow> sstable_build_options \<Rightarrow> sst_entry list \<Rightarrow> sstable_builder" where
  "build_table C opts es = foldl (\<lambda>b e. builder_add C e b) (builder_with_options opts) es"

lemma build_table_built:
  assumes "length es < 2 ^ 32"
  shows "\<exists>bss. built_blocks C (build_table C opts es) bss \<and> concat bss @ current_entries (build_table C opts es) = es \<and>
    built_stats (build_table C opts es) es \<and>
    sb_options (build_table C opts es) = opts\<lparr>target_block_bytes := max (target_block_bytes opts) 1\<rparr>"
  using assms
proof (induction es rule: rev_induct)
  case Nil
  show ?case
    by (intro exI[of _ "[]"]) (simp add: build_table_def builder_with_options_def built_blocks_def built_stats_def)
next
  case (snoc e es)
  obtain bss where IH: "built_blocks C (build_table C opts es) bss" "concat bss @ current_entries (build_table C opts es) = es"
    "built_stats (build_table C opts es) es"
    "sb_options (build_table C opts es) = opts\<lparr>target_block_bytes := max (target_block_bytes opts) 1\<rparr>"
    using snoc by auto
  have "length es + 1 < 2 ^ 32" using snoc.prems by simp
  from builder_add_built[OF IH(1,3,2) this, of e] show ?case using IH(4) by (simp add: build_table_def)
qed

section \<open>Sizes\<close>

text \<open>
  An upper bound of what an entry adds to the file, and the size limit: below 4 GiB every 32-bit length of
  the format is exact.
\<close>

definition entry_weight :: "sst_entry \<Rightarrow> nat" where
  "entry_weight e = 40 + length (se_key e) + length (value_bytes e)"

definition table_fits :: "sst_entry list \<Rightarrow> bool" where
  "table_fits es \<longleftrightarrow> sum_list (map entry_weight es) + 8 < 2 ^ 32"

abbreviation weight :: "sst_entry list \<Rightarrow> nat" where
  "weight es \<equiv> sum_list (map entry_weight es)"

lemma entry_weight_le: "e \<in> set es \<Longrightarrow> entry_weight e \<le> weight es"
  by (simp add: member_le_sum_list)

lemma length_le_weight: "40 * length es \<le> weight es"
  by (induction es) (simp_all add: entry_weight_def)

lemma weight_concat: "weight (concat bss) = sum_list (map weight bss)"
  by (induction bss) simp_all

lemma length_prefix_region: "length (prefix_region i prev es) + 19 * length es \<le> weight es"
proof (induction es arbitrary: i prev)
  case (Cons e es)
  have "length (encode_entry_prefix e p) \<le> 21 + length (se_key e) + length (value_bytes e)" for p
    by (auto simp: encode_entry_prefix_def Let_def split: option.splits)
  from this[of "if i mod PREFIX_RESTART_INTERVAL = 0 then None else prev"] Cons.IH[of "i + 1" "Some (se_key e)"]
  show ?case unfolding prefix_region.simps list.map sum_list.Cons entry_weight_def[of e] length_append length_Cons
    mult_Suc_right by linarith
qed simp

lemma length_legacy_region: "length (concat (map encode_entry_legacy es)) + 23 * length es = weight es"
  by (induction es) (simp_all add: encode_entry_legacy_def entry_weight_def)

lemma block_body_length: "es \<noteq> [] \<Longrightarrow> length (block_body es pc) + 5 \<le> weight es"
proof -
  assume "es \<noteq> []"
  then have n: "1 \<le> length es" by (cases es) simp_all
  have p: "length (block_body es True) = 8 + length (prefix_region 0 None es) + 4 * length (prefix_restarts 0 None 0 es)"
    by (simp add: block_body_def length_concat_u32 del: map_map)
  have l: "length (block_body es False) = 8 + length (concat (map encode_entry_legacy es))"
    by (simp add: block_body_def)
  show ?thesis
    using n p l length_prefix_region[of 0 None es] length_legacy_region[of es] length_prefix_restarts[of 0 None 0 es]
    by (cases pc) simp_all
qed

lemma stored_block_length: "es \<noteq> [] \<Longrightarrow> 1 \<le> length (stored_block C opts es) \<and> length (stored_block C opts es) \<le> weight es"
proof -
  assume "es \<noteq> []"
  then have "length (encode_data_block es (prefix_compression opts)) + 1 \<le> weight es"
    using block_body_length[of es "prefix_compression opts"] by (simp add: encode_data_block_sealed)
  moreover have "1 \<le> length (encode_data_block es (prefix_compression opts))" by (simp add: encode_data_block_sealed)
  moreover have "1 \<le> length (wrap_data_block_for_storage C raw codec)" if "1 \<le> length raw" for raw codec
    using that by (auto simp: wrap_data_block_for_storage_def Let_def)
  ultimately show ?thesis
    using wrap_length[of C "encode_data_block es (prefix_compression opts)" "resolve_compression_codec opts"]
    by (simp add: stored_block_def)
qed

lemma data_length:
  "[] \<notin> set bss \<Longrightarrow> length (concat (map (stored_block C opts) bss)) \<le> weight (concat bss)"
proof (induction bss)
  case (Cons es bss)
  then have "es \<noteq> []" by auto
  then show ?case using Cons stored_block_length[of es C opts] by (simp add: add_mono)
qed simp

lemma index_length:
  "[] \<notin> set bss \<Longrightarrow> length (concat (map encode_index_entry (index_of_blocks C opts off bss))) \<le> weight (concat bss)"
proof (induction bss arbitrary: off)
  case (Cons es bss)
  then have "es \<noteq> []" by auto
  then have "32 + length (se_key (last es)) \<le> weight es"
    using entry_weight_le[of "last es" es] by (simp add: entry_weight_def)
  moreover have "length (encode_index_entry (block_index_entry C opts off es)) = 32 + length (se_key (last es))"
    by (simp add: encode_index_entry_def block_index_entry_def)
  ultimately show ?case
    using Cons.IH[of "off + length (stored_block C opts es)"] Cons.prems by simp
qed simp

lemma block_fits_weight: "weight es + 8 < 2 ^ 32 \<Longrightarrow> block_fits es pc"
proof -
  assume w: "weight es + 8 < 2 ^ 32"
  have "entry_fits e" if "e \<in> set es" for e
    using entry_weight_le[OF that] w by (simp add: entry_fits_def entry_weight_def)
  moreover have "length es < 2 ^ 32" using length_le_weight[of es] w by simp
  moreover have "length (prefix_region 0 None es) < 2 ^ 32" using length_prefix_region[of 0 None es] w by simp
  ultimately show ?thesis by (simp add: block_fits_def list_all_iff)
qed

lemma weight_mono: "es \<in> set bss \<Longrightarrow> weight es \<le> weight (concat bss)"
  by (induction bss) auto

lemma index_fits_blocks:
  assumes "[] \<notin> set bss" and "table_fits (concat bss)"
  shows "index_fits (index_of_blocks C opts off bss)"
proof -
  have "length bss \<le> length (concat bss)"
    using assms(1) by (induction bss) (auto simp: Suc_le_eq intro: le_less_trans)
  then have n: "length bss < 2 ^ 32" using length_le_weight[of "concat bss"] assms(2) by (simp add: table_fits_def)
  have "length (separator_key ie) < 2 ^ 32" if "ie \<in> set (index_of_blocks C opts off bss)" for ie
  proof -
    have "length (separator_key ie) \<le> weight (concat bss)" using that assms(1)
    proof (induction bss arbitrary: off)
      case (Cons es bss)
      then have "es \<noteq> []" by auto
      then have "length (se_key (last es)) \<le> weight es"
        using entry_weight_le[of "last es" es] by (simp add: entry_weight_def)
      then show ?case using Cons by (auto simp: block_index_entry_def intro: trans_le_add1 trans_le_add2)
    qed simp
    then show ?thesis using assms(2) by (simp add: table_fits_def)
  qed
  then show ?thesis using n by (simp add: index_fits_def list_all_iff)
qed

section \<open>Loading the blocks of a file\<close>

text \<open>The block of an index entry lies in the file where the entry says, and decodes to its entries.\<close>

lemma codec_of_options:
  "resolve_compression_codec opts \<in> {COMPRESSION_CODEC_NONE, COMPRESSION_CODEC_LZ4, COMPRESSION_CODEC_ZSTD}"
  by (simp add: resolve_compression_codec_def)

lemma load_stored_block:
  assumes C: "compressors_ok C" and w: "weight es + 8 < 2 ^ 32" and ne: "es \<noteq> []"
    and bytes: "rd_bytes r = pre @ stored_block C opts es @ suf"
    and pre: "length pre + length (stored_block C opts es) \<le> unat (index_block_offset (rd_footer r))"
    and codec: "compression_codec (rd_footer r) = resolve_compression_codec opts"
  shows "load_block C r (block_index_entry C opts (length pre) es) = Inr es"
proof -
  let ?n = "length (stored_block C opts es)"
  have "length pre < 2 ^ 64"
    using pre unsigned_less[of "index_block_offset (rd_footer r)", where ?'a = nat] stored_block_length[OF ne, of C opts]
    by simp
  moreover have "?n < 2 ^ 32" using stored_block_length[OF ne, of C opts] w by simp
  ultimately have u: "unat (word_of_nat (length pre) :: u64) = length pre" "unat (word_of_nat ?n :: u32) = ?n"
    by (simp_all add: unat_of_nat)
  have sub: "subrange (length pre) (length pre + ?n) (rd_bytes r) = stored_block C opts es"
    by (rule subrange_at_pos[OF bytes]) simp_all
  have "unwrap_data_block_from_storage C (stored_block C opts es) (resolve_compression_codec opts) =
      Inr (encode_data_block es (prefix_compression opts))"
    unfolding stored_block_def by (rule unwrap_wrap[OF C codec_of_options])
  then show ?thesis
    using pre by (simp add: load_block_def block_index_entry_def u sub codec Let_def
        decode_encode_data_block[OF block_fits_weight[OF w]])
qed

lemma load_index_blocks:
  assumes C: "compressors_ok C" and w: "weight (concat bss) + 8 < 2 ^ 32" and ne: "[] \<notin> set bss"
    and bytes: "rd_bytes r = pre @ concat (map (stored_block C opts) bss) @ suf"
    and pre: "length pre + length (concat (map (stored_block C opts) bss)) \<le> unat (index_block_offset (rd_footer r))"
    and codec: "compression_codec (rd_footer r) = resolve_compression_codec opts"
  shows "\<forall>(ie, es) \<in> set (zip (index_of_blocks C opts (length pre) bss) bss).
    load_block C r ie = Inr es \<and> es \<noteq> [] \<and> separator_key ie = se_key (last es)"
  using w ne bytes pre
proof (induction bss arbitrary: pre)
  case (Cons es bss)
  have ne: "es \<noteq> []" "[] \<notin> set bss" using Cons.prems(2) by auto
  let ?p = "pre @ stored_block C opts es"
  have "load_block C r (block_index_entry C opts (length pre) es) = Inr es"
    by (rule load_stored_block[OF C _ ne(1) _ _ codec, of _ "concat (map (stored_block C opts) bss) @ suf"])
      (use Cons.prems in simp_all)
  moreover have "\<forall>(ie, es) \<in> set (zip (index_of_blocks C opts (length ?p) bss) bss).
      load_block C r ie = Inr es \<and> es \<noteq> [] \<and> separator_key ie = se_key (last es)"
    by (rule Cons.IH) (use Cons.prems ne in simp_all)
  ultimately show ?case using ne(1) by (auto simp: block_index_entry_def)
qed simp

lemma index_offsets_distinct:
  assumes "[] \<notin> set bss" and "off + length (concat (map (stored_block C opts) bss)) < 2 ^ 64"
  shows "distinct (map block_offset (index_of_blocks C opts off bss)) \<and>
    (\<forall>ie \<in> set (index_of_blocks C opts off bss). off \<le> unat (block_offset ie))"
  using assms
proof (induction bss arbitrary: off)
  case (Cons es bss)
  have n: "1 \<le> length (stored_block C opts es)" using stored_block_length[of es C opts] Cons.prems(1) by auto
  have u: "unat (word_of_nat off :: u64) = off" using Cons.prems(2) by (simp add: unat_of_nat)
  have ih: "distinct (map block_offset (index_of_blocks C opts (off + length (stored_block C opts es)) bss))"
    "\<And>ie. ie \<in> set (index_of_blocks C opts (off + length (stored_block C opts es)) bss) \<Longrightarrow>
      off + length (stored_block C opts es) \<le> unat (block_offset ie)"
    using Cons.IH[of "off + length (stored_block C opts es)"] Cons.prems by auto
  show ?case using ih n u by (fastforce simp: block_index_entry_def)
qed simp

section \<open>Opening a built file\<close>

lemma bloom_bytes_length: "build_bloom_filter keys bpk = Some (bb, hc) \<Longrightarrow> keys \<noteq> [] \<Longrightarrow> 0 < length bb \<and> length bb < 2 ^ 32"
proof -
  assume b: "build_bloom_filter keys bpk = Some (bb, hc)" and k: "keys \<noteq> []"
  define bl where "bl = (unat (bloom_num_bits (length keys) bpk) + 7) div 8"
  define nb where "nb = u32_saturating_mul8 (word_of_nat bl)"
  have nb0: "nb \<noteq> 0" and bits: "bb = fold (set_key_bits hc nb) keys (replicate bl 0)"
    using b k by (auto simp: build_bloom_filter_def Let_def bl_def nb_def split: if_splits)
  have le: "unat nb \<le> 8 * length (replicate bl (0 :: u8))"
    using unat_u32_saturating_mul8[of bl] by (simp add: nb_def)
  have "length bb = bl" using fold_set_key_bits(1)[OF nb0 le] by (simp add: bits)
  moreover have "bl < 2 ^ 32"
    using unsigned_less[of "bloom_num_bits (length keys) bpk", where ?'a = nat] by (simp add: bl_def)
  moreover have "bl \<noteq> 0" using le nb0 by (cases bl) (auto simp: unat_eq_zero)
  ultimately show ?thesis by simp
qed

lemma build_bloom_some: "0 < length keys * unat bpk \<Longrightarrow> length keys * unat bpk < 2 ^ 32 \<Longrightarrow> build_bloom_filter keys bpk \<noteq> None"
proof -
  assume k: "0 < length keys * unat bpk" "length keys * unat bpk < 2 ^ 32"
  define n where "n = max (length keys * unat bpk) 64"
  have n: "64 \<le> n" "n < 2 ^ 32" using k by (simp_all add: n_def)
  have "bloom_num_bits (length keys) bpk = word_of_nat n"
    using k by (simp add: bloom_num_bits_def Let_def n_def min_def)
  then have u: "unat (bloom_num_bits (length keys) bpk) = n" using unat_len32[OF n(2)] by simp
  have d: "0 < (n + 7) div 8" "(n + 7) div 8 < 2 ^ 32" using n by simp_all
  have "u32_saturating_mul8 (word_of_nat ((n + 7) div 8)) \<noteq> 0"
  proof (cases "(n + 7) div 8 * 8 < 2 ^ 32")
    case True
    then have "unat (word_of_nat ((n + 7) div 8) * 8 :: u32) = (n + 7) div 8 * 8"
      using unat_len32[OF d(2)] by (simp add: unat_mult_lem[THEN iffD1])
    then show ?thesis using d unat_len32[OF d(2)] True by (auto simp: u32_saturating_mul8_def)
  qed (use unat_len32[OF d(2)] in \<open>simp add: u32_saturating_mul8_def\<close>)
  then show ?thesis using u by (simp add: build_bloom_filter_def Let_def)
qed

lemma open_parts:
  assumes dec: "decode_footer (data @ idx @ bb @ encode_footer f) = Inr f"
    and io: "unat (index_block_offset f) = length data" and il: "unat (index_block_len f) = length idx"
    and di: "decode_index_block idx = Inr ies"
    and bloom: "if bloom_len f = 0 then bloom = None else unat (bloom_offset f) = length data + length idx \<and>
      unat (bloom_len f) = length bb \<and> (\<exists>bf. bloom_from_bytes bb (ft_bloom_hash_count f) = Inr bf \<and> bloom = Some bf)"
  shows "open_with_cache (data @ idx @ bb @ encode_footer f) cap =
    Inr \<lparr>rd_bytes = data @ idx @ bb @ encode_footer f, rd_footer = f, rd_index = ies, rd_bloom = bloom,
      rd_cache = (if cap > 0 then Some (block_cache_new cap) else None)\<rparr>"
proof -
  let ?bytes = "data @ idx @ bb @ encode_footer f"
  have ce: "length ?bytes - physical_len f = length data + length idx + length bb"
    by (simp add: length_encode_footer)
  have s1: "subrange (length data) (length data + length idx) ?bytes = idx" by (rule subrange_at_pos[of _ data]) simp_all
  have s2: "subrange (length data + length idx) (length data + length idx + length bb) ?bytes = bb"
    by (rule subrange_at_pos[of _ "data @ idx"]) simp_all
  show ?thesis
    unfolding open_with_cache_def dec res_bind_simps Let_def io il ce s1
    using bloom di by (auto simp: s2 word_gt_0)
qed

definition footer_of_builder :: "sstable_builder \<Rightarrow> nat \<Rightarrow> u64 \<Rightarrow> u32 \<Rightarrow> u32 \<Rightarrow> sst_footer" where
  "footer_of_builder b ilen boff blen bhc =
    \<lparr>index_block_offset = word_of_nat (length (data_bytes b)), index_block_len = word_of_nat ilen,
     ft_min_seq = (case table_min_seq b of Some s \<Rightarrow> s | None \<Rightarrow> 1),
     ft_max_seq = (case table_max_seq b of Some s \<Rightarrow> s | None \<Rightarrow> 1),
     ft_entry_count = total_entries b, format_version = format_version_of (sb_options b), bloom_offset = boff,
     bloom_len = blen, ft_bloom_hash_count = bhc, compression_codec = resolve_compression_codec (sb_options b)\<rparr>"

lemma footer_of_builder_ok: "footer_ok (footer_of_builder b ilen boff blen bhc)"
  by (auto simp: footer_ok_def footer_of_builder_def format_version_of_def resolve_compression_codec_def
      physical_len_def sst_consts codec_consts word_le_nat_alt)

text \<open>The entry counts of a version 2 table that its footer cannot be read back with.\<close>

definition footer_ambiguous :: "sstable_build_options \<Rightarrow> nat \<Rightarrow> bool" where
  "footer_ambiguous opts n \<longleftrightarrow> format_version_of opts = SST_VERSION_V2 \<and> n div 65536 mod 65536 = 72"

lemma decode_built_footer:
  assumes "\<not> footer_ambiguous (sb_options b) (unat (total_entries b))" and "8 \<le> length pre"
  shows "decode_footer (pre @ encode_footer (footer_of_builder b ilen boff blen bhc)) =
    Inr (footer_of_builder b ilen boff blen bhc)"
proof -
  let ?f = "footer_of_builder b ilen boff blen bhc"
  have p: "physical_len ?f = (if format_version_of (sb_options b) = SST_VERSION_V2 then 64 else 72)"
    by (auto simp: physical_len_def footer_of_builder_def format_version_of_def sst_consts word_le_nat_alt)
  have "detect_footer_len (pre @ encode_footer ?f) = Inr (physical_len ?f)"
  proof (cases "format_version_of (sb_options b) = SST_VERSION_V2")
    case True
    then show ?thesis
      using detect_v2_footer[of ?f pre] assms p by (auto simp: footer_ambiguous_def footer_of_builder_def)
  qed (use p detect_v3 in simp)
  then show ?thesis by (rule decode_footer_detected[OF footer_of_builder_ok])
qed

abbreviation normal_options :: "sstable_build_options \<Rightarrow> sstable_build_options" where
  "normal_options opts \<equiv> opts\<lparr>target_block_bytes := max (target_block_bytes opts) 1\<rparr>"

lemma normal_options_same:
  "format_version_of (normal_options opts) = format_version_of opts"
  "resolve_compression_codec (normal_options opts) = resolve_compression_codec opts"
  by (simp_all add: format_version_of_def resolve_compression_codec_def)

lemma flushed_table:
  assumes "length es < 2 ^ 32" and "b = flush_current_block C (build_table C opts es)"
  shows "\<exists>bss. built_blocks C b bss \<and> concat bss = es \<and> built_stats b es \<and> sb_options b = normal_options opts"
proof -
  obtain bss0 where B0: "built_blocks C (build_table C opts es) bss0"
      "concat bss0 @ current_entries (build_table C opts es) = es" "built_stats (build_table C opts es) es"
      "sb_options (build_table C opts es) = normal_options opts"
    using build_table_built[OF assms(1), of C opts] by blast
  have "length (current_entries (build_table C opts es)) < 2 ^ 32"
    using assms(1) arg_cong[OF B0(2), of length] by simp
  then show ?thesis
    using flush_built_any[OF B0(1)] B0(2,3,4) flush_frame[of C "build_table C opts es"] unfolding assms(2) by auto
qed

lemma bloom_section_built:
  assumes keys: "all_keys b = map se_key es" and ne: "es \<noteq> []"
    and bl: "length es * unat (bloom_bits_per_key (sb_options b)) < 2 ^ 32" and off: "off < 2 ^ 64"
  shows "\<exists>bb boff blen bhc bloom. bloom_section b off = Some (bb, boff, blen, bhc) \<and>
    (if blen = 0 then bloom = None else unat boff = off \<and> unat blen = length bb \<and>
      (\<exists>bf. bloom_from_bytes bb bhc = Inr bf \<and> bloom = Some bf)) \<and>
    (\<forall>bf k. bloom = Some bf \<and> k \<in> se_key ` set es \<longrightarrow> might_contain bf k)"
proof (cases "bloom_bits_per_key (sb_options b) = 0")
  case True
  then show ?thesis by (auto simp: bloom_section_def)
next
  case False
  then have "0 < length es * unat (bloom_bits_per_key (sb_options b))" using ne by (simp add: unat_gt_0)
  then obtain bb hc where f: "build_bloom_filter (all_keys b) (bloom_bits_per_key (sb_options b)) = Some (bb, hc)"
    using build_bloom_some[of "all_keys b" "bloom_bits_per_key (sb_options b)"] bl keys by auto
  have "length bb < 2 ^ 32" "0 < length bb" using bloom_bytes_length[OF f] keys ne by auto
  then have u: "unat (word_of_nat (length bb) :: u32) = length bb" "(word_of_nat (length bb) :: u32) \<noteq> 0"
    using unat_len32[of "length bb"] by fastforce+
  have uo: "unat (word_of_nat off :: u64) = off" using off by (simp add: unat_of_nat)
  have sound: "\<exists>g. bloom_from_bytes bb hc = Inr g \<and> might_contain g k" if "k \<in> se_key ` set es" for k
    using bloom_sound[OF f, of k] that keys by auto
  obtain bf where bf: "bloom_from_bytes bb hc = Inr bf" using sound[of "se_key (hd es)"] ne by auto
  have "\<forall>k. k \<in> se_key ` set es \<longrightarrow> might_contain bf k" using sound bf by auto
  then show ?thesis using False f u uo bf
    by (intro exI[of _ bb] exI[of _ "word_of_nat off"] exI[of _ "word_of_nat (length bb)"] exI[of _ hc] exI[of _ "Some bf"])
      (simp add: bloom_section_def)
qed

lemma reads_table_built:
  assumes C: "compressors_ok C" and fits: "table_fits (concat bss)" and ne: "[] \<notin> set bss"
    and srt: "sorted (map se_key (concat bss))"
    and uniq: "format_version (rd_footer r) < SST_VERSION_V4 \<longrightarrow> distinct (map se_key (concat bss))"
    and bytes: "rd_bytes r = concat (map (stored_block C opts) bss) @ suf"
    and io: "unat (index_block_offset (rd_footer r)) = length (concat (map (stored_block C opts) bss))"
    and codec: "compression_codec (rd_footer r) = resolve_compression_codec opts"
    and idx: "rd_index r = index_of_blocks C opts 0 bss"
    and cache: "rd_cache r = (if cap > 0 then Some (block_cache_new cap) else None)"
    and bloom: "\<forall>bf k. rd_bloom r = Some bf \<and> k \<in> se_key ` set (concat bss) \<longrightarrow> might_contain bf k"
  shows "reads_table C r (concat bss)"
proof -
  let ?ibs = "zip (index_of_blocks C opts 0 bss) bss"
  have w: "weight (concat bss) + 8 < 2 ^ 32" using fits by (simp add: table_fits_def)
  have m: "map fst ?ibs = index_of_blocks C opts 0 bss" "map snd ?ibs = bss" by simp_all
  have "0 + length (concat (map (stored_block C opts) bss)) < 2 ^ 64" using data_length[OF ne, of C opts] w by simp
  then have "distinct (map (block_offset \<circ> fst) ?ibs)"
    using index_offsets_distinct[OF ne, of 0 C opts] unfolding map_map[symmetric] m by blast
  moreover have "\<forall>(ie, es) \<in> set ?ibs. load_block C r ie = Inr es \<and> es \<noteq> [] \<and> separator_key ie = se_key (last es)"
    using load_index_blocks[OF C w ne, of r "[]" opts suf] bytes io codec by simp
  moreover have "cache_sound ?ibs (rd_cache r)"
    using cache by (auto simp: cache_sound_def bc_inv_new) (simp add: block_cache_new_def bt_empty_def)
  ultimately have "reads_blocks C r ?ibs" using idx m by (simp add: reads_blocks_def)
  then show ?thesis using srt uniq bloom m(2) unfolding reads_table_def by metis
qed

lemma built_table_opens:
  assumes C: "compressors_ok C" and fits: "table_fits es" and ne: "es \<noteq> []" and srt: "sorted (map se_key es)"
    and uniq: "mvcc opts \<or> distinct (map se_key es)" and bl: "length es * unat (bloom_bits_per_key opts) < 2 ^ 32"
    and amb: "\<not> footer_ambiguous opts (length es)"
  shows "\<exists>bytes. builder_finish C (build_table C opts es) = Some (Inr bytes) \<and>
    (\<forall>cap. \<exists>r. open_with_cache bytes cap = Inr r \<and> reads_table C r es \<and>
      unat (ft_entry_count (rd_footer r)) = length es \<and>
      ft_min_seq (rd_footer r) = Min (se_sequence ` set es) \<and> ft_max_seq (rd_footer r) = Max (se_sequence ` set es))"
proof -
  define b where "b = flush_current_block C (build_table C opts es)"
  define opn where "opn = normal_options opts"
  have n32: "length es < 2 ^ 32" using length_le_weight[of es] fits by (simp add: table_fits_def)
  obtain bss where B: "built_blocks C b bss" "concat bss = es" "built_stats b es" "sb_options b = opn"
    using flushed_table[OF n32 b_def] unfolding opn_def by blast
  have data: "data_bytes b = concat (map (stored_block C opn) bss)" and ie: "index_entries b = index_of_blocks C opn 0 bss"
    and neb: "[] \<notin> set bss" using B by (auto simp: built_blocks_def)
  let ?ies = "index_of_blocks C opn 0 bss" and ?idx = "finalize_index_block (index_of_blocks C opn 0 bss)"
  have D: "length (data_bytes b) \<le> weight es" using data_length[OF neb, of C opn] data B(2) by simp
  have I: "length ?idx \<le> weight es + 8" using index_length[OF neb, of C opn 0] B(2) by (simp add: finalize_index_sealed)
  have tot: "unat (total_entries b) = length es" using B(3) n32 by (simp add: built_stats_def unat_of_nat)
  then have emp: "\<not> builder_is_empty (build_table C opts es)"
    using ne flush_frame(2)[of C "build_table C opts es" es] B(3) by (auto simp: builder_is_empty_def built_stats_def b_def)
  have off: "length (data_bytes b @ ?idx) < 2 ^ 64" using D I fits by (simp add: table_fits_def)
  obtain bb boff blen bhc bloom where bs: "bloom_section b (length (data_bytes b @ ?idx)) = Some (bb, boff, blen, bhc)"
    and bloom: "if blen = 0 then bloom = None else unat boff = length (data_bytes b @ ?idx) \<and> unat blen = length bb \<and>
      (\<exists>bf. bloom_from_bytes bb bhc = Inr bf \<and> bloom = Some bf)"
    and admit: "\<forall>bf k. bloom = Some bf \<and> k \<in> se_key ` set es \<longrightarrow> might_contain bf k"
  proof -
    have "all_keys b = map se_key es" "length es * unat (bloom_bits_per_key (sb_options b)) < 2 ^ 32"
      using B(3,4) bl by (simp_all add: built_stats_def opn_def)
    from bloom_section_built[OF this(1) ne this(2) off] show thesis using that by blast
  qed
  define f where "f = footer_of_builder b (length ?idx) boff blen bhc"
  define bytes where "bytes = data_bytes b @ ?idx @ bb @ encode_footer f"
  have fin: "builder_finish C (build_table C opts es) = Some (Inr bytes)"
    using emp bs by (simp add: builder_finish_def b_def[symmetric] ie Let_def bytes_def f_def footer_of_builder_def)
  have dec: "decode_footer (data_bytes b @ ?idx @ bb @ encode_footer f) = Inr f"
  proof -
    have "\<not> footer_ambiguous (sb_options b) (unat (total_entries b))"
      using amb unfolding footer_ambiguous_def tot B(4) opn_def normal_options_same .
    moreover have "8 \<le> length (data_bytes b @ ?idx @ bb)" by (simp add: finalize_index_sealed)
    ultimately show ?thesis
      using decode_built_footer[of b "data_bytes b @ ?idx @ bb" "length ?idx" boff blen bhc] by (simp add: f_def)
  qed
  have io: "unat (index_block_offset f) = length (data_bytes b)" and il: "unat (index_block_len f) = length ?idx"
    using D I fits by (simp_all add: f_def footer_of_builder_def unat_of_nat table_fits_def)
  have di: "decode_index_block ?idx = Inr ?ies"
    using index_fits_blocks[OF neb, of C opn 0] fits B(2) by (simp add: decode_finalize_index)
  have op: "open_with_cache bytes cap = Inr \<lparr>rd_bytes = bytes, rd_footer = f, rd_index = ?ies, rd_bloom = bloom,
      rd_cache = (if cap > 0 then Some (block_cache_new cap) else None)\<rparr>" for cap
    unfolding bytes_def by (rule open_parts[OF dec io il di]) (use bloom in \<open>simp add: f_def footer_of_builder_def\<close>)
  have ff: "format_version f < SST_VERSION_V4 \<longrightarrow> distinct (map se_key es)" "compression_codec f = resolve_compression_codec opn"
    using B(4) uniq by (auto simp: f_def footer_of_builder_def opn_def format_version_of_def)
  have "reads_table C \<lparr>rd_bytes = bytes, rd_footer = f, rd_index = ?ies, rd_bloom = bloom,
      rd_cache = (if cap > 0 then Some (block_cache_new cap) else None)\<rparr> (concat bss)" for cap
    by (rule reads_table_built[OF C, where opts = opn and cap = cap and suf = "?idx @ bb @ encode_footer f"])
      (use fits neb srt io ff admit data B(2) in \<open>simp_all add: bytes_def\<close>)
  moreover have "unat (ft_entry_count f) = length es" "ft_min_seq f = Min (se_sequence ` set es)"
    "ft_max_seq f = Max (se_sequence ` set es)"
    using tot ne B(3) by (simp_all add: f_def footer_of_builder_def built_stats_def)
  ultimately show ?thesis using fin op B(2) by (intro exI[of _ bytes]) simp
qed

section \<open>The interface of a table\<close>

text \<open>
  What a client relies on: a table answers from a list of entries and goes on doing so. The client's lemmas
  hold for any sequence of reads.
\<close>

datatype table_read = ReadKey bytes u64 | ReadPrefix bytes u64 | ReadAll

locale sorted_table =
  fixes rep :: "'r \<Rightarrow> sst_entry list \<Rightarrow> bool"
    and get :: "'r \<Rightarrow> bytes \<Rightarrow> u64 \<Rightarrow> sst_entry option result \<times> 'r"
    and scan :: "'r \<Rightarrow> bytes \<Rightarrow> u64 \<Rightarrow> sst_entry list result \<times> 'r"
    and entries_of :: "'r \<Rightarrow> sst_entry list result \<times> 'r"
  assumes rep_sorted: "rep r es \<Longrightarrow> sorted (map se_key es)"
    and get_rep: "rep r es \<Longrightarrow> \<exists>r'. get r k ts = (Inr (table_lookup es k ts), r') \<and> rep r' es"
    and scan_rep: "rep r es \<Longrightarrow> \<exists>r'. scan r pfx ts = (Inr (select_versions pfx ts None es), r') \<and> rep r' es"
    and entries_rep: "rep r es \<Longrightarrow> \<exists>r'. entries_of r = (Inr es, r') \<and> rep r' es"
begin

definition after :: "table_read \<Rightarrow> 'r \<Rightarrow> 'r" where
  "after op r = (case op of ReadKey k ts \<Rightarrow> snd (get r k ts) | ReadPrefix p ts \<Rightarrow> snd (scan r p ts) | ReadAll \<Rightarrow> snd (entries_of r))"

lemma rep_snd:
  assumes "rep r es"
  shows "rep (snd (get r k ts)) es" "rep (snd (scan r pfx ts)) es" "rep (snd (entries_of r)) es"
  using get_rep[OF assms, of k ts] scan_rep[OF assms, of pfx ts] entries_rep[OF assms] by auto

lemma rep_after: "rep r es \<Longrightarrow> rep (after op r) es"
  by (cases op) (simp_all add: after_def rep_snd)

lemma rep_fold_after: "rep r es \<Longrightarrow> rep (fold after ops r) es"
  by (induction ops arbitrary: r) (simp_all add: rep_after)

lemma answers:
  assumes "rep r es"
  shows "fst (get (fold after ops r) k ts) = Inr (table_lookup es k ts) \<and>
    fst (scan (fold after ops r) pfx ts) = Inr (select_versions pfx ts None es) \<and>
    fst (entries_of (fold after ops r)) = Inr es"
  using rep_fold_after[OF assms, of ops] get_rep[of "fold after ops r" es k ts] scan_rep[of "fold after ops r" es pfx ts]
    entries_rep[of "fold after ops r" es] by auto

text \<open>A scan returns the keys under the prefix in order, each with what its lookup returns.\<close>

lemma scan_agrees:
  assumes "rep r es" and "fst (scan r pfx ts) = Inr xs"
  shows "sorted_wrt (<) (map se_key xs) \<and>
    (x \<in> set xs \<longleftrightarrow> prefix pfx (se_key x) \<and> fst (get r (se_key x) ts) = Inr (Some x))"
proof -
  have xs: "xs = select_versions pfx ts None es" using assms scan_rep[of r es pfx ts] by auto
  have g: "fst (get r (se_key x) ts) = Inr (table_lookup es (se_key x) ts)" using get_rep[OF assms(1)] by (metis fst_conv)
  show ?thesis
    using select_versions_sorted[OF rep_sorted[OF assms(1)], of None pfx ts]
      select_versions_set[OF rep_sorted[OF assms(1)], of None x pfx ts] by (simp add: xs g)
qed

end

interpretation sst: sorted_table "reads_table C" "sst_get_at C" "sst_scan_prefix_at C" "sst_all_entries C" for C
proof unfold_locales
  show "sorted (map se_key es)" if "reads_table C r es" for r es using that by (simp add: reads_table_def)
qed (rule sst_get_at_table sst_scan_prefix_at_table sst_all_entries_table, assumption)+

text \<open>The reads of the code, as the effect they have on the reader's cache.\<close>

definition read_effect :: "compressors \<Rightarrow> table_read \<Rightarrow> sstable_reader \<Rightarrow> sstable_reader" where
  "read_effect C op r =
    (case op of ReadKey k ts \<Rightarrow> snd (sst_get_at C r k ts) | ReadPrefix p ts \<Rightarrow> snd (sst_scan_prefix_at C r p ts)
     | ReadAll \<Rightarrow> snd (sst_all_entries C r))"

lemma read_effect_after: "read_effect C = sst.after C"
  by (intro ext) (simp add: read_effect_def sst.after_def)

lemma same_key_versions:
  assumes "sorted_wrt (<) (map (\<lambda>e. InternalKey (se_key e) (se_sequence e)) es)"
  shows "table_lookup es k ts = Some e \<longleftrightarrow> e \<in> set es \<and> se_key e = k \<and> se_sequence e \<le> ts \<and>
    (\<forall>e' \<in> set es. se_key e' = k \<and> se_sequence e' \<le> ts \<longrightarrow> se_sequence e' \<le> se_sequence e)"
  using assms
proof (induction es)
  case (Cons x es)
  have lt: "se_sequence y < se_sequence x" if "y \<in> set es" "se_key y = se_key x" for y
    using Cons.prems that by (force simp: less_internal_key_def)
  have ih: "table_lookup es k ts = Some e \<longleftrightarrow> e \<in> set es \<and> se_key e = k \<and> se_sequence e \<le> ts \<and>
      (\<forall>e' \<in> set es. se_key e' = k \<and> se_sequence e' \<le> ts \<longrightarrow> se_sequence e' \<le> se_sequence e)"
    using Cons by simp
  show ?case
  proof (cases "se_key x = k \<and> se_sequence x \<le> ts")
    case True
    then show ?thesis using lt by (auto simp: table_lookup_Cons less_imp_le dest: leD)
  next
    case False
    then show ?thesis using ih by (auto simp: table_lookup_Cons)
  qed
qed (simp add: table_lookup_def)

lemma internal_sorted_keys:
  assumes "sorted_wrt (<) (map (\<lambda>e. InternalKey (se_key e) (se_sequence e)) es)"
  shows "sorted (map se_key es)"
  using assms by (induction es) (auto simp: less_internal_key_def less_imp_le)

section \<open>Properties\<close>

text \<open>
  A reader answers exactly from a list of entries: reading everything returns them, a point lookup returns the
  newest version of the key at or before the read timestamp, and a prefix scan returns the keys under the
  prefix in order, each with what its lookup returns.
\<close>

definition answers_exactly :: "compressors \<Rightarrow> sstable_reader \<Rightarrow> sst_entry list \<Rightarrow> bool" where
  "answers_exactly C r es \<longleftrightarrow>
    fst (sst_all_entries C r) = Inr es \<and>
    (\<forall>k ts. \<exists>found. fst (sst_get_at C r k ts) = Inr found \<and>
      (\<forall>e. found = Some e \<longleftrightarrow> e \<in> set es \<and> se_key e = k \<and> se_sequence e \<le> ts \<and>
        (\<forall>e' \<in> set es. se_key e' = k \<and> se_sequence e' \<le> ts \<longrightarrow> se_sequence e' \<le> se_sequence e))) \<and>
    (\<forall>pfx ts. \<exists>xs. fst (sst_scan_prefix_at C r pfx ts) = Inr xs \<and> sorted_wrt (<) (map se_key xs) \<and>
      (\<forall>x. x \<in> set xs \<longleftrightarrow> prefix pfx (se_key x) \<and> fst (sst_get_at C r (se_key x) ts) = Inr (Some x)))"

lemma answers_exactly_table:
  assumes R: "reads_table C r es" and srt: "sorted_wrt (<) (map (\<lambda>e. InternalKey (se_key e) (se_sequence e)) es)"
  shows "answers_exactly C r es"
proof -
  have A: "fst (sst_get_at C r k ts) = Inr (table_lookup es k ts)"
    "fst (sst_scan_prefix_at C r pfx ts) = Inr (select_versions pfx ts None es)"
    "fst (sst_all_entries C r) = Inr es" for k ts pfx
    using sst.answers[OF R, of "[]" k ts pfx] by simp_all
  show ?thesis unfolding answers_exactly_def
  proof (intro conjI allI)
    fix k ts
    show "\<exists>found. fst (sst_get_at C r k ts) = Inr found \<and>
      (\<forall>e. found = Some e \<longleftrightarrow> e \<in> set es \<and> se_key e = k \<and> se_sequence e \<le> ts \<and>
        (\<forall>e' \<in> set es. se_key e' = k \<and> se_sequence e' \<le> ts \<longrightarrow> se_sequence e' \<le> se_sequence e))"
      by (intro exI[of _ "table_lookup es k ts"] conjI allI A(1) same_key_versions[OF srt])
  next
    fix pfx ts
    show "\<exists>xs. fst (sst_scan_prefix_at C r pfx ts) = Inr xs \<and> sorted_wrt (<) (map se_key xs) \<and>
      (\<forall>x. x \<in> set xs \<longleftrightarrow> prefix pfx (se_key x) \<and> fst (sst_get_at C r (se_key x) ts) = Inr (Some x))"
      using sst.scan_agrees[OF R A(2)[of pfx ts]]
      by (intro exI[of _ "select_versions pfx ts None es"] conjI allI A(2)) simp_all
  qed (rule A(3))
qed

text \<open>
  C18. A table file is the list of its entries. A multi-version table built from entries in the order
  of their internal keys, below the size limits of the format, is written without error, and opens with any cache
  capacity. From then on, whatever was read before, the reader answers exactly from those entries.
\<close>

theorem sst_table_reads_exact:
  assumes "compressors_ok C" and "mvcc opts" and "es \<noteq> []" and "table_fits es"
    and "sorted_wrt (<) (map (\<lambda>e. InternalKey (se_key e) (se_sequence e)) es)"
    and "length es * unat (bloom_bits_per_key opts) < 2 ^ 32"
  shows "\<exists>bytes r. builder_finish C (build_table C opts es) = Some (Inr bytes) \<and> open_with_cache bytes cap = Inr r \<and>
    (\<forall>reads. answers_exactly C (fold (read_effect C) reads r) es)"
proof -
  have amb: "\<not> footer_ambiguous opts (length es)"
    using assms(2) by (simp add: footer_ambiguous_def format_version_of_def sst_consts)
  obtain bytes r where b: "builder_finish C (build_table C opts es) = Some (Inr bytes)" "open_with_cache bytes cap = Inr r"
    "reads_table C r es"
    using built_table_opens[OF assms(1,4,3) internal_sorted_keys[OF assms(5)] disjI1[OF assms(2)] assms(6) amb] by blast
  have "answers_exactly C (fold (read_effect C) reads r) es" for reads
    unfolding read_effect_after by (rule answers_exactly_table[OF sst.rep_fold_after[OF b(3)] assms(5)])
  then show ?thesis using b(1,2) by blast
qed

definition stored_only :: compressors where
  "stored_only = \<lparr>lz4_compress = (\<lambda>b. b), lz4_decompress = Inr, zstd_encode = (\<lambda>_. None), zstd_decode = (\<lambda>_. Inl [])\<rparr>"

lemma stored_only_ok: "compressors_ok stored_only"
  by (simp add: compressors_ok_def stored_only_def)

definition example_entries :: "sst_entry list" where
  "example_entries =
    [\<lparr>se_key = [1], se_value = Some [7], se_sequence = 9\<rparr>, \<lparr>se_key = [1], se_value = None, se_sequence = 4\<rparr>,
     \<lparr>se_key = [2], se_value = Some [], se_sequence = 5\<rparr>]"

lemma example_entries_ok:
  "table_fits example_entries" "example_entries \<noteq> []"
  "sorted_wrt (<) (map (\<lambda>e. InternalKey (se_key e) (se_sequence e)) example_entries)"
  "length example_entries * unat (bloom_bits_per_key default_build_options) < 2 ^ 32"
  by (simp_all add: example_entries_def table_fits_def entry_weight_def value_bytes_def less_internal_key_def
      default_build_options_def)

theorem sst_table_reads_exact_witness:
  "\<exists>bytes r. builder_finish stored_only (build_table stored_only (default_build_options\<lparr>mvcc := True\<rparr>) example_entries) =
      Some (Inr bytes) \<and> open_with_cache bytes 2 = Inr r \<and>
    fst (sst_get_at stored_only (read_effect stored_only ReadAll r) [1] 8) =
      Inr (Some \<lparr>se_key = [1], se_value = None, se_sequence = 4\<rparr>)"
proof -
  let ?e = "\<lparr>se_key = [1], se_value = None, se_sequence = 4\<rparr> :: sst_entry"
  have bl: "length example_entries * unat (bloom_bits_per_key (default_build_options\<lparr>mvcc := True\<rparr>)) < 2 ^ 32"
    using example_entries_ok(4) by simp
  have mv: "mvcc (default_build_options\<lparr>mvcc := True\<rparr>)" by simp
  from sst_table_reads_exact[OF stored_only_ok mv example_entries_ok(2,1,3) bl, of 2]
  obtain bytes r where b: "builder_finish stored_only (build_table stored_only (default_build_options\<lparr>mvcc := True\<rparr>) example_entries) =
      Some (Inr bytes)" "open_with_cache bytes 2 = Inr r"
    and R: "\<forall>reads. answers_exactly stored_only (fold (read_effect stored_only) reads r) example_entries" by blast
  have "answers_exactly stored_only (read_effect stored_only ReadAll r) example_entries"
    using R[THEN spec, of "[ReadAll]"] unfolding fold_simps .
  then obtain found where f: "fst (sst_get_at stored_only (read_effect stored_only ReadAll r) [1] 8) = Inr found"
    "found = Some ?e \<longleftrightarrow> ?e \<in> set example_entries \<and> se_key ?e = [1] \<and> se_sequence ?e \<le> 8 \<and>
      (\<forall>e' \<in> set example_entries. se_key e' = [1] \<and> se_sequence e' \<le> 8 \<longrightarrow> se_sequence e' \<le> se_sequence ?e)"
    unfolding answers_exactly_def by (elim conjE) (drule spec[of _ "[1]"], drule spec[of _ 8], elim exE conjE, drule spec[of _ ?e], assumption)
  have "found = Some ?e" unfolding f(2) by (simp add: example_entries_def)
  then show ?thesis using b f(1) by blast
qed

text \<open>
  C19. The formats with one version of each key, versions 2 and 3: a table of entries with ascending keys
  opens and reads back, with the entry count and the range of sequence numbers in its footer, unless it is
  a version 2 table with one of the entry counts that the footer cannot represent.
\<close>

theorem sst_single_version_roundtrip:
  assumes "compressors_ok C" and "es \<noteq> []" and "table_fits es" and "sorted_wrt (<) (map se_key es)"
    and "length es * unat (bloom_bits_per_key opts) < 2 ^ 32" and "\<not> footer_ambiguous opts (length es)"
  shows "\<exists>bytes r. builder_finish C (build_table C opts es) = Some (Inr bytes) \<and> open_with_cache bytes cap = Inr r \<and>
    fst (sst_all_entries C r) = Inr es \<and> unat (ft_entry_count (rd_footer r)) = length es \<and>
    ft_min_seq (rd_footer r) = Min (se_sequence ` set es) \<and> ft_max_seq (rd_footer r) = Max (se_sequence ` set es) \<and>
    (\<forall>k ts. fst (sst_get_at C r k ts) = Inr (find (\<lambda>e. se_key e = k \<and> se_sequence e \<le> ts) es))"
proof -
  have s: "sorted (map se_key es)" "mvcc opts \<or> distinct (map se_key es)"
    using assms(4) by (simp_all add: strict_sorted_iff)
  obtain bytes r where b: "builder_finish C (build_table C opts es) = Some (Inr bytes)" "open_with_cache bytes cap = Inr r"
    "reads_table C r es" "unat (ft_entry_count (rd_footer r)) = length es"
    "ft_min_seq (rd_footer r) = Min (se_sequence ` set es)" "ft_max_seq (rd_footer r) = Max (se_sequence ` set es)"
    using built_table_opens[OF assms(1,3,2) s assms(5,6)] by blast
  then show ?thesis using sst.answers[OF b(3), of "[]"] by (auto simp: table_lookup_def)
qed

theorem sst_single_version_roundtrip_witness:
  "\<exists>bytes r. builder_finish stored_only (build_table stored_only default_build_options (drop 1 example_entries)) =
      Some (Inr bytes) \<and> open_with_cache bytes 0 = Inr r \<and>
    fst (sst_all_entries stored_only r) = Inr (drop 1 example_entries)"
proof -
  have "drop 1 example_entries \<noteq> []" "table_fits (drop 1 example_entries)" "sorted_wrt (<) (map se_key (drop 1 example_entries))"
    "length (drop 1 example_entries) * unat (bloom_bits_per_key default_build_options) < 2 ^ 32"
    "\<not> footer_ambiguous default_build_options (length (drop 1 example_entries))"
    by (simp_all add: example_entries_def table_fits_def entry_weight_def value_bytes_def default_build_options_def
        footer_ambiguous_def)
  from sst_single_version_roundtrip[OF stored_only_ok this, of 0] show ?thesis by blast
qed

end
