(* ===== verification/Sst_Cache.thy ===== *)
theory Sst_Cache
  imports Sst_Table
begin

text \<open>
  The block cache of \<^verbatim>\<open>src/crates/kaya-lsm/src/block_cache.rs\<close> is a least-recently-used cache: after any sequence of
  lookups and insertions it holds the most recently used blocks, as many as its capacity allows.
\<close>

section \<open>The most recently used elements of a list\<close>

text \<open>The last distinct elements of a list of uses, the one used longest ago first.\<close>

definition recent :: "nat \<Rightarrow> 'a list \<Rightarrow> 'a list" where
  "recent cap us = drop (length (remdups us) - cap) (remdups us)"

lemma remdups_snoc: "remdups (us @ [x]) = filter (\<lambda>y. y \<noteq> x) (remdups us) @ [x]"
  by (induction us) auto

lemma distinct_recent: "distinct (recent cap us)"
  by (simp add: recent_def)

lemma recent_use:
  assumes "0 < cap"
  shows "recent cap (us @ [x]) =
    (if x \<in> set (recent cap us) then remove1 x (recent cap us)
     else if cap \<le> length (recent cap us) then tl (recent cap us) else recent cap us) @ [x]"
proof -
  define r where "r = remdups us"
  define a where "a = take (length r - cap) r"
  define b where "b = drop (length r - cap) r"
  have r: "r = a @ b" "distinct r" by (simp_all add: a_def b_def r_def)
  have lb: "length b = min cap (length r)" by (simp add: b_def)
  have b: "recent cap us = b" by (simp add: recent_def b_def r_def)
  let ?f = "filter (\<lambda>y. y \<noteq> x)"
  have s: "recent cap (us @ [x]) = drop (length (?f r) + 1 - cap) (?f r) @ [x]"
    using assms by (simp add: recent_def remdups_snoc r_def)
  have n: "?f zs = zs" if "x \<notin> set zs" for zs :: "'a list" using that by (induction zs) auto
  have "?f zs = removeAll x zs" for zs :: "'a list" by (induction zs) auto
  then have rm: "?f b = remove1 x b" using r by (simp add: distinct_remove1_removeAll)
  show ?thesis
  proof (cases "x \<in> set b")
    case True
    then have fr: "?f r = a @ remove1 x b" using r n[of a] rm by auto
    have "length (remove1 x b) = length b - 1" "0 < length b" using True by (auto simp: length_remove1)
    moreover have "length a = length r - cap" "length r = length a + length b" by (simp_all add: a_def b_def)
    ultimately have "length (?f r) + 1 - cap = length a" unfolding fr length_append by arith
    then have "drop (length (?f r) + 1 - cap) (?f r) = remove1 x b" by (simp add: fr)
    then show ?thesis using True s b by simp
  next
    case False
    show ?thesis
    proof (cases "cap \<le> length r")
      case True
      then have l: "length b = cap" using lb by simp
      have fb: "?f b = b" using False by (rule n)
      have "drop (length (?f r) + 1 - cap) (?f r) = tl b"
        using r(1) l fb assms by (simp add: drop_Suc)
      then show ?thesis using False s b l by simp
    next
      case l: False
      then have "a = []" by (simp add: a_def)
      then have "r = b" "?f r = b" using r False n by simp_all
      moreover from this have "\<not> cap \<le> length b" using l by simp
      ultimately show ?thesis using False s b by simp
    qed
  qed
qed

section \<open>Sequences of cache operations\<close>

datatype cache_op = CacheGet u64 | CacheInsert u64 "sst_entry list"

fun cache_step :: "cache_op \<Rightarrow> block_cache \<Rightarrow> block_cache" where
  "cache_step (CacheGet off) c = snd (bc_get off c)"
| "cache_step (CacheInsert off es) c = bc_insert off es c"

fun cache_run :: "cache_op list \<Rightarrow> block_cache \<Rightarrow> block_cache" where
  "cache_run [] c = c"
| "cache_run (x # xs) c = cache_run xs (cache_step x c)"

text \<open>A block is used when it is inserted and when a lookup finds it.\<close>

fun cache_use :: "cache_op \<Rightarrow> block_cache \<Rightarrow> u64 list" where
  "cache_use (CacheGet off) c = (if fst (bc_get off c) = None then [] else [off])"
| "cache_use (CacheInsert off es) c = [off]"

fun cache_uses :: "cache_op list \<Rightarrow> block_cache \<Rightarrow> u64 list" where
  "cache_uses [] c = []"
| "cache_uses (x # xs) c = cache_use x c @ cache_uses xs (cache_step x c)"

text \<open>The contents last inserted for every block.\<close>

fun inserted :: "cache_op list \<Rightarrow> (u64 \<Rightarrow> sst_entry list option) \<Rightarrow> u64 \<Rightarrow> sst_entry list option" where
  "inserted [] f = f"
| "inserted (CacheGet off # xs) f = inserted xs f"
| "inserted (CacheInsert off es # xs) f = inserted xs (f(off \<mapsto> es))"

definition lru_state :: "nat \<Rightarrow> u64 list \<Rightarrow> (u64 \<Rightarrow> sst_entry list option) \<Rightarrow> block_cache \<Rightarrow> bool" where
  "lru_state cap us f c \<longleftrightarrow> bc_inv c \<and> bc_capacity c = cap \<and> bc_order c = recent cap us \<and>
    (\<forall>off es. bt_get off (bc_map c) = Some es \<longrightarrow> f off = Some es)"


lemma bc_order_use:
  assumes "bc_inv c"
  shows "bc_order (snd (bc_get off c)) =
      (if bt_contains off (bc_map c) then remove1 off (bc_order c) @ [off] else bc_order c)"
    and "bc_order (bc_insert off es c) =
      (if off \<in> set (bc_order c) then remove1 off (bc_order c)
       else if bc_capacity c \<le> length (bc_order c) then tl (bc_order c) else bc_order c) @ [off]"
proof -
  have l: "length (bc_map c) = length (bc_order c)"
    using assms by (metis bc_inv_def bt_inv_def distinct_card length_map list.set_map strict_sorted_iff)
  have k: "bt_contains off (bc_map c) \<longleftrightarrow> off \<in> set (bc_order c)" "0 < bc_capacity c"
    using assms by (simp_all add: bc_inv_def bt_contains_iff)
  show "bc_order (bc_insert off es c) =
      (if off \<in> set (bc_order c) then remove1 off (bc_order c)
       else if bc_capacity c \<le> length (bc_order c) then tl (bc_order c) else bc_order c) @ [off]"
    using k l by (simp add: bc_insert_def Let_def split: list.split)
qed (simp add: bc_get_def Let_def)

lemma bc_insert_capacity [simp]: "bc_capacity (bc_insert off es c) = bc_capacity c"
  by (simp add: bc_insert_def Let_def split: list.split)

lemma bc_insert_found: "bc_inv c \<Longrightarrow> bt_get off (bc_map (bc_insert off es c)) = Some es"
  by (auto simp: bc_inv_def bc_insert_def Let_def split: list.splits)

lemma lru_state_step:
  assumes "lru_state cap us f c"
  shows "lru_state cap (us @ cache_use x c) (inserted [x] f) (cache_step x c)"
proof -
  have c: "bc_inv c" "bc_capacity c = cap" "bc_order c = recent cap us" "0 < cap"
    and f: "bt_get off (bc_map c) = Some es \<Longrightarrow> f off = Some es" for off es
    using assms by (simp_all add: lru_state_def) (simp add: bc_inv_def)
  show ?thesis
  proof (cases x)
    case (CacheGet off)
    have h: "bt_contains off (bc_map c) \<longleftrightarrow> off \<in> set (recent cap us)" using c by (simp add: bc_inv_def bt_contains_iff)
    have "bc_order (snd (bc_get off c)) = recent cap (us @ cache_use x c)"
      using bc_order_use(1)[OF c(1), of off] c h recent_use[OF c(4), of us off]
      by (cases "bt_get off (bc_map c)") (simp_all add: CacheGet bc_get_result bt_contains_def)
    then show ?thesis using c f bc_inv_get[OF c(1)] by (simp add: lru_state_def CacheGet)
  next
    case (CacheInsert off es)
    have "bc_order (bc_insert off es c) = recent cap (us @ [off])"
      using bc_order_use(2)[OF c(1), of off es] c recent_use[OF c(4), of us off] by simp
    then show ?thesis using c f bc_inv_insert[OF c(1)] bc_insert_get[OF c(1)] bc_insert_found[OF c(1)]
      by (fastforce simp: lru_state_def CacheInsert)
  qed
qed

lemma inserted_Cons: "inserted (x # xs) f = inserted xs (inserted [x] f)"
  by (cases x) simp_all

lemma lru_state_run:
  "lru_state cap us f c \<Longrightarrow> lru_state cap (us @ cache_uses xs c) (inserted xs f) (cache_run xs c)"
proof (induction xs arbitrary: us f c)
  case (Cons x xs)
  show ?case using Cons.IH[OF lru_state_step[OF Cons.prems, of x]] by (simp add: inserted_Cons[of x xs])
qed simp

text \<open>
  C21. The block cache evicts the least recently used block. After any sequence of lookups and insertions on a new cache of
  positive capacity, its eviction order lists exactly the most recently used blocks, as many as the capacity allows, the one
  used longest ago first, where a block is used when it is inserted and when a lookup finds it. A lookup finds exactly these
  blocks, with the contents last inserted for them, and the capacity is never exceeded.
\<close>

theorem block_cache_lru:
  assumes "0 < cap"
  shows "bc_order (cache_run ops (block_cache_new cap)) = recent cap (cache_uses ops (block_cache_new cap)) \<and>
    fst (bc_get off (cache_run ops (block_cache_new cap))) =
      (if off \<in> set (recent cap (cache_uses ops (block_cache_new cap))) then inserted ops Map.empty off else None) \<and>
    length (bc_map (cache_run ops (block_cache_new cap))) \<le> cap"
proof -
  let ?c = "cache_run ops (block_cache_new cap)"
  have "lru_state cap [] Map.empty (block_cache_new cap)"
    using bc_inv_new[OF assms] by (simp add: lru_state_def block_cache_new_def recent_def bt_empty_def)
  from lru_state_run[OF this, of ops]
  have r: "bc_inv ?c" "bc_capacity ?c = cap" "bc_order ?c = recent cap (cache_uses ops (block_cache_new cap))"
    and f: "bt_get k (bc_map ?c) = Some es \<Longrightarrow> inserted ops Map.empty k = Some es" for k es
    by (simp_all add: lru_state_def)
  have "bt_contains off (bc_map ?c) \<longleftrightarrow> off \<in> set (bc_order ?c)" using r(1) by (simp add: bc_inv_def bt_contains_iff)
  then have "bt_get off (bc_map ?c) = (if off \<in> set (bc_order ?c) then inserted ops Map.empty off else None)"
    using f[of off] by (cases "bt_get off (bc_map ?c)") (simp_all add: bt_contains_def)
  then show ?thesis using r by (simp add: bc_get_result bc_inv_def)
qed

theorem block_cache_lru_witness:
  "(let ops = [CacheInsert 1 [], CacheInsert 2 [], CacheGet 1, CacheInsert 3 []]
    in bc_order (cache_run ops (block_cache_new 2)) = [1, 3] \<and>
      fst (bc_get 2 (cache_run ops (block_cache_new 2))) = None \<and>
      fst (bc_get 1 (cache_run ops (block_cache_new 2))) = Some [])"
proof -
  let ?ops = "[CacheInsert 1 [], CacheInsert 2 [], CacheGet 1, CacheInsert 3 []]"
  have "recent 2 (cache_uses ?ops (block_cache_new 2)) = [1, 3]" "inserted ?ops Map.empty 1 = Some []" by code_simp+
  then show ?thesis using block_cache_lru[of 2 ?ops 2] block_cache_lru[of 2 ?ops 1] by (simp only: Let_def) simp
qed

end
