(* ===== verification/Raft_Command.thy ===== *)
theory Raft_Command
  imports Kaya_Core
begin

text \<open>
  The commands of the replicated log and their wire form, \<^verbatim>\<open>src/crates/kaya-raft/src/command.rs\<close>, and the
  payload of a combined snapshot, \<^verbatim>\<open>src/crates/kaya-raft/src/lib.rs\<close>. Both decode to what was
  encoded; the decoders read from a cursor, the rest of the input.
\<close>

section \<open>Cursors\<close>

type_synonym 'a cursor = "bytes \<Rightarrow> string + 'a \<times> bytes"

definition cur_bind :: "'a cursor \<Rightarrow> ('a \<Rightarrow> 'b cursor) \<Rightarrow> 'b cursor" where
  "cur_bind p f cur = res_bind (p cur) (\<lambda>(x, cur'). f x cur')"

definition cur_return :: "'a \<Rightarrow> 'a cursor" where
  "cur_return x cur = Inr (x, cur)"

definition cur_fail :: "string \<Rightarrow> 'a cursor" where
  "cur_fail e cur = Inl e"

definition next_u8 :: "u8 cursor" where
  "next_u8 cur = (case cur of [] \<Rightarrow> Inl ''unexpected EOF reading u8'' | v # rest \<Rightarrow> Inr (v, rest))"

definition next_u64 :: "u64 cursor" where
  "next_u64 cur =
    (if length cur < 8 then Inl ''unexpected EOF reading u64'' else Inr (from_le (take 8 cur), drop 8 cur))"

definition next_u32 :: "u32 cursor" where
  "next_u32 cur =
    (if length cur < 4 then Inl (''unexpected EOF reading u32 (have '' @ fmt_dec (length cur) @ '' bytes)'')
     else Inr (from_le (take 4 cur), drop 4 cur))"

definition next_bytes :: "bytes cursor" where
  "next_bytes = cur_bind next_u32 (\<lambda>n cur.
    if length cur < unat n
    then Inl (''truncated data: need '' @ fmt_dec (unat n) @ '' bytes, have '' @ fmt_dec (length cur))
    else Inr (take (unat n) cur, drop (unat n) cur))"

text \<open>The text of the standard library's UTF-8 error is left out of the message.\<close>

definition next_string :: "string cursor" where
  "next_string = cur_bind next_bytes (\<lambda>b.
    case from_utf8 b of Some s \<Rightarrow> cur_return s | None \<Rightarrow> cur_fail ''invalid utf-8 in member address: '')"

fun cur_repeat :: "nat \<Rightarrow> 'a cursor \<Rightarrow> 'a list cursor" where
  "cur_repeat 0 p = cur_return []"
| "cur_repeat (Suc n) p = cur_bind p (\<lambda>x. cur_bind (cur_repeat n p) (\<lambda>xs. cur_return (x # xs)))"

lemma cur_bind_Inr: "p cur = Inr (x, cur') \<Longrightarrow> cur_bind p f cur = f x cur'"
  by (simp add: cur_bind_def)

section \<open>Commands\<close>

datatype config_change_phase = Joint | Final

fun phase_byte :: "config_change_phase \<Rightarrow> u8" where
  "phase_byte Joint = 1"
| "phase_byte Final = 2"

record cluster_member =
  cm_id :: u64
  raft_addr :: string
  client_addr :: string
  is_learner :: bool

definition voter_ids :: "cluster_member list \<Rightarrow> u64 list" where
  "voter_ids members = map cm_id (filter (\<lambda>m. \<not> is_learner m) members)"

definition member_voter :: "u64 \<Rightarrow> string \<Rightarrow> string \<Rightarrow> cluster_member" where
  "member_voter i ra ca = \<lparr>cm_id = i, raft_addr = ra, client_addr = ca, is_learner = False\<rparr>"

definition member_learner :: "u64 \<Rightarrow> string \<Rightarrow> string \<Rightarrow> cluster_member" where
  "member_learner i ra ca = \<lparr>cm_id = i, raft_addr = ra, client_addr = ca, is_learner = True\<rparr>"

type_synonym mutation = "bytes \<times> bytes option"

datatype raft_command =
    CmdPut bytes bytes
  | CmdDelete bytes
  | CmdConfigChange config_change_phase "cluster_member list"
  | CmdTxnCommit u64 "mutation list"
  | CmdTxnPrepare u64 u64 "mutation list"
  | CmdTxnCommit2pc u64
  | CmdTxnAbort2pc u64
  | CmdRangeMeta u64 bytes
  | CmdTxnDecision u64 bool

definition push_bytes :: "bytes \<Rightarrow> bytes" where
  "push_bytes b = u32_le (word_of_nat (length b)) @ b"

definition push_string :: "string \<Rightarrow> bytes" where
  "push_string s = push_bytes (as_bytes s)"

definition push_mutation :: "mutation \<Rightarrow> bytes" where
  "push_mutation m = (case m of (key, value) \<Rightarrow>
    push_bytes key @ (case value of Some v \<Rightarrow> 1 # push_bytes v | None \<Rightarrow> [0]))"

definition push_mutations :: "mutation list \<Rightarrow> bytes" where
  "push_mutations ms = u32_le (word_of_nat (length ms)) @ concat (map push_mutation ms)"

definition push_member :: "cluster_member \<Rightarrow> bytes" where
  "push_member m =
    u64_le (cm_id m) @ push_string (raft_addr m) @ push_string (client_addr m) @ [if is_learner m then 1 else 0]"

fun command_encode :: "raft_command \<Rightarrow> bytes" where
  "command_encode (CmdPut key v) = 1 # push_bytes key @ push_bytes v"
| "command_encode (CmdDelete key) = 2 # push_bytes key"
| "command_encode (CmdConfigChange phase members) =
    3 # phase_byte phase # u32_le (word_of_nat (length members)) @ concat (map push_member members)"
| "command_encode (CmdTxnCommit txn ms) = 4 # u64_le txn @ push_mutations ms"
| "command_encode (CmdTxnPrepare txn grp ms) = 5 # u64_le txn @ u64_le grp @ push_mutations ms"
| "command_encode (CmdTxnCommit2pc txn) = 6 # u64_le txn"
| "command_encode (CmdTxnAbort2pc txn) = 7 # u64_le txn"
| "command_encode (CmdRangeMeta epoch snap) = 8 # u64_le epoch @ push_bytes snap"
| "command_encode (CmdTxnDecision txn commit) = 9 # u64_le txn @ [if commit then 1 else 0]"

definition next_mutation :: "string \<Rightarrow> mutation cursor" where
  "next_mutation label =
    cur_bind next_bytes (\<lambda>key.
    cur_bind next_u8 (\<lambda>has_value.
      if has_value = 0 then cur_return (key, None)
      else if has_value = 1 then cur_bind next_bytes (\<lambda>v. cur_return (key, Some v))
      else cur_fail (''invalid '' @ label @ '' has_value flag: '' @ fmt_dec (unat has_value) @ '' (expected 0 or 1)'')))"

definition next_mutations :: "string \<Rightarrow> mutation list cursor" where
  "next_mutations label = cur_bind next_u32 (\<lambda>count. cur_repeat (unat count) (next_mutation label))"

definition next_member :: "bool \<Rightarrow> cluster_member cursor" where
  "next_member with_learner_flag =
    cur_bind next_u64 (\<lambda>i.
    cur_bind next_string (\<lambda>ra.
    cur_bind next_string (\<lambda>ca.
    cur_bind (if with_learner_flag then cur_bind next_u8 (\<lambda>f. cur_return (f \<noteq> 0)) else cur_return False) (\<lambda>l.
      cur_return \<lparr>cm_id = i, raft_addr = ra, client_addr = ca, is_learner = l\<rparr>))))"

definition decode_members_with_addrs :: "bytes \<Rightarrow> nat \<Rightarrow> bool \<Rightarrow> string + cluster_member list" where
  "decode_members_with_addrs data count with_learner_flag =
    res_bind (cur_repeat count (next_member with_learner_flag) data) (\<lambda>(members, cur).
      if cur \<noteq> [] then Inl ''trailing bytes after members'' else Inr members)"

definition legacy_member :: "cluster_member cursor" where
  "legacy_member = cur_bind next_u64 (\<lambda>i. cur_return (member_voter i [] []))"

definition decode_config_change :: "bytes \<Rightarrow> string + raft_command" where
  "decode_config_change cur0 =
    res_bind (next_u8 cur0) (\<lambda>(pb, cur1).
    res_bind (if pb = 1 then Inr Joint else if pb = 2 then Inr Final
              else Inl (''unknown ConfigChangePhase: '' @ fmt_dec (unat pb))) (\<lambda>phase.
    res_bind (next_u32 cur1) (\<lambda>(count, cur).
      if length cur = unat count * 8
      then res_bind (cur_repeat (unat count) legacy_member cur) (\<lambda>(members, _). Inr (CmdConfigChange phase members))
      else
        (case decode_members_with_addrs cur (unat count) True of
           Inr members \<Rightarrow> Inr (CmdConfigChange phase members)
         | Inl _ \<Rightarrow>
             res_bind (decode_members_with_addrs cur (unat count) False) (\<lambda>members.
               Inr (CmdConfigChange phase members))))))"

definition finish :: "'a cursor \<Rightarrow> bytes \<Rightarrow> string + 'a" where
  "finish p cur = res_bind (p cur) (\<lambda>(x, _). Inr x)"

definition command_decode :: "bytes \<Rightarrow> string + raft_command" where
  "command_decode data =
    res_bind (next_u8 data) (\<lambda>(t, cur).
      if t = 1 then finish (cur_bind next_bytes (\<lambda>key. cur_bind next_bytes (\<lambda>v. cur_return (CmdPut key v)))) cur
      else if t = 2 then finish (cur_bind next_bytes (\<lambda>key. cur_return (CmdDelete key))) cur
      else if t = 3 then decode_config_change cur
      else if t = 4 then
        finish (cur_bind next_u64 (\<lambda>txn. cur_bind (next_mutations ''TxnCommit'') (\<lambda>ms. cur_return (CmdTxnCommit txn ms)))) cur
      else if t = 5 then
        finish (cur_bind next_u64 (\<lambda>txn. cur_bind next_u64 (\<lambda>grp.
          cur_bind (next_mutations ''TxnPrepare'') (\<lambda>ms. cur_return (CmdTxnPrepare txn grp ms))))) cur
      else if t = 6 then finish (cur_bind next_u64 (\<lambda>txn. cur_return (CmdTxnCommit2pc txn))) cur
      else if t = 7 then finish (cur_bind next_u64 (\<lambda>txn. cur_return (CmdTxnAbort2pc txn))) cur
      else if t = 8 then
        finish (cur_bind next_u64 (\<lambda>epoch. cur_bind next_bytes (\<lambda>snap. cur_return (CmdRangeMeta epoch snap)))) cur
      else if t = 9 then
        finish (cur_bind next_u64 (\<lambda>txn. cur_bind next_u8 (\<lambda>c. cur_return (CmdTxnDecision txn (c \<noteq> 0))))) cur
      else Inl (''unknown RaftCommand type: '' @ fmt_dec (unat t)))"

section \<open>Combined snapshots\<close>

definition build_snapshot_payload_v2 :: "bytes \<Rightarrow> cluster_member list \<Rightarrow> bytes \<Rightarrow> bytes" where
  "build_snapshot_payload_v2 engine_data members range_table =
    u32_le 2 @ push_bytes engine_data @ u32_le (word_of_nat (length members))
    @ concat (map push_member members) @ push_bytes range_table"

definition build_snapshot_payload :: "bytes \<Rightarrow> cluster_member list \<Rightarrow> bytes" where
  "build_snapshot_payload engine_data members = build_snapshot_payload_v2 engine_data members []"

definition take_len_prefixed :: "string cursor" where
  "take_len_prefixed cur =
    (if length cur < 4 then Inl ''bad len''
     else
       let n = unat (from_le (take 4 cur) :: u32); cur1 = drop 4 cur
       in if length cur1 < n then Inl ''truncated''
          else (case from_utf8 (take n cur1) of None \<Rightarrow> Inl ''invalid utf-8'' | Some s \<Rightarrow> Inr (s, drop n cur1)))"

definition snapshot_member :: "bool \<Rightarrow> cluster_member cursor" where
  "snapshot_member with_learner_flag cur =
    (if length cur < 8 then Inl ''truncated member id''
     else
       cur_bind take_len_prefixed (\<lambda>ra.
       cur_bind take_len_prefixed (\<lambda>ca cur2.
         if with_learner_flag
         then (case cur2 of
                 [] \<Rightarrow> Inl ''missing learner flag''
               | flag # cur3 \<Rightarrow>
                   Inr (\<lparr>cm_id = from_le (take 8 cur), raft_addr = ra, client_addr = ca, is_learner = flag \<noteq> 0\<rparr>, cur3))
         else Inr (\<lparr>cm_id = from_le (take 8 cur), raft_addr = ra, client_addr = ca, is_learner = False\<rparr>, cur2)))
       (drop 8 cur))"

definition decode_snapshot_members :: "bytes \<Rightarrow> nat \<Rightarrow> bool \<Rightarrow> string + cluster_member list \<times> bytes" where
  "decode_snapshot_members data mcnt with_learner_flag = cur_repeat mcnt (snapshot_member with_learner_flag) data"

definition parse_snapshot_payload_v2 :: "bytes \<Rightarrow> string + bytes \<times> cluster_member list \<times> bytes" where
  "parse_snapshot_payload_v2 data =
    (if data = [] then Inr ([], [], [])
     else if length data < 4 then Inr (data, [], [])
     else
       let ver = from_le (take 4 data) :: u32; cur = drop 4 data
       in if ver \<noteq> 1 \<and> ver \<noteq> 2 then Inr (data, [], [])
          else if length cur < 4 then Inl ''bad engine len''
          else
            let elen = unat (from_le (take 4 cur) :: u32); cur1 = drop 4 cur
            in if length cur1 < elen then Inl ''truncated engine''
               else
                 let engine = take elen cur1; cur2 = drop elen cur1
                 in if length cur2 < 4 then Inr (engine, [], [])
                    else
                      let mcnt = unat (from_le (take 4 cur2) :: u32); cur3 = drop 4 cur2;
                          (members, rest) =
                            (case decode_snapshot_members cur3 mcnt True of
                               Inr mr \<Rightarrow> mr
                             | Inl _ \<Rightarrow>
                                 (case decode_snapshot_members cur3 mcnt False of Inr mr \<Rightarrow> mr | Inl _ \<Rightarrow> ([], cur3)))
                      in if ver = 1 then Inr (engine, members, [])
                         else if length rest < 4 then Inr (engine, members, [])
                         else
                           let rlen = unat (from_le (take 4 rest) :: u32); rest1 = drop 4 rest
                           in if length rest1 < rlen then Inl ''truncated range table in snapshot''
                              else Inr (engine, members, take rlen rest1))"

definition parse_snapshot_payload :: "bytes \<Rightarrow> string + bytes \<times> cluster_member list" where
  "parse_snapshot_payload data = res_bind (parse_snapshot_payload_v2 data) (\<lambda>(engine, members, _). Inr (engine, members))"

section \<open>Round trips\<close>

named_theorems cursor_simps

lemma cur_return_simp [cursor_simps]: "cur_return x cur = Inr (x, cur)"
  by (simp add: cur_return_def)

lemma next_u8_Cons [cursor_simps]: "next_u8 (v # rest) = Inr (v, rest)"
  by (simp add: next_u8_def)

lemma next_u64_le [cursor_simps]: "next_u64 (u64_le w @ rest) = Inr (w, rest)"
  by (simp add: next_u64_def)

lemma next_u32_le [cursor_simps]: "next_u32 (u32_le w @ rest) = Inr (w, rest)"
  by (simp add: next_u32_def)

lemma unat_len32_nat: "n < 2 ^ 32 \<Longrightarrow> unat (word_of_nat n :: u32) = n"
  by (simp add: unat_of_nat)

lemma next_bytes_push [cursor_simps]: "length b < 2 ^ 32 \<Longrightarrow> next_bytes (push_bytes b @ rest) = Inr (b, rest)"
  by (simp add: next_bytes_def push_bytes_def cur_bind_def next_u32_le unat_len32_nat)

definition string_fits :: "string \<Rightarrow> bool" where
  "string_fits s \<longleftrightarrow> length s < 2 ^ 32 \<and> utf8_valid (as_bytes s)"

lemma next_string_push [cursor_simps]: "string_fits s \<Longrightarrow> next_string (push_string s @ rest) = Inr (s, rest)"
  by (simp add: next_string_def push_string_def string_fits_def cur_bind_def next_bytes_push cur_return_def)

lemma cur_repeat_concat:
  assumes "\<And>x rest. x \<in> set xs \<Longrightarrow> p (enc x @ rest) = Inr (x, rest)"
  shows "cur_repeat (length xs) p (concat (map enc xs) @ rest) = Inr (xs, rest)"
  using assms by (induction xs) (simp_all add: cur_return_def cur_bind_def)

definition mutation_fits :: "mutation \<Rightarrow> bool" where
  "mutation_fits m \<longleftrightarrow> length (fst m) < 2 ^ 32 \<and> (case snd m of Some v \<Rightarrow> length v < 2 ^ 32 | None \<Rightarrow> True)"

definition member_fits :: "cluster_member \<Rightarrow> bool" where
  "member_fits m \<longleftrightarrow> string_fits (raft_addr m) \<and> string_fits (client_addr m)"

lemma next_mutation_push: "mutation_fits m \<Longrightarrow> next_mutation label (push_mutation m @ rest) = Inr (m, rest)"
  by (cases m; cases "snd m")
    (auto simp: next_mutation_def push_mutation_def mutation_fits_def cur_bind_def cursor_simps)

lemma next_mutations_push:
  assumes "list_all mutation_fits ms" "length ms < 2 ^ 32"
  shows "next_mutations label (push_mutations ms @ rest) = Inr (ms, rest)"
proof -
  have "cur_repeat (length ms) (next_mutation label) (concat (map push_mutation ms) @ rest) = Inr (ms, rest)"
    using assms(1) by (intro cur_repeat_concat next_mutation_push) (simp add: list_all_iff)
  then show ?thesis
    using assms(2) by (simp add: next_mutations_def push_mutations_def cur_bind_def next_u32_le unat_len32_nat)
qed

lemma next_member_push: "member_fits m \<Longrightarrow> next_member True (push_member m @ rest) = Inr (m, rest)"
  by (cases m) (simp add: next_member_def push_member_def member_fits_def cur_bind_def cursor_simps)

lemma push_member_length: "17 \<le> length (push_member m)"
  by (simp add: push_member_def push_string_def push_bytes_def)

lemma members_length: "17 * length ms \<le> length (concat (map push_member ms))"
proof (induction ms)
  case (Cons m ms)
  then show ?case using push_member_length[of m] by simp
qed simp

lemma decode_config_change_push:
  assumes "list_all member_fits ms" and "length ms < 2 ^ 32"
  shows "decode_config_change (phase_byte ph # u32_le (word_of_nat (length ms)) @ concat (map push_member ms)) =
    Inr (CmdConfigChange ph ms)"
proof -
  have u: "unat (word_of_nat (length ms) :: u32) = length ms" using assms(2) by (rule unat_len32_nat)
  have n: "next_u32 (u32_le (word_of_nat (length ms)) @ concat (map push_member ms)) =
      Inr (word_of_nat (length ms), concat (map push_member ms))" by (rule next_u32_le)
  have ph: "(if phase_byte ph = 1 then Inr Joint else if phase_byte ph = 2 then Inr Final
      else Inl (''unknown ConfigChangePhase: '' @ fmt_dec (unat (phase_byte ph)))) = Inr ph"
    by (cases ph) simp_all
  have d: "decode_members_with_addrs (concat (map push_member ms)) (length ms) True = Inr ms"
    using cur_repeat_concat[of ms "next_member True" push_member "[]"] assms(1)
    by (simp add: decode_members_with_addrs_def next_member_push list_all_iff)
  show ?thesis
  proof (cases "ms = []")
    case True
    then show ?thesis
      using n ph by (simp add: decode_config_change_def next_u8_Cons cur_return_def)
  next
    case False
    then have "length (concat (map push_member ms)) \<noteq> length ms * 8"
      using members_length[of ms] by (cases ms) auto
    then show ?thesis by (simp add: decode_config_change_def next_u8_Cons n ph u d)
  qed
qed

fun command_fits :: "raft_command \<Rightarrow> bool" where
  "command_fits (CmdPut key v) \<longleftrightarrow> length key < 2 ^ 32 \<and> length v < 2 ^ 32"
| "command_fits (CmdDelete key) \<longleftrightarrow> length key < 2 ^ 32"
| "command_fits (CmdConfigChange _ ms) \<longleftrightarrow> length ms < 2 ^ 32 \<and> list_all member_fits ms"
| "command_fits (CmdTxnCommit _ ms) \<longleftrightarrow> length ms < 2 ^ 32 \<and> list_all mutation_fits ms"
| "command_fits (CmdTxnPrepare _ _ ms) \<longleftrightarrow> length ms < 2 ^ 32 \<and> list_all mutation_fits ms"
| "command_fits (CmdRangeMeta _ snap) \<longleftrightarrow> length snap < 2 ^ 32"
| "command_fits _ \<longleftrightarrow> True"

lemma cursor_end [cursor_simps]:
  "length b < 2 ^ 32 \<Longrightarrow> next_bytes (push_bytes b) = Inr (b, [])" "next_u64 (u64_le w) = Inr (w, [])"
  "list_all mutation_fits ms \<Longrightarrow> length ms < 2 ^ 32 \<Longrightarrow> next_mutations label (push_mutations ms) = Inr (ms, [])"
  using next_bytes_push[of b "[]"] next_u64_le[of w "[]"] next_mutations_push[of ms label "[]"] by simp_all

lemma decode_command_encode: "command_fits c \<Longrightarrow> command_decode (command_encode c) = Inr c"
  by (cases c)
    (simp_all add: command_decode_def finish_def cur_bind_def cursor_simps decode_config_change_push)

lemma take_len_prefixed_push: "string_fits s \<Longrightarrow> take_len_prefixed (push_string s @ rest) = Inr (s, rest)"
  by (simp add: take_len_prefixed_def push_string_def push_bytes_def string_fits_def unat_len32_nat Let_def)

lemma snapshot_member_push: "member_fits m \<Longrightarrow> snapshot_member True (push_member m @ rest) = Inr (m, rest)"
  by (cases m) (simp add: snapshot_member_def push_member_def member_fits_def cur_bind_def take_len_prefixed_push)

lemma parse_build_snapshot:
  assumes "length engine_data < 2 ^ 32" and "list_all member_fits ms" and "length ms < 2 ^ 32" and "length table < 2 ^ 32"
  shows "parse_snapshot_payload_v2 (build_snapshot_payload_v2 engine_data ms table) = Inr (engine_data, ms, table)"
proof -
  have d: "decode_snapshot_members (concat (map push_member ms) @ push_bytes table) (length ms) True =
      Inr (ms, push_bytes table)"
    unfolding decode_snapshot_members_def using assms(2)
    by (intro cur_repeat_concat snapshot_member_push) (simp add: list_all_iff)
  have u: "unat (word_of_nat (length engine_data) :: u32) = length engine_data"
    "unat (word_of_nat (length ms) :: u32) = length ms" "unat (word_of_nat (length table) :: u32) = length table"
    using assms by (simp_all only: unat_len32_nat)
  have "length (u32_le 2 :: bytes) = 4" by simp
  then have ne: "u32_le 2 \<noteq> ([] :: bytes)" by (metis length_0_conv zero_neq_numeral)
  have t: "push_bytes table = u32_le (word_of_nat (length table)) @ table" by (rule push_bytes_def)
  show ?thesis
    unfolding parse_snapshot_payload_v2_def build_snapshot_payload_v2_def push_bytes_def[of engine_data]
    by (simp add: ne u d Let_def) (simp add: t u)
qed

section \<open>Properties\<close>

text \<open>
  C22. Every command of the replicated log whose lengths fit their fields is decoded as it was encoded, and no
  command is the empty no-op entry of a new leader; the combined snapshot of engine data, membership
  and range table is parsed into the same parts.
\<close>

theorem raft_wire_roundtrip:
  assumes "command_fits c" and "length engine_data < 2 ^ 32" and "list_all member_fits ms" and "length ms < 2 ^ 32"
    and "length table < 2 ^ 32"
  shows "command_decode (command_encode c) = Inr c \<and> command_encode c \<noteq> [] \<and>
    parse_snapshot_payload_v2 (build_snapshot_payload_v2 engine_data ms table) = Inr (engine_data, ms, table) \<and>
    parse_snapshot_payload (build_snapshot_payload engine_data ms) = Inr (engine_data, ms)"
  using decode_command_encode[OF assms(1)] parse_build_snapshot[OF assms(2-5)] parse_build_snapshot[OF assms(2-4), of "[]"]
  by (cases c) (simp_all add: parse_snapshot_payload_def build_snapshot_payload_def)

theorem raft_wire_roundtrip_witness:
  "command_decode (command_encode (CmdConfigChange Joint [member_learner 4 ''r'' ''c''])) =
    Inr (CmdConfigChange Joint [member_learner 4 ''r'' ''c''])"
proof -
  have m: "member_fits (member_learner 4 ''r'' ''c'')"
    by (simp add: member_fits_def member_learner_def string_fits_def as_bytes_def)
  then have "command_fits (CmdConfigChange Joint [member_learner 4 ''r'' ''c''])" by simp
  from raft_wire_roundtrip[OF this, of "[]" "[]" "[]"] show ?thesis by simp
qed

end
