(* ===== verification/Range_Table.thy ===== *)
theory Range_Table
  imports Raft_Command "HOL-Library.List_Lexorder"
begin

text \<open>
  The table that assigns key ranges to Raft groups, \<^verbatim>\<open>StaticRangeTable\<close> of \<^verbatim>\<open>src/crates/kaya-raft/src/multi_raft.rs\<close>, with its
  splits, merges and moves and its binary snapshot. A table that starts as one range over all keys keeps
  partitioning the key space, each change reroutes exactly the keys of the range it returns, and the snapshot
  decodes to the table.
\<close>

section \<open>Ranges\<close>

record static_range =
  start_key :: bytes
  end_key :: bytes
  range_group :: u64
  range_id :: u64
  range_epoch :: u64

definition static_range_new :: "bytes \<Rightarrow> bytes \<Rightarrow> u64 \<Rightarrow> static_range" where
  "static_range_new s e g = \<lparr>start_key = s, end_key = e, range_group = g, range_id = 0, range_epoch = 0\<rparr>"

definition range_contains :: "bytes \<Rightarrow> static_range \<Rightarrow> bool" where
  "range_contains key r = (if key < start_key r then False else end_key r = [] \<or> key < end_key r)"

record range_table =
  ranges :: "static_range list"
  meta_epoch :: u64
  next_range_id :: u64
  next_group_id :: u64

definition table_new :: range_table where
  "table_new = \<lparr>ranges = [], meta_epoch = 0, next_range_id = 1, next_group_id = 1\<rparr>"

fun number_ranges :: "static_range list \<Rightarrow> u64 \<Rightarrow> u64 \<Rightarrow> static_range list \<times> u64 \<times> u64" where
  "number_ranges [] next_id max_group = ([], next_id, max_group)"
| "number_ranges (r # rs) next_id max_group =
    (let (r1, next_id1) =
       (if range_id r = 0 then (r\<lparr>range_id := next_id\<rparr>, next_id + 1) else (r, max next_id (range_id r + 1)));
       r2 = (if range_epoch r1 = 0 then r1\<lparr>range_epoch := 1\<rparr> else r1);
       (rs', n, g) = number_ranges rs next_id1 (max max_group (range_group r))
     in (r2 # rs', n, g))"

definition from_ranges :: "static_range list \<Rightarrow> range_table" where
  "from_ranges rs =
    (let (rs', next_id, max_group) = number_ranges (sort_key start_key rs) 1 0
     in \<lparr>ranges = rs', meta_epoch = 1, next_range_id = next_id,
         next_group_id = max (saturating_add max_group 1) 1\<rparr>)"

definition single_group :: "u64 \<Rightarrow> range_table" where
  "single_group g =
    (from_ranges [\<lparr>start_key = [], end_key = [], range_group = g, range_id = 1, range_epoch = 1\<rparr>])
      \<lparr>next_group_id := max (saturating_add g 1) 1, next_range_id := 2\<rparr>"

definition lookup_range :: "bytes \<Rightarrow> range_table \<Rightarrow> static_range option" where
  "lookup_range key t = find (range_contains key) (ranges t)"

definition table_lookup_group :: "bytes \<Rightarrow> range_table \<Rightarrow> u64 option" where
  "table_lookup_group key t = map_option range_group (lookup_range key t)"

fun position :: "('a \<Rightarrow> bool) \<Rightarrow> 'a list \<Rightarrow> nat option" where
  "position P [] = None"
| "position P (x # xs) = (if P x then Some 0 else map_option Suc (position P xs))"

definition split_at :: "bytes \<Rightarrow> range_table \<Rightarrow> string + (static_range \<times> static_range \<times> u64) \<times> range_table" where
  "split_at split_key t =
    (if split_key = [] then Inl ''split_key must be non-empty''
     else case position (range_contains split_key) (ranges t) of
       None \<Rightarrow> Inl ''split_key is not covered by any range''
     | Some idx \<Rightarrow>
         let old = ranges t ! idx
         in if split_key = start_key old then Inl ''split_key must be strictly greater than range start''
            else if end_key old \<noteq> [] \<and> split_key \<ge> end_key old
            then Inl ''split_key must be strictly less than range end''
            else
              let new_group = next_group_id t; new_range_id = next_range_id t;
                  left = old\<lparr>end_key := split_key, range_epoch := saturating_add (range_epoch old) 1\<rparr>;
                  right = \<lparr>start_key = split_key, end_key = end_key old, range_group = new_group,
                           range_id = new_range_id, range_epoch = 1\<rparr>;
                  t' = \<lparr>ranges = take idx (ranges t) @ [left, right] @ drop (idx + 1) (ranges t),
                        meta_epoch = saturating_add (meta_epoch t) 1,
                        next_range_id = saturating_add (next_range_id t) 1,
                        next_group_id = saturating_add (next_group_id t) 1\<rparr>
              in Inr ((left, right, new_group), t'))"

definition merge_with_next :: "bytes \<Rightarrow> range_table \<Rightarrow> string + static_range \<times> range_table" where
  "merge_with_next left_start t =
    (case position (\<lambda>r. start_key r = left_start) (ranges t) of
       None \<Rightarrow> Inl ''no range with the given left_start''
     | Some idx \<Rightarrow>
         if idx + 1 \<ge> length (ranges t) then Inl ''left range has no right neighbor to merge''
         else
           let left = ranges t ! idx; right = ranges t ! (idx + 1)
           in if end_key left \<noteq> start_key right then Inl ''left and right ranges are not adjacent''
              else
                let merged = \<lparr>start_key = start_key left, end_key = end_key right, range_group = range_group left,
                      range_id = range_id left,
                      range_epoch = saturating_add (max (range_epoch left) (range_epoch right)) 1\<rparr>
                in Inr (merged, t\<lparr>ranges := take idx (ranges t) @ [merged] @ drop (idx + 2) (ranges t),
                      meta_epoch := saturating_add (meta_epoch t) 1\<rparr>))"

definition move_range :: "bytes \<Rightarrow> u64 \<Rightarrow> range_table \<Rightarrow> string + static_range \<times> range_table" where
  "move_range range_start target_group t =
    (case position (\<lambda>r. start_key r = range_start) (ranges t) of
       None \<Rightarrow> Inl ''no range with the given start_key''
     | Some idx \<Rightarrow>
         let r = ranges t ! idx
         in if range_group r = target_group then Inl ''range already owned by the target group''
            else
              let moved = r\<lparr>range_group := target_group, range_epoch := saturating_add (range_epoch r) 1\<rparr>
              in Inr (moved, t\<lparr>ranges := (ranges t)[idx := moved],
                    next_group_id := max (next_group_id t) (saturating_add target_group 1),
                    meta_epoch := saturating_add (meta_epoch t) 1\<rparr>))"

definition table_group_ids :: "range_table \<Rightarrow> u64 list" where
  "table_group_ids t = remdups_adj (sort (map range_group (ranges t)))"

section \<open>Snapshots\<close>

definition push_range :: "static_range \<Rightarrow> bytes" where
  "push_range r = u64_le (range_id r) @ u64_le (range_epoch r) @ u64_le (range_group r)
     @ push_bytes (start_key r) @ push_bytes (end_key r)"

definition table_encode :: "range_table \<Rightarrow> bytes" where
  "table_encode t = 1 # u64_le (meta_epoch t) @ u64_le (next_range_id t) @ u64_le (next_group_id t)
     @ u32_le (word_of_nat (length (ranges t))) @ concat (map push_range (ranges t))"

definition take_u64 :: "string \<Rightarrow> u64 cursor" where
  "take_u64 label cur =
    (if length cur < 8 then Inl (''truncated range table ('' @ label @ '')'')
     else Inr (from_le (take 8 cur), drop 8 cur))"

definition take_u32 :: "string \<Rightarrow> u32 cursor" where
  "take_u32 label cur =
    (if length cur < 4 then Inl (''truncated range table ('' @ label @ '')'')
     else Inr (from_le (take 4 cur), drop 4 cur))"

definition take_bytes :: "string \<Rightarrow> bytes cursor" where
  "take_bytes label = cur_bind (take_u32 label) (\<lambda>n cur.
    if length cur < unat n
    then Inl (''truncated range table ('' @ label @ ''): need '' @ fmt_dec (unat n) @ '', have '' @ fmt_dec (length cur))
    else Inr (take (unat n) cur, drop (unat n) cur))"

definition take_range :: "static_range cursor" where
  "take_range =
    cur_bind (take_u64 ''range_id'') (\<lambda>rid. cur_bind (take_u64 ''epoch'') (\<lambda>ep. cur_bind (take_u64 ''group_id'') (\<lambda>g.
    cur_bind (take_bytes ''start_key'') (\<lambda>s. cur_bind (take_bytes ''end_key'') (\<lambda>e.
    cur_return \<lparr>start_key = s, end_key = e, range_group = g, range_id = rid, range_epoch = ep\<rparr>)))))"

definition table_body :: "range_table cursor" where
  "table_body =
    cur_bind (take_u64 ''meta_epoch'') (\<lambda>me. cur_bind (take_u64 ''next_range_id'') (\<lambda>nr.
    cur_bind (take_u64 ''next_group_id'') (\<lambda>ng. cur_bind (take_u32 ''range count'') (\<lambda>count.
    cur_bind (cur_repeat (unat count) take_range) (\<lambda>rs.
    cur_return \<lparr>ranges = rs, meta_epoch = me, next_range_id = nr, next_group_id = ng\<rparr>)))))"

definition table_decode :: "bytes \<Rightarrow> string + range_table" where
  "table_decode data =
    (case data of
       [] \<Rightarrow> Inl ''empty range table snapshot''
     | version # cur \<Rightarrow>
         if version \<noteq> 1 then Inl (''unsupported range table version: '' @ fmt_dec (unat version))
         else res_bind (table_body cur) (\<lambda>(t, rest).
           if rest \<noteq> [] then Inl (''trailing '' @ fmt_dec (length rest) @ '' bytes after range table snapshot'')
           else Inr t))"


section \<open>Partitions of the key space\<close>

text \<open>Ranges that follow each other from a key to a key, and ranges that cover everything from a key on.\<close>

fun linked :: "bytes \<Rightarrow> static_range list \<Rightarrow> bytes \<Rightarrow> bool" where
  "linked s [] m \<longleftrightarrow> s = m"
| "linked s (r # rs) m \<longleftrightarrow> start_key r = s \<and> end_key r \<noteq> [] \<and> s < end_key r \<and> linked (end_key r) rs m"

fun tiles :: "bytes \<Rightarrow> static_range list \<Rightarrow> bool" where
  "tiles s [] \<longleftrightarrow> False"
| "tiles s (r # rs) \<longleftrightarrow> start_key r = s \<and>
    (if rs = [] then end_key r = [] else end_key r \<noteq> [] \<and> s < end_key r \<and> tiles (end_key r) rs)"

lemma tiles_append:
  "tiles s (pre @ r # post) \<longleftrightarrow> linked s pre (start_key r) \<and> tiles (start_key r) (r # post)"
  by (induction pre arbitrary: s) auto

lemma linked_le: "linked s rs m \<Longrightarrow> s \<le> m"
  by (induction rs arbitrary: s) (auto intro: order.trans less_imp_le)

lemma tiles_starts: "tiles s rs \<Longrightarrow> r \<in> set rs \<Longrightarrow> s \<le> start_key r"
  by (induction rs arbitrary: s) (auto split: if_splits intro: order.trans less_imp_le)

lemma linked_find:
  assumes "linked s pre m" and "s \<le> k"
  shows "find (range_contains k) (pre @ rest) = (if k < m then find (range_contains k) pre else find (range_contains k) rest)"
  using assms
proof (induction pre arbitrary: s)
  case Nil
  then show ?case by auto
next
  case (Cons r rs)
  show ?case
  proof (cases "range_contains k r")
    case True
    moreover have "end_key r \<le> m" using Cons.prems linked_le by auto
    ultimately show ?thesis using Cons.prems by (auto simp: range_contains_def split: if_splits)
  next
    case False
    then have "end_key r \<le> k" using Cons.prems by (auto simp: range_contains_def split: if_splits)
    then show ?thesis using Cons.IH[of "end_key r"] Cons.prems False by simp
  qed
qed

lemma tiles_cover:
  "tiles s rs \<Longrightarrow> s \<le> k \<Longrightarrow> \<exists>!r. r \<in> set rs \<and> range_contains k r"
proof (induction rs arbitrary: s)
  case Nil
  then show ?case by simp
next
  case (Cons r rs)
  show ?case
  proof (cases "rs = [] \<or> k < end_key r")
    case True
    then have "range_contains k r" using Cons.prems by (auto simp: range_contains_def)
    moreover have "\<not> range_contains k x" if "x \<in> set rs" for x
    proof -
      have "rs \<noteq> []" using that by auto
      then have "end_key r \<le> start_key x" using Cons.prems that tiles_starts[of "end_key r" rs x] by simp
      moreover have "k < end_key r" using True \<open>rs \<noteq> []\<close> by simp
      ultimately show ?thesis by (auto simp: range_contains_def)
    qed
    ultimately show ?thesis by auto
  next
    case False
    then have "\<not> range_contains k r" "tiles (end_key r) rs" "end_key r \<le> k"
      using Cons.prems by (auto simp: range_contains_def)
    then show ?thesis using Cons.IH[of "end_key r"] by auto
  qed
qed

lemma position_split:
  "position P xs = Some i \<Longrightarrow> \<exists>pre x post. xs = pre @ x # post \<and> length pre = i \<and> P x \<and> (\<forall>y \<in> set pre. \<not> P y)"
proof (induction xs arbitrary: i)
  case Nil
  then show ?case by simp
next
  case (Cons a xs)
  show ?case
  proof (cases "P a")
    case True
    then show ?thesis using Cons.prems by (intro exI[of _ "[]"]) simp
  next
    case False
    then obtain j where j: "position P xs = Some j" "i = Suc j" using Cons.prems by auto
    obtain pre x post where "xs = pre @ x # post" "length pre = j" "P x" "\<forall>y \<in> set pre. \<not> P y"
      using Cons.IH[OF j(1)] by blast
    then show ?thesis using False j(2) by (intro exI[of _ "a # pre"]) auto
  qed
qed


lemma Nil_le [simp]: "[] \<le> (k :: bytes)"
  by (cases k) simp_all

text \<open>What an accepted change replaces.\<close>

definition reroutes :: "range_table \<Rightarrow> static_range \<Rightarrow> range_table \<Rightarrow> bool" where
  "reroutes t r t' \<longleftrightarrow> tiles [] (ranges t') \<and>
    (\<forall>k. table_lookup_group k t' = (if range_contains k r then Some (range_group r) else table_lookup_group k t))"

lemma lookup_tiles:
  assumes "tiles [] (pre @ r # post)"
  shows "find (range_contains k) (pre @ r # post) =
    (if k < start_key r then find (range_contains k) pre else find (range_contains k) (r # post))"
  using assms by (intro linked_find[of "[]"]) (simp_all add: tiles_append)

lemma split_at_reroutes:
  assumes t: "tiles [] (ranges t)" and sp: "split_at key t = Inr ((l, r, g), t')"
  shows "reroutes t r t' \<and> g = next_group_id t \<and> range_group r = g \<and> start_key r = key \<and>
    end_key l = key \<and> range_group l \<in> range_group ` set (ranges t) \<and> table_lookup_group key t = Some (range_group l) \<and>
    (\<exists>pre old post. ranges t = pre @ old # post \<and> ranges t' = pre @ l # r # post \<and> start_key l = start_key old \<and>
      end_key r = end_key old \<and> range_group l = range_group old)"
proof -
  obtain idx where idx: "position (range_contains key) (ranges t) = Some idx"
    using sp by (auto simp: split_at_def split: if_splits option.splits)
  obtain pre old post where o: "ranges t = pre @ old # post" "length pre = idx" "range_contains key old"
    "\<forall>y \<in> set pre. \<not> range_contains key y"
    using position_split[OF idx] by blast
  have nth: "ranges t ! idx = old" using o by (simp add: nth_append)
  have r: "r = \<lparr>start_key = key, end_key = end_key old, range_group = next_group_id t,
      range_id = next_range_id t, range_epoch = 1\<rparr>" "g = next_group_id t"
    "l = old\<lparr>end_key := key, range_epoch := saturating_add (range_epoch old) 1\<rparr>"
    and t': "ranges t' = pre @ [l, r] @ post" and k: "key \<noteq> []" "key \<noteq> start_key old" "end_key old \<noteq> [] \<longrightarrow> key < end_key old"
    using sp idx o nth by (auto simp: split_at_def Let_def split: if_splits)
  have lt: "start_key old < key" using o(3) k(2) by (auto simp: range_contains_def split: if_splits)
  have tl: "linked [] pre (start_key old)" "tiles (start_key old) (old # post)" using t o(1) by (simp_all add: tiles_append)
  have tiles': "tiles [] (ranges t')" unfolding t' using tl k lt by (simp add: tiles_append r split: if_splits)
  have "table_lookup_group q t' = (if range_contains q r then Some (range_group r) else table_lookup_group q t)" for q
  proof (cases "q < start_key old")
    case True
    then show ?thesis using lookup_tiles[of pre l "r # post" q] lookup_tiles[of pre old post q] t tiles' lt
      by (auto simp: table_lookup_group_def lookup_range_def o(1) t' r range_contains_def)
  next
    case False
    then show ?thesis using lookup_tiles[of pre l "r # post" q] lookup_tiles[of pre old post q] t tiles' lt k
      by (auto simp: table_lookup_group_def lookup_range_def o(1) t' r range_contains_def)
  qed
  moreover have "find (range_contains key) (pre @ old # post) = Some old" using o(3,4) by (induction pre) auto
  moreover have "ranges t = pre @ old # post \<and> ranges t' = pre @ l # r # post \<and> start_key l = start_key old \<and>
      end_key r = end_key old \<and> range_group l = range_group old" using o(1) t' by (simp add: r)
  ultimately show ?thesis using tiles' r(2)
    by (intro conjI exI[of _ pre] exI[of _ old] exI[of _ post])
      (simp_all add: reroutes_def table_lookup_group_def lookup_range_def r)
qed


lemma merge_reroutes:
  assumes t: "tiles [] (ranges t)" and mg: "merge_with_next key t = Inr (m, t')"
  shows "reroutes t m t' \<and> (\<exists>pre left right post. ranges t = pre @ left # right # post \<and> ranges t' = pre @ m # post \<and>
    start_key left = key \<and> start_key m = key \<and> end_key m = end_key right \<and> range_group m = range_group left)"
proof -
  obtain idx where idx: "position (\<lambda>r. start_key r = key) (ranges t) = Some idx" and len: "idx + 1 < length (ranges t)"
    using mg by (auto simp: merge_with_next_def split: if_splits option.splits)
  obtain pre left rest where o: "ranges t = pre @ left # rest" "length pre = idx" "start_key left = key"
    using position_split[OF idx] by blast
  obtain right post where rest: "rest = right # post" using len o(1,2) by (cases rest) auto
  have nth: "ranges t ! idx = left" "ranges t ! Suc idx = right" using o rest by (simp_all add: nth_append)
  have m: "m = \<lparr>start_key = start_key left, end_key = end_key right, range_group = range_group left,
      range_id = range_id left, range_epoch = saturating_add (max (range_epoch left) (range_epoch right)) 1\<rparr>"
    and t': "ranges t' = pre @ m # post" and adj: "end_key left = start_key right"
    using mg idx len o nth rest by (auto simp: merge_with_next_def Let_def split: if_splits)
  have tl: "linked [] pre (start_key left)" "tiles (start_key left) (left # right # post)"
    using t o(1) rest by (simp_all add: tiles_append)
  have lt: "start_key left < start_key right" "start_key right < end_key right \<or> end_key right = []"
    using tl(2) adj by (auto split: if_splits)
  have tiles': "tiles [] (ranges t')"
    unfolding t' using tl adj lt by (auto simp: tiles_append m split: if_splits)
  have "table_lookup_group q t' = (if range_contains q m then Some (range_group m) else table_lookup_group q t)" for q
    using lookup_tiles[of pre m post q] lookup_tiles[of pre left "right # post" q] t tiles' lt adj
    by (auto simp: table_lookup_group_def lookup_range_def o(1) rest t' m range_contains_def)
  then show ?thesis using tiles' o rest t'
    by (intro conjI exI[of _ pre] exI[of _ left] exI[of _ right] exI[of _ post]) (simp_all add: reroutes_def m)
qed

lemma move_reroutes:
  assumes t: "tiles [] (ranges t)" and mv: "move_range key g t = Inr (m, t')"
  shows "reroutes t m t' \<and> range_group m = g \<and> (\<exists>pre old post. ranges t = pre @ old # post \<and> ranges t' = pre @ m # post \<and>
    start_key old = key \<and> start_key m = key \<and> end_key m = end_key old \<and> range_group old \<noteq> g)"
proof -
  obtain idx where idx: "position (\<lambda>r. start_key r = key) (ranges t) = Some idx"
    using mv by (auto simp: move_range_def split: option.splits)
  obtain pre r post where o: "ranges t = pre @ r # post" "length pre = idx" "start_key r = key"
    using position_split[OF idx] by blast
  have nth: "ranges t ! idx = r" using o by (simp add: nth_append)
  have m: "m = r\<lparr>range_group := g, range_epoch := saturating_add (range_epoch r) 1\<rparr>" and t': "ranges t' = pre @ m # post"
    and g: "range_group r \<noteq> g"
    using mv idx o nth by (auto simp: move_range_def Let_def split: if_splits)
  have tiles': "tiles [] (ranges t')" unfolding t' using t o(1) by (simp add: tiles_append m)
  have "table_lookup_group q t' = (if range_contains q m then Some (range_group m) else table_lookup_group q t)" for q
    using lookup_tiles[of pre m post q] lookup_tiles[of pre r post q] t tiles'
    by (auto simp: table_lookup_group_def lookup_range_def o(1) t' m range_contains_def)
  then show ?thesis using tiles' o t' g
    by (intro conjI exI[of _ pre] exI[of _ r] exI[of _ post]) (simp_all add: reroutes_def m)
qed


text \<open>A sequence of changes, where a refused one leaves the table alone.\<close>

datatype table_op = SplitAt bytes | MergeWithNext bytes | MoveRange bytes u64

fun table_step :: "table_op \<Rightarrow> range_table \<Rightarrow> range_table" where
  "table_step (SplitAt key) t = (case split_at key t of Inr (_, t') \<Rightarrow> t' | Inl _ \<Rightarrow> t)"
| "table_step (MergeWithNext key) t = (case merge_with_next key t of Inr (_, t') \<Rightarrow> t' | Inl _ \<Rightarrow> t)"
| "table_step (MoveRange key g) t = (case move_range key g t of Inr (_, t') \<Rightarrow> t' | Inl _ \<Rightarrow> t)"

lemma tiles_table_step:
  assumes "tiles [] (ranges t)"
  shows "tiles [] (ranges (table_step x t))"
proof (cases x)
  case (SplitAt key)
  then show ?thesis using assms split_at_reroutes[OF assms, of key]
    by (cases "split_at key t") (auto simp: reroutes_def)
next
  case (MergeWithNext key)
  then show ?thesis using assms merge_reroutes[OF assms, of key]
    by (cases "merge_with_next key t") (auto simp: reroutes_def)
next
  case (MoveRange key g)
  then show ?thesis using assms move_reroutes[OF assms, of key g]
    by (cases "move_range key g t") (auto simp: reroutes_def)
qed

text \<open>Groups in use are below the next one to hand out, until the numbers run out.\<close>

definition groups_below :: "range_table \<Rightarrow> bool" where
  "groups_below t \<longleftrightarrow> next_group_id t = - 1 \<or> (\<forall>r \<in> set (ranges t). range_group r < next_group_id t)"

lemma saturating_add_one_less: "saturating_add g 1 = - 1 \<or> g < saturating_add g (1 :: u64)"
  using word_less_Suc[of g] by (cases "g = - 1") (simp_all add: saturating_add_def less_imp_le)

lemma groups_belowI:
  assumes "groups_below t" and "next_group_id t \<le> next_group_id t'"
    and "\<And>r. r \<in> set (ranges t') \<Longrightarrow> range_group r \<in> range_group ` set (ranges t) \<or> next_group_id t' = - 1 \<or>
      range_group r < next_group_id t'"
  shows "groups_below t'"
proof (cases "next_group_id t' = - 1")
  case True
  then show ?thesis by (simp add: groups_below_def)
next
  case False
  have "next_group_id t \<noteq> - 1" using assms(2) False word_order.extremum_uniqueI by metis
  then have lt: "range_group r < next_group_id t" if "r \<in> set (ranges t)" for r
    using assms(1) that by (simp add: groups_below_def)
  have "range_group r < next_group_id t'" if r: "r \<in> set (ranges t')" for r
    using assms(3)[OF r]
  proof (elim disjE imageE)
    fix x
    assume "range_group r = range_group x" "x \<in> set (ranges t)"
    then show ?thesis using lt[of x] assms(2) by simp
  qed (use False in simp_all)
  then show ?thesis by (simp add: groups_below_def)
qed

lemma saturating_add_ge: "g \<le> saturating_add g (1 :: u64)"
  by (simp add: saturating_add_def)

lemma split_at_parts:
  assumes "split_at key t = Inr ((l, r, g), t')"
  shows "next_group_id t' = saturating_add (next_group_id t) 1"
    "x \<in> set (ranges t') \<Longrightarrow> range_group x \<in> range_group ` set (ranges t) \<or> range_group x = next_group_id t"
proof -
  obtain idx where idx: "position (range_contains key) (ranges t) = Some idx"
    using assms by (auto simp: split_at_def split: if_splits option.splits)
  obtain pre old post where o: "ranges t = pre @ old # post" "length pre = idx" using position_split[OF idx] by blast
  have nth: "ranges t ! idx = old" using o by (simp add: nth_append)
  have t': "ranges t' = pre @ [l, r] @ post" "range_group l = range_group old" "range_group r = next_group_id t"
    and n: "next_group_id t' = saturating_add (next_group_id t) 1"
    using assms idx o nth by (auto simp: split_at_def Let_def split: if_splits)
  show "next_group_id t' = saturating_add (next_group_id t) 1" by (rule n)
  show "range_group x \<in> range_group ` set (ranges t) \<or> range_group x = next_group_id t" if "x \<in> set (ranges t')"
    using that t' by (auto simp: o(1))
qed

lemma merge_parts:
  assumes "merge_with_next key t = Inr (m, t')"
  shows "next_group_id t' = next_group_id t" "x \<in> set (ranges t') \<Longrightarrow> range_group x \<in> range_group ` set (ranges t)"
proof -
  obtain idx where idx: "position (\<lambda>r. start_key r = key) (ranges t) = Some idx" and len: "idx + 1 < length (ranges t)"
    using assms by (auto simp: merge_with_next_def split: if_splits option.splits)
  obtain pre left rest where o: "ranges t = pre @ left # rest" "length pre = idx" using position_split[OF idx] by blast
  obtain right post where rest: "rest = right # post" using len o by (cases rest) auto
  have nth: "ranges t ! idx = left" using o by (simp add: nth_append)
  have t': "ranges t' = pre @ m # post" "range_group m = range_group left" and n: "next_group_id t' = next_group_id t"
    using assms idx len o nth rest by (auto simp: merge_with_next_def Let_def split: if_splits)
  show "next_group_id t' = next_group_id t" by (rule n)
  show "range_group x \<in> range_group ` set (ranges t)" if "x \<in> set (ranges t')"
    using that t' by (auto simp: o(1) rest)
qed

lemma in_set_update: "x \<in> set (xs[i := v]) \<Longrightarrow> x = v \<or> x \<in> set xs"
  using set_update_subset_insert[of xs i v] by auto

lemma move_parts:
  assumes "move_range key g t = Inr (m, t')"
  shows "next_group_id t' = max (next_group_id t) (saturating_add g 1)"
    "x \<in> set (ranges t') \<Longrightarrow> range_group x \<in> range_group ` set (ranges t) \<or> range_group x = g"
  using assms by (auto simp: move_range_def Let_def split: if_splits option.splits dest!: in_set_update)

lemma groups_below_table_step:
  assumes t: "groups_below t"
  shows "groups_below (table_step x t)"
proof (cases x)
  case (SplitAt key)
  show ?thesis
  proof (cases "split_at key t")
    case (Inr y)
    then obtain l r g t' where y: "split_at key t = Inr ((l, r, g), t')" by (metis prod.collapse)
    have "groups_below t'"
    proof (rule groups_belowI[OF t])
      show "next_group_id t \<le> next_group_id t'" by (simp add: split_at_parts(1)[OF y] saturating_add_ge)
      show "range_group r \<in> range_group ` set (ranges t) \<or> next_group_id t' = - 1 \<or> range_group r < next_group_id t'"
        if "r \<in> set (ranges t')" for r
        using split_at_parts(2)[OF y that] saturating_add_one_less[of "next_group_id t"]
        unfolding split_at_parts(1)[OF y] by metis
    qed
    then show ?thesis using SplitAt y by simp
  qed (use t SplitAt in simp)
next
  case (MergeWithNext key)
  show ?thesis
  proof (cases "merge_with_next key t")
    case (Inr y)
    then obtain m t' where y: "merge_with_next key t = Inr (m, t')" by (metis prod.collapse)
    have "groups_below t'" using merge_parts[OF y] by (intro groups_belowI[OF t]) simp_all
    then show ?thesis using MergeWithNext y by simp
  qed (use t MergeWithNext in simp)
next
  case (MoveRange key g)
  show ?thesis
  proof (cases "move_range key g t")
    case (Inr y)
    then obtain m t' where y: "move_range key g t = Inr (m, t')" by (metis prod.collapse)
    have "max (next_group_id t) (saturating_add g 1) = - 1 \<or> g < max (next_group_id t) (saturating_add g 1)"
      using saturating_add_one_less[of g] by (auto simp: less_max_iff_disj max_def)
    then have "groups_below t'"
      using move_parts[OF y] by (intro groups_belowI[OF t]) (simp, metis)
    then show ?thesis using MoveRange y by simp
  qed (use t MoveRange in simp)
qed

section \<open>Properties\<close>

lemma single_group_simps:
  "ranges (single_group g) = [\<lparr>start_key = [], end_key = [], range_group = g, range_id = 1, range_epoch = 1\<rparr>]"
  "next_group_id (single_group g) = max (saturating_add g 1) 1"
  by (simp_all add: single_group_def from_ranges_def)

lemma single_group_inv: "tiles [] (ranges (single_group g)) \<and> groups_below (single_group g)"
proof -
  have "max (saturating_add g 1) 1 = (- 1 :: u64) \<or> g < max (saturating_add g 1) 1"
    using saturating_add_one_less[of g]
  proof
    assume "saturating_add g 1 = - 1"
    then show ?thesis by (simp add: max_absorb1)
  next
    assume "g < saturating_add g 1"
    then show ?thesis by (simp add: less_max_iff_disj)
  qed
  then show ?thesis by (auto simp: single_group_simps groups_below_def)
qed

text \<open>
  C32. A range table that starts as one range over all keys is a partition of the key space after any sequence of splits,
  merges and moves: every key lies in exactly one range, so it is routed to exactly one group; and unless the
  group numbers have run out, the number the next split would hand out belongs to no range.
\<close>

theorem range_table_partition:
  "(\<forall>key. \<exists>!r. r \<in> set (ranges (fold table_step xs (single_group g))) \<and> range_contains key r) \<and>
   (next_group_id (fold table_step xs (single_group g)) = - 1 \<or>
    next_group_id (fold table_step xs (single_group g)) \<notin> range_group ` set (ranges (fold table_step xs (single_group g))))"
proof -
  have "tiles [] (ranges (fold table_step xs t)) \<and> groups_below (fold table_step xs t)"
    if "tiles [] (ranges t) \<and> groups_below t" for t
    using that by (induction xs arbitrary: t) (simp_all add: tiles_table_step groups_below_table_step)
  then have inv: "tiles [] (ranges (fold table_step xs (single_group g)))" "groups_below (fold table_step xs (single_group g))"
    using single_group_inv[of g] by simp_all
  show ?thesis using inv(2) tiles_cover[OF inv(1) Nil_le] by (auto simp: groups_below_def)
qed

theorem range_table_partition_witness:
  "next_group_id (fold table_step [SplitAt [7]] (single_group 5)) = 7 \<and>
   7 \<notin> range_group ` set (ranges (fold table_step [SplitAt [7]] (single_group 5)))"
proof -
  have n: "next_group_id (fold table_step [SplitAt [7]] (single_group 5)) = 7" by code_simp
  have m: "(7 :: u64) \<noteq> - 1" by simp
  show ?thesis using range_table_partition[of "[SplitAt [7]]" 5] n m by simp
qed




definition range_table_fits :: "range_table \<Rightarrow> bool" where
  "range_table_fits t \<longleftrightarrow> length (ranges t) < 2 ^ 32 \<and>
    list_all (\<lambda>r. length (start_key r) < 2 ^ 32 \<and> length (end_key r) < 2 ^ 32) (ranges t)"

lemma take_u64_le: "take_u64 label (u64_le w @ rest) = Inr (w, rest)"
  by (simp add: take_u64_def)

lemma take_u32_le: "take_u32 label (u32_le w @ rest) = Inr (w, rest)"
  by (simp add: take_u32_def)

lemma take_bytes_push: "length b < 2 ^ 32 \<Longrightarrow> take_bytes label (push_bytes b @ rest) = Inr (b, rest)"
  by (simp add: take_bytes_def push_bytes_def cur_bind_def take_u32_le unat_len32_nat)

lemma take_range_push:
  "length (start_key r) < 2 ^ 32 \<Longrightarrow> length (end_key r) < 2 ^ 32 \<Longrightarrow> take_range (push_range r @ rest) = Inr (r, rest)"
  by (cases r) (simp add: take_range_def push_range_def cur_bind_def take_u64_le take_bytes_push cur_return_def)

lemma table_body_encoded:
  assumes "range_table_fits t"
  shows "table_body (u64_le (meta_epoch t) @ u64_le (next_range_id t) @ u64_le (next_group_id t)
     @ u32_le (word_of_nat (length (ranges t))) @ concat (map push_range (ranges t)) @ rest) = Inr (t, rest)"
proof -
  have "cur_repeat (length (ranges t)) take_range (concat (map push_range (ranges t)) @ rest) = Inr (ranges t, rest)"
    using assms by (intro cur_repeat_concat take_range_push) (simp_all add: range_table_fits_def list_all_iff)
  then show ?thesis using assms
    by (simp add: table_body_def cur_bind_def take_u64_le take_u32_le unat_len32_nat range_table_fits_def cur_return_def)
qed

text \<open>
  C34. The snapshot of a range table whose lengths fit their fields decodes to the table, and with anything after it, or
  with its version changed, it is refused.
\<close>

theorem range_table_snapshot:
  assumes "range_table_fits t"
  shows "table_decode (table_encode t) = Inr t \<and>
    (rest \<noteq> [] \<longrightarrow> (\<exists>e. table_decode (table_encode t @ rest) = Inl e)) \<and>
    (v \<noteq> 1 \<longrightarrow> (\<exists>e. table_decode (v # tl (table_encode t)) = Inl e))"
  using table_body_encoded[OF assms, of "[]"] table_body_encoded[OF assms, of rest]
  by (simp add: table_decode_def table_encode_def)

theorem range_table_snapshot_witness: "table_decode (table_encode (single_group 5)) = Inr (single_group 5)"
  using range_table_snapshot[of "single_group 5" "[]" 1] by (simp add: range_table_fits_def single_group_simps)

end
