(* ===== verification/Raft_Log.thy ===== *)
theory Raft_Log
  imports Kaya_Core
begin

text \<open>
  The in-memory log of a Raft node, \<^verbatim>\<open>src/crates/kaya-raft/src/log.rs\<close>, and its persistent form,
  \<^verbatim>\<open>storage.rs\<close> and the load path of \<^verbatim>\<open>disk_storage.rs\<close>. Terms and log indexes are natural numbers.
  They are cut to 64 bits where they are encoded, and the increment of a term, which a message from the network can
  bring to its limit, wraps around (\<^verbatim>\<open>term_next\<close> of the node). Log indexes are not wrapped:
  where a peer reports an index of 2^64 - 1, the code's next index would be 0 and the model's is 2^64.
  Node identities are 64-bit words.
\<close>

section \<open>The log\<close>

record log_entry =
  le_term :: nat
  le_command :: bytes

record mem_log =
  ml_entries :: "log_entry list"
  last_included_index :: nat
  last_included_term :: nat
  ml_snapshot :: "bytes option"

definition memlog_new :: mem_log where
  "memlog_new = \<lparr>ml_entries = [], last_included_index = 0, last_included_term = 0, ml_snapshot = None\<rparr>"

definition last_index :: "mem_log \<Rightarrow> nat" where
  "last_index l =
    (if ml_entries l = [] then last_included_index l else last_included_index l + length (ml_entries l))"

definition last_term :: "mem_log \<Rightarrow> nat" where
  "last_term l = (if ml_entries l = [] then last_included_term l else le_term (last (ml_entries l)))"

definition nth_opt :: "'a list \<Rightarrow> nat \<Rightarrow> 'a option" where
  "nth_opt xs i = (if i < length xs then Some (xs ! i) else None)"

definition term_at :: "mem_log \<Rightarrow> nat \<Rightarrow> nat option" where
  "term_at l index =
    (if index = 0 then Some 0
     else if index \<le> last_included_index l then Some (last_included_term l)
     else map_option le_term (nth_opt (ml_entries l) (index - last_included_index l - 1)))"

definition log_get :: "mem_log \<Rightarrow> nat \<Rightarrow> log_entry option" where
  "log_get l index =
    (if index = 0 \<or> index \<le> last_included_index l then None
     else nth_opt (ml_entries l) (index - last_included_index l - 1))"

definition log_append :: "log_entry \<Rightarrow> mem_log \<Rightarrow> mem_log" where
  "log_append e l = l\<lparr>ml_entries := ml_entries l @ [e]\<rparr>"

definition truncate_from :: "nat \<Rightarrow> mem_log \<Rightarrow> mem_log" where
  "truncate_from from l =
    (if from = 0 then l\<lparr>ml_entries := []\<rparr>
     else if from \<le> last_included_index l then l\<lparr>ml_entries := []\<rparr>
     else
       let offset = from - last_included_index l - 1
       in if offset < length (ml_entries l) then l\<lparr>ml_entries := take offset (ml_entries l)\<rparr> else l)"

definition entries_from :: "nat \<Rightarrow> mem_log \<Rightarrow> log_entry list" where
  "entries_from from l =
    (if from = 0 \<or> from \<le> last_included_index l then []
     else
       let start = from - last_included_index l - 1
       in if start \<ge> length (ml_entries l) then [] else drop start (ml_entries l))"

definition log_install_snapshot :: "nat \<Rightarrow> nat \<Rightarrow> bytes \<Rightarrow> mem_log \<Rightarrow> mem_log" where
  "log_install_snapshot up_to_index up_to_term data l =
    (if up_to_index \<le> last_included_index l then l
     else
       let first_to_keep = up_to_index + 1; current_first = last_included_index l + 1;
           es = (if first_to_keep > current_first
                 then drop (min (first_to_keep - current_first) (length (ml_entries l))) (ml_entries l)
                 else [])
       in l\<lparr>ml_entries := es, last_included_index := up_to_index, last_included_term := up_to_term,
            ml_snapshot := Some data\<rparr>)"

definition log_snapshot :: "mem_log \<Rightarrow> (nat \<times> nat \<times> bytes) option" where
  "log_snapshot l = map_option (\<lambda>d. (last_included_index l, last_included_term l, d)) (ml_snapshot l)"

definition clear_snapshot :: "mem_log \<Rightarrow> mem_log" where
  "clear_snapshot l = l\<lparr>ml_snapshot := None\<rparr>"

section \<open>Persistent form\<close>

definition RAFT_HARD_STATE_MAGIC :: u32 where "RAFT_HARD_STATE_MAGIC = 0x484B5352"
definition RAFT_HARD_STATE_VERSION :: u32 where "RAFT_HARD_STATE_VERSION = 1"
definition RAFT_HARD_STATE_LEN :: nat where "RAFT_HARD_STATE_LEN = 64"
definition RAFT_LOG_FRAME_MAGIC :: u32 where "RAFT_LOG_FRAME_MAGIC = 0x46474C52"
definition RAFT_LOG_FRAME_VERSION :: u16 where "RAFT_LOG_FRAME_VERSION = 1"
definition RAFT_LOG_FRAME_HEADER_LEN :: nat where "RAFT_LOG_FRAME_HEADER_LEN = 32"

lemmas raft_consts = RAFT_HARD_STATE_MAGIC_def RAFT_HARD_STATE_VERSION_def RAFT_HARD_STATE_LEN_def
  RAFT_LOG_FRAME_MAGIC_def RAFT_LOG_FRAME_VERSION_def RAFT_LOG_FRAME_HEADER_LEN_def

record hard_state =
  hs_current_term :: nat
  hs_voted_for :: "u64 option"
  hs_last_included_index :: nat
  hs_last_included_term :: nat

definition default_hard_state :: hard_state where
  "default_hard_state =
    \<lparr>hs_current_term = 0, hs_voted_for = None, hs_last_included_index = 0, hs_last_included_term = 0\<rparr>"

definition encode_hard_state :: "hard_state \<Rightarrow> bytes" where
  "encode_hard_state hs =
    (let buf = u32_le RAFT_HARD_STATE_MAGIC @ u32_le RAFT_HARD_STATE_VERSION
           @ u64_le (word_of_nat (hs_current_term hs))
           @ u64_le (case hs_voted_for hs of Some n \<Rightarrow> n | None \<Rightarrow> 0)
           @ u64_le (word_of_nat (hs_last_included_index hs))
           @ u64_le (word_of_nat (hs_last_included_term hs)) @ replicate 20 0
     in buf @ u32_le (crc32c buf))"

definition decode_hard_state :: "bytes \<Rightarrow> string + hard_state" where
  "decode_hard_state bytes =
    (if length bytes \<noteq> RAFT_HARD_STATE_LEN then Inl (''hard-state wrong len: '' @ fmt_dec (length bytes))
     else
       let magic = from_le (subrange 0 4 bytes) :: u32; ver = from_le (subrange 4 8 bytes) :: u32
       in if magic \<noteq> RAFT_HARD_STATE_MAGIC then Inl (''bad hard-state magic: 0x'' @ fmt_radix 16 (unat magic))
          else if ver \<noteq> RAFT_HARD_STATE_VERSION
          then Inl (''unsupported hard-state version: '' @ fmt_dec (unat ver))
          else if crc32c (take 60 bytes) \<noteq> from_le (subrange 60 64 bytes) then Inl ''hard-state crc mismatch''
          else
            let voted_raw = from_le (subrange 16 24 bytes) :: u64
            in Inr \<lparr>hs_current_term = unat (from_le (subrange 8 16 bytes) :: u64),
                 hs_voted_for = (if voted_raw = 0 then None else Some voted_raw),
                 hs_last_included_index = unat (from_le (subrange 24 32 bytes) :: u64),
                 hs_last_included_term = unat (from_le (subrange 32 40 bytes) :: u64)\<rparr>)"

record log_frame =
  lf_index :: nat
  lf_term :: nat
  lf_command :: bytes

definition frame_crc :: "u64 \<Rightarrow> u64 \<Rightarrow> u32 \<Rightarrow> bytes \<Rightarrow> u32" where
  "frame_crc index trm len command = crc32c (u64_le index @ u64_le trm @ u32_le len @ command)"

definition encode_log_frame :: "log_frame \<Rightarrow> bytes" where
  "encode_log_frame f =
    (let index = word_of_nat (lf_index f); trm = word_of_nat (lf_term f); len = word_of_nat (length (lf_command f))
     in u32_le RAFT_LOG_FRAME_MAGIC @ u16_le RAFT_LOG_FRAME_VERSION @ [0, 0] @ u64_le index @ u64_le trm
        @ u32_le len @ u32_le (frame_crc index trm len (lf_command f)) @ lf_command f)"

definition encode_log_file :: "log_frame list \<Rightarrow> bytes" where
  "encode_log_file frames = concat (map encode_log_frame frames)"

function decode_log_loop :: "bytes \<Rightarrow> nat \<Rightarrow> string + log_frame list" where
  "decode_log_loop bytes offset =
    (if offset \<ge> length bytes then Inr []
     else if length bytes - offset < RAFT_LOG_FRAME_HEADER_LEN then Inl ''truncated log frame header''
     else
       let hdr = subrange offset (offset + RAFT_LOG_FRAME_HEADER_LEN) bytes
       in if (from_le (subrange 0 4 hdr) :: u32) \<noteq> RAFT_LOG_FRAME_MAGIC
          then Inl (''bad log frame magic at '' @ fmt_dec offset)
          else
            let index = from_le (subrange 8 16 hdr) :: u64; trm = from_le (subrange 16 24 hdr) :: u64;
                payload_len = from_le (subrange 24 28 hdr) :: u32; crc = from_le (subrange 28 32 hdr) :: u32;
                offset1 = offset + RAFT_LOG_FRAME_HEADER_LEN
            in if length bytes - offset1 < unat payload_len then Inl ''truncated log payload''
               else
                 let command = subrange offset1 (offset1 + unat payload_len) bytes
                 in if frame_crc index trm payload_len command \<noteq> crc
                    then Inl (''log frame crc mismatch at index '' @ fmt_dec (unat index))
                    else
                      res_bind (decode_log_loop bytes (offset1 + unat payload_len)) (\<lambda>frames.
                        Inr (\<lparr>lf_index = unat index, lf_term = unat trm, lf_command = command\<rparr> # frames)))"
  by pat_completeness auto
termination
  by (relation "measure (\<lambda>(bytes, offset). length bytes - offset)") (auto simp: raft_consts)

declare decode_log_loop.simps [simp del]

definition decode_log_file :: "bytes \<Rightarrow> string + log_frame list" where
  "decode_log_file bytes = decode_log_loop bytes 0"

text \<open>The frames of a log. The lookup cannot fail for an index in range, so the code's panic is not a branch.\<close>

definition memlog_to_frames :: "mem_log \<Rightarrow> log_frame list" where
  "memlog_to_frames l =
    List.map_filter (\<lambda>idx. map_option (\<lambda>e. \<lparr>lf_index = idx, lf_term = le_term e, lf_command = le_command e\<rparr>) (log_get l idx))
      [last_included_index l + 1..<last_index l + 1]"

text \<open>
  The loop asserts in builds with debug assertions that every frame has the next index of the log; the release build, which
  is modelled, ignores the index of a frame. The assertions are the separate predicate \<open>frames_in_sequence\<close>.
\<close>

definition frames_to_memlog :: "hard_state \<Rightarrow> log_frame list \<Rightarrow> mem_log" where
  "frames_to_memlog hs frames =
    (let l0 = (if hs_last_included_index hs > 0
               then log_install_snapshot (hs_last_included_index hs) (hs_last_included_term hs) [] memlog_new
               else memlog_new)
     in foldl (\<lambda>l f. log_append \<lparr>le_term = lf_term f, le_command = lf_command f\<rparr> l) l0 frames)"

fun frames_in_sequence :: "mem_log \<Rightarrow> log_frame list \<Rightarrow> bool" where
  "frames_in_sequence l [] \<longleftrightarrow> True"
| "frames_in_sequence l (f # fs) \<longleftrightarrow> lf_index f = last_index l + 1 \<and>
    frames_in_sequence (log_append \<lparr>le_term = lf_term f, le_command = lf_command f\<rparr> l) fs"

record persisted_raft_state =
  pr_hard_state :: hard_state
  pr_log :: mem_log

text \<open>Loading the two files, each of which may be absent. An error stands for a corrupt file.\<close>

definition raft_load :: "bytes option \<Rightarrow> bytes option \<Rightarrow> string + persisted_raft_state" where
  "raft_load hs_file log_file =
    res_bind (case hs_file of Some bytes \<Rightarrow> decode_hard_state bytes | None \<Rightarrow> Inr default_hard_state) (\<lambda>hs.
    res_bind
      (case log_file of
         Some bytes \<Rightarrow> res_bind (decode_log_file bytes) (\<lambda>frames. Inr (frames_to_memlog hs frames))
       | None \<Rightarrow> if hs_last_included_index hs > 0 then Inr (frames_to_memlog hs []) else Inr memlog_new) (\<lambda>l.
      Inr \<lparr>pr_hard_state = hs, pr_log = l\<rparr>))"

definition save_hard_state :: "hard_state \<Rightarrow> bytes" where
  "save_hard_state hs = encode_hard_state hs"

definition save_log :: "mem_log \<Rightarrow> bytes" where
  "save_log l = encode_log_file (memlog_to_frames l)"

section \<open>Laws of the log\<close>

lemma last_index_eq: "last_index l = last_included_index l + length (ml_entries l)"
  by (simp add: last_index_def)

lemma last_index_append [simp]: "last_index (log_append e l) = last_index l + 1"
  by (simp add: last_index_eq log_append_def)

lemma last_included_append [simp]:
  "last_included_index (log_append e l) = last_included_index l" "last_included_term (log_append e l) = last_included_term l"
  "ml_snapshot (log_append e l) = ml_snapshot l" "ml_entries (log_append e l) = ml_entries l @ [e]"
  by (simp_all add: log_append_def)

lemma nth_opt_append: "nth_opt (xs @ ys) i = (if i < length xs then Some (xs ! i) else nth_opt ys (i - length xs))"
  by (auto simp: nth_opt_def nth_append)

lemma log_get_append:
  "log_get (log_append e l) i = (if i = last_index l + 1 then Some e else log_get l i)"
  by (auto simp: log_get_def last_index_eq nth_opt_def nth_append)

lemma log_get_truncate:
  assumes "last_included_index l < n"
  shows "log_get (truncate_from n l) i = (if i < n then log_get l i else None)"
  using assms by (auto simp: log_get_def truncate_from_def nth_opt_def Let_def)

lemma truncate_length: "last_included_index l < n \<Longrightarrow> last_index (truncate_from n l) = min (last_index l) (n - 1)"
  by (auto simp: last_index_eq truncate_from_def Let_def min_def)

lemma truncate_frame [simp]:
  "last_included_index (truncate_from n l) = last_included_index l" "last_included_term (truncate_from n l) = last_included_term l"
  "ml_snapshot (truncate_from n l) = ml_snapshot l"
  by (simp_all add: truncate_from_def Let_def)

text \<open>Installing a snapshot drops a prefix and keeps every later entry where it was.\<close>

lemma log_get_install:
  "log_get (log_install_snapshot n t d l) i = (if i \<le> n then None else log_get l i)" if "last_included_index l < n"
  using that by (auto simp: log_get_def log_install_snapshot_def nth_opt_def Let_def)

lemma last_index_install: "last_included_index l < n \<Longrightarrow> last_index (log_install_snapshot n t d l) = max n (last_index l)"
  by (auto simp: last_index_eq log_install_snapshot_def Let_def)

section \<open>Round trips of the persistent form\<close>

lemma decode_encode_hard_state:
  assumes "hs_current_term hs < 2 ^ 64" "hs_last_included_index hs < 2 ^ 64" "hs_last_included_term hs < 2 ^ 64"
  shows "decode_hard_state (encode_hard_state hs) =
    Inr (hs\<lparr>hs_voted_for := (if hs_voted_for hs = Some 0 then None else hs_voted_for hs)\<rparr>)"
proof -
  let ?m = "u32_le RAFT_HARD_STATE_MAGIC" and ?w = "u32_le RAFT_HARD_STATE_VERSION"
    and ?t = "u64_le (word_of_nat (hs_current_term hs))" and ?v = "u64_le (case hs_voted_for hs of Some n \<Rightarrow> n | None \<Rightarrow> 0)"
    and ?i = "u64_le (word_of_nat (hs_last_included_index hs))" and ?j = "u64_le (word_of_nat (hs_last_included_term hs))"
  define buf where "buf = ?m @ ?w @ ?t @ ?v @ ?i @ ?j @ replicate 20 0"
  define bytes where "bytes = buf @ u32_le (crc32c buf)"
  have enc: "encode_hard_state hs = bytes" by (simp add: encode_hard_state_def buf_def bytes_def Let_def)
  have len: "length buf = 60" by (simp add: buf_def)
  have u: "unat (word_of_nat (hs_current_term hs) :: u64) = hs_current_term hs"
    "unat (word_of_nat (hs_last_included_index hs) :: u64) = hs_last_included_index hs"
    "unat (word_of_nat (hs_last_included_term hs) :: u64) = hs_last_included_term hs"
    using assms by (simp_all add: unat_of_nat)
  have r: "subrange 0 4 bytes = ?m" "subrange 4 8 bytes = ?w" "subrange 8 16 bytes = ?t" "subrange 16 24 bytes = ?v"
    "subrange 24 32 bytes = ?i" "subrange 32 40 bytes = ?j" "take 60 bytes = buf" "subrange 60 64 bytes = u32_le (crc32c buf)"
    using len by (simp_all add: bytes_def buf_def subrange_all)
  have "length bytes = 64" using len by (simp add: bytes_def)
  then show ?thesis unfolding enc
    by (cases "hs_voted_for hs") (simp_all add: decode_hard_state_def r u Let_def raft_consts)
qed

definition frame_fits :: "log_frame \<Rightarrow> bool" where
  "frame_fits f \<longleftrightarrow> lf_index f < 2 ^ 64 \<and> lf_term f < 2 ^ 64 \<and> length (lf_command f) < 2 ^ 32"

lemma encode_log_frame_length: "length (encode_log_frame f) = 32 + length (lf_command f)"
  by (simp add: encode_log_frame_def Let_def)

lemma decode_log_frame:
  assumes fit: "frame_fits f" and bytes: "bytes = pre @ encode_log_frame f @ suf"
  shows "decode_log_loop bytes (length pre) =
    res_bind (decode_log_loop bytes (length (pre @ encode_log_frame f))) (\<lambda>fs. Inr (f # fs))"
proof -
  let ?i = "word_of_nat (lf_index f) :: u64" and ?t = "word_of_nat (lf_term f) :: u64"
    and ?n = "word_of_nat (length (lf_command f)) :: u32"
  define hdr where "hdr = u32_le RAFT_LOG_FRAME_MAGIC @ u16_le RAFT_LOG_FRAME_VERSION @ [0, 0] @ u64_le ?i @ u64_le ?t
    @ u32_le ?n @ u32_le (frame_crc ?i ?t ?n (lf_command f))"
  have h: "length hdr = 32" by (simp add: hdr_def)
  have b: "bytes = pre @ hdr @ lf_command f @ suf" by (simp add: bytes encode_log_frame_def hdr_def Let_def)
  have s: "subrange (length pre) (length pre + 32) bytes = hdr"
    "subrange (length pre + 32) (length pre + 32 + length (lf_command f)) bytes = lf_command f"
    using h by (simp_all add: b subrange_all)
  have r: "subrange 0 4 hdr = u32_le RAFT_LOG_FRAME_MAGIC" "subrange 8 16 hdr = u64_le ?i" "subrange 16 24 hdr = u64_le ?t"
    "subrange 24 28 hdr = u32_le ?n" "subrange 28 32 hdr = u32_le (frame_crc ?i ?t ?n (lf_command f))"
  proof -
    define z where "z = [0 :: u8, 0]"
    have "length z = 2" by (simp add: z_def)
    then show "subrange 0 4 hdr = u32_le RAFT_LOG_FRAME_MAGIC" "subrange 8 16 hdr = u64_le ?i" "subrange 16 24 hdr = u64_le ?t"
      "subrange 24 28 hdr = u32_le ?n" "subrange 28 32 hdr = u32_le (frame_crc ?i ?t ?n (lf_command f))"
      unfolding hdr_def z_def[symmetric] by (simp_all add: subrange_all)
  qed
  have u: "unat ?n = length (lf_command f)" "unat ?i = lf_index f" "unat ?t = lf_term f"
    using fit by (simp_all add: frame_fits_def unat_of_nat)
  have l: "length (pre @ encode_log_frame f) = length pre + 32 + length (lf_command f)"
    by (simp add: encode_log_frame_length)
  have "length bytes = length pre + 32 + length (lf_command f) + length suf" using h by (simp add: b)
  then show ?thesis
    unfolding l by (subst decode_log_loop.simps) (simp add: raft_consts(6) s r u Let_def, cases f, simp)
qed

lemma decode_log_loop_encs:
  assumes "list_all frame_fits fs" and "bytes = pre @ encode_log_file fs"
  shows "decode_log_loop bytes (length pre) = Inr fs"
  using assms
proof (induction fs arbitrary: pre)
  case Nil
  then show ?case by (simp add: encode_log_file_def decode_log_loop.simps)
next
  case (Cons f fs)
  have b: "bytes = pre @ encode_log_frame f @ encode_log_file fs" using Cons.prems(2) by (simp add: encode_log_file_def)
  have "decode_log_loop bytes (length (pre @ encode_log_frame f)) = Inr fs"
    using Cons.prems(1) b by (intro Cons.IH) simp_all
  then show ?case using decode_log_frame[OF _ b] Cons.prems(1) by simp
qed

lemma decode_encode_log_file: "list_all frame_fits fs \<Longrightarrow> decode_log_file (encode_log_file fs) = Inr fs"
  using decode_log_loop_encs[of fs "encode_log_file fs" "[]"] by (simp add: decode_log_file_def)

lemma memlog_to_frames_eq:
  "memlog_to_frames l =
    map (\<lambda>(i, e). \<lparr>lf_index = i, lf_term = le_term e, lf_command = le_command e\<rparr>)
      (zip [last_included_index l + 1..<last_index l + 1] (ml_entries l))"
proof -
  have "log_get l i = Some (ml_entries l ! (i - (last_included_index l + 1)))"
    if "i \<in> set [last_included_index l + 1..<last_index l + 1]" for i
    using that by (auto simp: log_get_def nth_opt_def last_index_eq)
  then have "memlog_to_frames l =
      map (\<lambda>i. \<lparr>lf_index = i, lf_term = le_term (ml_entries l ! (i - (last_included_index l + 1))),
        lf_command = le_command (ml_entries l ! (i - (last_included_index l + 1)))\<rparr>) [last_included_index l + 1..<last_index l + 1]"
    unfolding memlog_to_frames_def List.map_filter_def by (auto intro!: filter_True simp del: upt_Suc)
  also have "\<dots> = map (\<lambda>(i, e). \<lparr>lf_index = i, lf_term = le_term e, lf_command = le_command e\<rparr>)
      (zip [last_included_index l + 1..<last_index l + 1] (ml_entries l))"
    by (rule nth_equalityI) (auto simp: last_index_eq simp del: upt_Suc)
  finally show ?thesis .
qed

lemma foldl_log_append:
  "foldl (\<lambda>l f. log_append \<lparr>le_term = lf_term f, le_command = lf_command f\<rparr> l) l0 fs =
    l0\<lparr>ml_entries := ml_entries l0 @ map (\<lambda>f. \<lparr>le_term = lf_term f, le_command = lf_command f\<rparr>) fs\<rparr>"
  by (induction fs arbitrary: l0) (simp_all add: log_append_def)

lemma frames_entries: "map (\<lambda>f. \<lparr>le_term = lf_term f, le_command = lf_command f\<rparr>) (memlog_to_frames l) = ml_entries l"
  by (rule nth_equalityI) (auto simp: memlog_to_frames_eq last_index_eq simp del: upt_Suc)

lemma memlog_frames_roundtrip:
  assumes "hs_last_included_index hs = last_included_index l" "hs_last_included_term hs = last_included_term l"
    and "last_included_index l = 0 \<longrightarrow> last_included_term l = 0"
  shows "frames_to_memlog hs (memlog_to_frames l) =
    l\<lparr>ml_snapshot := (if last_included_index l = 0 then None else Some [])\<rparr>"
proof -
  have "l = \<lparr>ml_entries = ml_entries l, last_included_index = last_included_index l,
      last_included_term = last_included_term l, ml_snapshot = ml_snapshot l\<rparr>" by simp
  then show ?thesis
    using assms unfolding frames_to_memlog_def Let_def foldl_log_append frames_entries
    by (auto simp: log_install_snapshot_def memlog_new_def Let_def)
qed

text \<open>The frames of a log satisfy the assertions when they are loaded behind its own boundary.\<close>

lemma frames_in_sequence_upt:
  "frames_in_sequence l0 (map (\<lambda>(i, e). \<lparr>lf_index = i, lf_term = le_term e, lf_command = le_command e\<rparr>)
    (zip [last_index l0 + 1..<last_index l0 + 1 + length es] es))"
proof (induction es arbitrary: l0)
  case (Cons e es)
  show ?case using Cons[of "log_append \<lparr>le_term = le_term e, le_command = le_command e\<rparr> l0"]
    by (simp add: upt_conv_Cons del: upt_Suc)
qed simp

lemma frames_in_sequence_saved: "last_index l0 = last_included_index l \<Longrightarrow> frames_in_sequence l0 (memlog_to_frames l)"
  using frames_in_sequence_upt[of l0 "ml_entries l"] by (simp add: memlog_to_frames_eq last_index_eq[of l] add.commute)

lemma frames_fit:
  assumes "last_index l < 2 ^ 64" "\<forall>e \<in> set (ml_entries l). le_term e < 2 ^ 64 \<and> length (le_command e) < 2 ^ 32"
  shows "list_all frame_fits (memlog_to_frames l)"
proof -
  have "frame_fits f" if f: "f \<in> set (memlog_to_frames l)" for f
  proof -
    obtain i e where "f = \<lparr>lf_index = i, lf_term = le_term e, lf_command = le_command e\<rparr>"
      "(i, e) \<in> set (zip [last_included_index l + 1..<last_index l + 1] (ml_entries l))"
      using f unfolding memlog_to_frames_eq by auto
    moreover from this(2) have "i \<le> last_index l" "e \<in> set (ml_entries l)"
      using set_zip_leftD[of i e] set_zip_rightD[of i e] by (fastforce simp del: upt_Suc)+
    ultimately show ?thesis using assms by (auto simp: frame_fits_def)
  qed
  then show ?thesis by (simp add: list_all_iff)
qed

text \<open>What a load returns for the files of a hard state and a log, whether or not the two belong together.\<close>

definition vote_read_back :: "hard_state \<Rightarrow> hard_state" where
  "vote_read_back hs = hs\<lparr>hs_voted_for := (if hs_voted_for hs = Some 0 then None else hs_voted_for hs)\<rparr>"

definition log_fits :: "mem_log \<Rightarrow> bool" where
  "log_fits l \<longleftrightarrow> last_index l < 2 ^ 64 \<and> (\<forall>e \<in> set (ml_entries l). le_term e < 2 ^ 64 \<and> length (le_command e) < 2 ^ 32)"

lemma raft_load_saved:
  assumes "hs_current_term hs < 2 ^ 64" and "hs_last_included_index hs < 2 ^ 64" and "hs_last_included_term hs < 2 ^ 64"
    and "log_fits l"
  shows "raft_load (Some (save_hard_state hs)) (Some (save_log l)) =
    Inr \<lparr>pr_hard_state = vote_read_back hs, pr_log = frames_to_memlog (vote_read_back hs) (memlog_to_frames l)\<rparr>"
proof -
  have "decode_hard_state (encode_hard_state hs) = Inr (vote_read_back hs)"
    unfolding vote_read_back_def using assms by (intro decode_encode_hard_state) simp_all
  then show ?thesis
    using decode_encode_log_file[OF frames_fit[of l]] assms(4)
    by (simp add: raft_load_def save_hard_state_def save_log_def log_fits_def)
qed

lemma frames_to_memlog_saved:
  "ml_entries (frames_to_memlog hs (memlog_to_frames l)) = ml_entries l"
  "last_included_index (frames_to_memlog hs (memlog_to_frames l)) = hs_last_included_index hs"
  unfolding frames_to_memlog_def Let_def foldl_log_append frames_entries
  by (simp_all add: log_install_snapshot_def memlog_new_def)

section \<open>Properties\<close>

text \<open>
  C23. What a Raft node loads after a restart. From the files written by its last save it gets back its
  term, its log entries and the snapshot boundary; a vote for node 0 is read back as no vote, and the bytes
  of the snapshot are gone.
\<close>

theorem raft_storage_roundtrip:
  assumes "hs_last_included_index hs = last_included_index l" and "hs_last_included_term hs = last_included_term l"
    and "last_included_index l = 0 \<longrightarrow> last_included_term l = 0"
    and "hs_current_term hs < 2 ^ 64" and "last_index l < 2 ^ 64" and "last_included_term l < 2 ^ 64"
    and "\<forall>e \<in> set (ml_entries l). le_term e < 2 ^ 64 \<and> length (le_command e) < 2 ^ 32"
  shows "raft_load (Some (save_hard_state hs)) (Some (save_log l)) =
    Inr \<lparr>pr_hard_state = hs\<lparr>hs_voted_for := (if hs_voted_for hs = Some 0 then None else hs_voted_for hs)\<rparr>,
      pr_log = l\<lparr>ml_snapshot := (if last_included_index l = 0 then None else Some [])\<rparr>\<rparr>"
proof -
  have "last_included_index l \<le> last_index l" by (simp add: last_index_eq)
  then show ?thesis
    using assms raft_load_saved[of hs l] memlog_frames_roundtrip[of "vote_read_back hs" l]
    by (simp add: log_fits_def vote_read_back_def)
qed

theorem raft_storage_roundtrip_witness:
  "raft_load (Some (save_hard_state \<lparr>hs_current_term = 3, hs_voted_for = Some 0, hs_last_included_index = 0, hs_last_included_term = 0\<rparr>))
     (Some (save_log (memlog_new\<lparr>ml_entries := [\<lparr>le_term = 2, le_command = [7]\<rparr>]\<rparr>))) =
   Inr \<lparr>pr_hard_state = \<lparr>hs_current_term = 3, hs_voted_for = None, hs_last_included_index = 0, hs_last_included_term = 0\<rparr>,
     pr_log = memlog_new\<lparr>ml_entries := [\<lparr>le_term = 2, le_command = [7]\<rparr>]\<rparr>\<rparr>"
  using raft_storage_roundtrip
    [of "\<lparr>hs_current_term = 3, hs_voted_for = Some 0, hs_last_included_index = 0, hs_last_included_term = 0\<rparr>"
        "memlog_new\<lparr>ml_entries := [\<lparr>le_term = 2, le_command = [7]\<rparr>]\<rparr>"]
  by (simp add: memlog_new_def last_index_eq)

text \<open>
  C24. The hard state and the log are two files, replaced one after the other. After a crash between the
  two writes of a compaction, with a new snapshot boundary in the hard state and the frames of the log from before it, the
  load of a release build succeeds and places every old frame behind the new boundary: each entry reappears at an index
  higher than its own by the distance of the two boundaries. In a build with debug assertions the load panics, as the
  first frame does not follow the boundary.
\<close>

theorem raft_load_mixed_boundary:
  assumes "hs_last_included_index hs = n" and "last_included_index l < n" and "n < 2 ^ 64" and "hs_last_included_term hs < 2 ^ 64"
    and "hs_current_term hs < 2 ^ 64" and "log_fits l"
  shows "\<exists>st. raft_load (Some (save_hard_state hs)) (Some (save_log l)) = Inr st \<and>
    (\<forall>i. 0 < i \<longrightarrow> log_get (pr_log st) (n + i) = log_get l (last_included_index l + i)) \<and>
    (ml_entries l \<noteq> [] \<longrightarrow> \<not> frames_in_sequence
      (log_install_snapshot n (hs_last_included_term hs) [] memlog_new) (memlog_to_frames l))"
proof -
  let ?m = "frames_to_memlog (vote_read_back hs) (memlog_to_frames l)"
  have ld: "raft_load (Some (save_hard_state hs)) (Some (save_log l)) =
      Inr \<lparr>pr_hard_state = vote_read_back hs, pr_log = ?m\<rparr>"
    using assms by (intro raft_load_saved) simp_all
  have get: "log_get ?m (n + i) = log_get l (last_included_index l + i)" if "0 < i" for i
    using that assms(1) by (simp add: log_get_def frames_to_memlog_saved vote_read_back_def)
  have "\<not> frames_in_sequence (log_install_snapshot n t [] memlog_new) (memlog_to_frames l)" if "ml_entries l \<noteq> []" for t
  proof -
    have "last_index l + 1 > last_included_index l + 1" using that by (simp add: last_index_eq)
    then have "memlog_to_frames l \<noteq> []" "lf_index (hd (memlog_to_frames l)) = last_included_index l + 1"
      using that by (cases "ml_entries l"; simp add: memlog_to_frames_eq upt_conv_Cons last_index_eq del: upt_Suc)+
    then show ?thesis using assms(2)
      by (cases "memlog_to_frames l") (auto simp: last_index_eq log_install_snapshot_def memlog_new_def Let_def)
  qed
  then show ?thesis using ld get by auto
qed

theorem raft_load_mixed_boundary_witness:
  "\<exists>st. raft_load (Some (save_hard_state \<lparr>hs_current_term = 3, hs_voted_for = None, hs_last_included_index = 1, hs_last_included_term = 2\<rparr>))
       (Some (save_log (memlog_new\<lparr>ml_entries := [\<lparr>le_term = 2, le_command = [7]\<rparr>]\<rparr>))) = Inr st \<and>
     log_get (pr_log st) 2 = Some \<lparr>le_term = 2, le_command = [7]\<rparr>"
proof -
  let ?hs = "\<lparr>hs_current_term = 3, hs_voted_for = None, hs_last_included_index = 1, hs_last_included_term = 2\<rparr> :: hard_state"
  let ?l = "memlog_new\<lparr>ml_entries := [\<lparr>le_term = 2, le_command = [7]\<rparr>]\<rparr>"
  have "log_fits ?l" "last_included_index ?l = 0" by (simp_all add: log_fits_def memlog_new_def last_index_eq)
  then obtain st where "raft_load (Some (save_hard_state ?hs)) (Some (save_log ?l)) = Inr st"
    "\<forall>i. 0 < i \<longrightarrow> log_get (pr_log st) (1 + i) = log_get ?l i"
    using raft_load_mixed_boundary[of ?hs 1 ?l] by auto
  moreover have "log_get ?l 1 = Some \<lparr>le_term = 2, le_command = [7]\<rparr>" by (simp add: log_get_def memlog_new_def nth_opt_def)
  ultimately show ?thesis by (intro exI[of _ st]) (metis one_add_one zero_less_one)
qed

end
