(* ===== verification/Raft_Node.thy ===== *)
theory Raft_Node
  imports Raft_Log Raft_Command Btree_Map
begin

text \<open>
  A Raft node, \<^verbatim>\<open>src/crates/kaya-raft/src/node.rs\<close>, with its messages (\<^verbatim>\<open>message.rs\<close>) and cluster
  configurations (\<^verbatim>\<open>cluster_config.rs\<close>): every operation that changes the node's state, as a function from a node
  to the node after it and the messages it sends. Hash sets are lists without duplicates; hash maps are
  sorted maps, so where the code iterates over the keys of a hash map in no particular order, the model
  takes them in ascending order.
\<close>

section \<open>Cluster configurations\<close>

record cluster_configuration =
  voters :: "u64 list"

definition from_voters :: "u64 list \<Rightarrow> cluster_configuration" where
  "from_voters ids = \<lparr>voters = sorted_list_of_set (set ids)\<rparr>"

definition quorum :: "cluster_configuration \<Rightarrow> nat" where
  "quorum c = (length (voters c) + 1) div 2"

definition peers_of :: "u64 \<Rightarrow> cluster_configuration \<Rightarrow> u64 list" where
  "peers_of self_id c = filter (\<lambda>i. i \<noteq> self_id) (voters c)"

datatype effective_config = StableConfig cluster_configuration | JointConfig cluster_configuration cluster_configuration

fun stable_config :: "effective_config \<Rightarrow> cluster_configuration" where
  "stable_config (StableConfig c) = c"
| "stable_config (JointConfig outgoing incoming) = incoming"

fun all_voters :: "effective_config \<Rightarrow> u64 list" where
  "all_voters (StableConfig c) = voters c"
| "all_voters (JointConfig outgoing incoming) = sorted_list_of_set (set (voters outgoing @ voters incoming))"

fun commit_quorum_met :: "effective_config \<Rightarrow> (u64 \<Rightarrow> bool) \<Rightarrow> bool" where
  "commit_quorum_met (StableConfig c) matched \<longleftrightarrow> length (filter matched (voters c)) \<ge> quorum c"
| "commit_quorum_met (JointConfig outgoing incoming) matched \<longleftrightarrow>
    length (filter matched (voters outgoing)) \<ge> quorum outgoing \<and>
    length (filter matched (voters incoming)) \<ge> quorum incoming"

fun election_quorum :: "effective_config \<Rightarrow> nat" where
  "election_quorum (StableConfig c) = quorum c"
| "election_quorum (JointConfig outgoing incoming) =
    (max (length (voters outgoing)) (length (voters incoming)) + 1) div 2"

section \<open>Messages\<close>

datatype message =
    VoteRequest nat u64 nat nat
  | VoteResponse nat bool
  | AppendRequest nat u64 nat nat "log_entry list" nat
  | AppendResponse nat bool nat
  | InstallSnapshotRequest nat u64 nat nat bytes
  | InstallSnapshotResponse nat bool
  | ConfigChangeRequest nat "u64 list" "u64 list"
  | ConfigChangeResponse nat bool

fun message_term :: "message \<Rightarrow> nat" where
  "message_term (VoteRequest t _ _ _) = t"
| "message_term (VoteResponse t _) = t"
| "message_term (AppendRequest t _ _ _ _ _) = t"
| "message_term (AppendResponse t _ _) = t"
| "message_term (InstallSnapshotRequest t _ _ _ _) = t"
| "message_term (InstallSnapshotResponse t _) = t"
| "message_term (ConfigChangeRequest t _ _) = t"
| "message_term (ConfigChangeResponse t _) = t"

record envelope =
  env_from :: u64
  env_to :: u64
  env_group :: u64
  env_message :: message

definition envelope_new :: "u64 \<Rightarrow> u64 \<Rightarrow> message \<Rightarrow> envelope" where
  "envelope_new from to m = \<lparr>env_from = from, env_to = to, env_group = 0, env_message = m\<rparr>"

section \<open>State of a node\<close>

datatype role = Follower | Candidate | Leader

record raft_config =
  rc_id :: u64
  rc_peers :: "u64 list"
  election_timeout_ticks :: nat
  heartbeat_interval_ticks :: nat

record pending_read =
  rd_request_id :: u64
  rd_read_index :: nat
  rd_term :: nat
  rd_ack_seq :: nat
  rd_acks :: "u64 list"

record raft_node =
  rn_config :: raft_config
  current_term :: nat
  voted_for :: "u64 option"
  rn_log :: mem_log
  commit_index :: nat
  last_applied :: nat
  rn_role :: role
  leader_id :: "u64 option"
  election_ticks :: nat
  votes_received :: "u64 list"
  next_index :: "(u64, nat) btree_map"
  match_index :: "(u64, nat) btree_map"
  heartbeat_ticks :: nat
  applied_entries :: "(nat \<times> nat \<times> bytes) list"
  pending_reads :: "pending_read list"
  current_ack_seq :: nat
  last_sent_ack_seq :: "(u64, nat) btree_map"
  ready_reads :: "u64 list"
  pending_snapshot :: "(nat \<times> nat \<times> bytes) option"
  effective_config_of :: effective_config
  current_membership :: "cluster_member list"
  pending_membership :: "cluster_member list option"

abbreviation node_id :: "raft_node \<Rightarrow> u64" where
  "node_id n \<equiv> rc_id (rn_config n)"

definition map_or :: "nat \<Rightarrow> u64 \<Rightarrow> (u64, nat) btree_map \<Rightarrow> nat" where
  "map_or d k m = (case bt_get k m of Some v \<Rightarrow> v | None \<Rightarrow> d)"

definition members_from_voter_ids :: "u64 list \<Rightarrow> cluster_member list" where
  "members_from_voter_ids ids = map (\<lambda>i. member_voter i [] []) ids"

definition node_from_state :: "raft_config \<Rightarrow> nat \<Rightarrow> u64 option \<Rightarrow> mem_log \<Rightarrow> raft_node" where
  "node_from_state config trm vote l =
    (let vs = sorted_list_of_set (insert (rc_id config) (set (rc_peers config)))
     in \<lparr>rn_config = config, current_term = trm, voted_for = vote, rn_log = l, commit_index = 0, last_applied = 0,
         rn_role = Follower, leader_id = None, election_ticks = 0, votes_received = [], next_index = bt_empty,
         match_index = bt_empty, heartbeat_ticks = 0, applied_entries = [], pending_reads = [], current_ack_seq = 0,
         last_sent_ack_seq = bt_empty, ready_reads = [], pending_snapshot = None,
         effective_config_of = StableConfig \<lparr>voters = vs\<rparr>, current_membership = members_from_voter_ids vs,
         pending_membership = None\<rparr>)"

definition node_new :: "raft_config \<Rightarrow> raft_node" where
  "node_new config = node_from_state config 0 None memlog_new"

definition node_recover :: "raft_config \<Rightarrow> persisted_raft_state \<Rightarrow> raft_node" where
  "node_recover config st =
    node_from_state config (hs_current_term (pr_hard_state st)) (hs_voted_for (pr_hard_state st)) (pr_log st)"

definition persist_view :: "raft_node \<Rightarrow> persisted_raft_state" where
  "persist_view n =
    \<lparr>pr_hard_state = \<lparr>hs_current_term = current_term n, hs_voted_for = voted_for n,
       hs_last_included_index = last_included_index (rn_log n), hs_last_included_term = last_included_term (rn_log n)\<rparr>,
     pr_log = rn_log n\<rparr>"

definition set_recovered_apply_floor :: "nat \<Rightarrow> raft_node \<Rightarrow> raft_node" where
  "set_recovered_apply_floor la n = n\<lparr>last_applied := la, commit_index := la\<rparr>"

record raft_status =
  rs_id :: u64
  rs_role :: role
  rs_current_term :: nat
  rs_commit_index :: nat
  rs_last_applied :: nat
  rs_leader_id :: "u64 option"

definition node_status :: "raft_node \<Rightarrow> raft_status" where
  "node_status n =
    \<lparr>rs_id = node_id n, rs_role = rn_role n, rs_current_term = current_term n, rs_commit_index = commit_index n,
     rs_last_applied = last_applied n, rs_leader_id = leader_id n\<rparr>"

section \<open>Helpers\<close>

definition node_quorum :: "raft_node \<Rightarrow> nat" where
  "node_quorum n = quorum (stable_config (effective_config_of n))"

definition commit_step :: "nat \<Rightarrow> raft_node \<Rightarrow> raft_node" where
  "commit_step k n =
    (if term_at (rn_log n) k \<noteq> Some (current_term n) then n
     else if commit_quorum_met (effective_config_of n) (\<lambda>i. map_or 0 i (match_index n) \<ge> k)
     then n\<lparr>commit_index := k\<rparr> else n)"

definition try_advance_commit :: "raft_node \<Rightarrow> raft_node" where
  "try_advance_commit n =
    (if rn_role n \<noteq> Leader then n else fold commit_step [commit_index n + 1..<last_index (rn_log n) + 1] n)"

definition member_flag :: "u64 \<Rightarrow> cluster_member list \<Rightarrow> bool option" where
  "member_flag i ms = map_option is_learner (find (\<lambda>m. cm_id m = i) ms)"

definition is_self_learner :: "raft_node \<Rightarrow> bool" where
  "is_self_learner n =
    (case (case pending_membership n of Some ms \<Rightarrow> member_flag (node_id n) ms | None \<Rightarrow> None) of
       Some f \<Rightarrow> f
     | None \<Rightarrow> (case member_flag (node_id n) (current_membership n) of Some f \<Rightarrow> f | None \<Rightarrow> False))"

definition is_self_voter :: "raft_node \<Rightarrow> bool" where
  "is_self_voter n \<longleftrightarrow> node_id n \<in> set (all_voters (effective_config_of n))"

definition sync_peers :: "raft_node \<Rightarrow> raft_node" where
  "sync_peers n =
    n\<lparr>rn_config := (rn_config n)\<lparr>rc_peers := peers_of (node_id n) (stable_config (effective_config_of n))\<rparr>\<rparr>"

definition or_insert :: "u64 \<Rightarrow> nat \<Rightarrow> (u64, nat) btree_map \<Rightarrow> (u64, nat) btree_map" where
  "or_insert k v m = (if bt_contains k m then m else bt_insert k v m)"

definition seed_member :: "cluster_member \<Rightarrow> raft_node \<Rightarrow> raft_node" where
  "seed_member m n =
    (if cm_id m \<noteq> node_id n
     then n\<lparr>next_index := or_insert (cm_id m) (last_index (rn_log n) + 1) (next_index n),
            match_index := or_insert (cm_id m) 0 (match_index n)\<rparr>
     else n)"

definition seed_replication :: "cluster_member list \<Rightarrow> raft_node \<Rightarrow> raft_node" where
  "seed_replication ms n = fold seed_member ms n"

definition step_down :: "nat \<Rightarrow> raft_node \<Rightarrow> raft_node" where
  "step_down new_term n =
    n\<lparr>current_term := new_term, voted_for := None, rn_role := Follower, leader_id := None, election_ticks := 0,
      votes_received := [], pending_reads := []\<rparr>"

definition step_down_keeping_vote :: "raft_node \<Rightarrow> raft_node" where
  "step_down_keeping_vote n =
    n\<lparr>rn_role := Follower, leader_id := None, election_ticks := 0, votes_received := [], pending_reads := []\<rparr>"

definition own_match :: "nat \<Rightarrow> raft_node \<Rightarrow> raft_node" where
  "own_match index n =
    n\<lparr>match_index := bt_insert (node_id n) index (match_index n),
      next_index := bt_insert (node_id n) (index + 1) (next_index n)\<rparr>"

definition append_own :: "bytes \<Rightarrow> raft_node \<Rightarrow> raft_node" where
  "append_own command n =
    own_match (last_index (rn_log n) + 1)
      (n\<lparr>rn_log := log_append \<lparr>le_term = current_term n, le_command = command\<rparr> (rn_log n)\<rparr>)"

definition send_append_to :: "u64 \<Rightarrow> raft_node \<Rightarrow> raft_node \<times> envelope list" where
  "send_append_to peer n =
    (let n1 = n\<lparr>last_sent_ack_seq := bt_insert peer (current_ack_seq n) (last_sent_ack_seq n)\<rparr>;
         l = rn_log n1;
         nxt = map_or (last_index l + 1) peer (next_index n1);
         snap_idx = last_included_index l;
         append = AppendRequest (current_term n1) (node_id n1) (nxt - 1)
           (case term_at l (nxt - 1) of Some t \<Rightarrow> t | None \<Rightarrow> 0) (entries_from nxt l) (commit_index n1)
     in (n1,
         [envelope_new (node_id n1) peer
            (if nxt \<le> snap_idx \<and> snap_idx > 0
             then (case log_snapshot l of
                     Some (idx, t, data) \<Rightarrow> InstallSnapshotRequest (current_term n1) (node_id n1) idx t data
                   | None \<Rightarrow> append)
             else append)]))"

fun send_to_each :: "u64 list \<Rightarrow> raft_node \<Rightarrow> raft_node \<times> envelope list" where
  "send_to_each [] n = (n, [])"
| "send_to_each (p # ps) n =
    (let (n1, out1) = send_append_to p n; (n2, out2) = send_to_each ps n1 in (n2, out1 @ out2))"

definition send_targets :: "raft_node \<Rightarrow> u64 list" where
  "send_targets n =
    fold (\<lambda>i ts. if i \<noteq> node_id n \<and> i \<notin> set ts then ts @ [i] else ts) (map fst (next_index n)) (rc_peers (rn_config n))"

definition send_append_to_all :: "raft_node \<Rightarrow> raft_node \<times> envelope list" where
  "send_append_to_all n = send_to_each (send_targets n) n"

definition apply_config_command ::
  "config_change_phase \<Rightarrow> cluster_member list \<Rightarrow> raft_node \<Rightarrow> raft_node \<times> envelope list" where
  "apply_config_command phase members n =
    (let voter_set = voter_ids members;
         (n1, out) =
           (case phase of
              Joint \<Rightarrow>
                let n0 = seed_replication members (sync_peers (n\<lparr>
                      effective_config_of := JointConfig (stable_config (effective_config_of n)) (from_voters voter_set),
                      current_membership := members\<rparr>))
                in if rn_role n0 = Leader
                   then (case pending_membership n0 of
                           Some final_members \<Rightarrow>
                             let (n2, out) = send_append_to_all (append_own
                                   (command_encode (CmdConfigChange Final final_members)) (n0\<lparr>pending_membership := None\<rparr>))
                             in (try_advance_commit n2, out)
                         | None \<Rightarrow> (n0, []))
                   else (n0, [])
            | Final \<Rightarrow>
                (seed_replication members ((sync_peers (n\<lparr>effective_config_of := StableConfig (from_voters voter_set),
                   current_membership := members\<rparr>))\<lparr>pending_membership := None\<rparr>), []))
     in (if \<not> is_self_voter n1 \<and> rn_role n1 \<noteq> Follower then step_down_keeping_vote n1 else n1, out))"

definition check_pending_reads :: "raft_node \<Rightarrow> raft_node" where
  "check_pending_reads n =
    (if rn_role n \<noteq> Leader then n
     else
       let ready = (\<lambda>r. length (rd_acks r) \<ge> node_quorum n \<and> last_applied n \<ge> rd_read_index r)
       in n\<lparr>pending_reads := filter (\<lambda>r. \<not> ready r) (pending_reads n),
            ready_reads := ready_reads n @ map rd_request_id (filter ready (pending_reads n))\<rparr>)"

text \<open>One round of applying a committed entry.\<close>

definition apply_next :: "raft_node \<Rightarrow> raft_node \<times> envelope list" where
  "apply_next n =
    (let n1 = n\<lparr>last_applied := last_applied n + 1\<rparr>
     in case log_get (rn_log n1) (last_applied n1) of
          None \<Rightarrow> (n1, [])
        | Some e \<Rightarrow>
            let (n2, out) =
              (case command_decode (le_command e) of
                 Inr (CmdConfigChange phase members) \<Rightarrow> apply_config_command phase members n1
               | _ \<Rightarrow> (n1, []))
            in (n2\<lparr>applied_entries := applied_entries n2 @ [(last_applied n2, le_term e, le_command e)]\<rparr>, out))"


subsection \<open>The apply loop ends\<close>

lemma send_append_to_frame [simp]:
  "fst (send_append_to p n) = n\<lparr>last_sent_ack_seq := bt_insert p (current_ack_seq n) (last_sent_ack_seq n)\<rparr>"
  by (simp add: send_append_to_def Let_def)

lemma send_to_each_frame: "\<exists>m. fst (send_to_each ps n) = n\<lparr>last_sent_ack_seq := m\<rparr>"
proof (induction ps arbitrary: n)
  case Nil
  show ?case by (intro exI[of _ "last_sent_ack_seq n"]) simp
next
  case (Cons p ps)
  obtain m where "fst (send_to_each ps (fst (send_append_to p n))) = (fst (send_append_to p n))\<lparr>last_sent_ack_seq := m\<rparr>"
    using Cons.IH by blast
  then have "fst (send_to_each (p # ps) n) = n\<lparr>last_sent_ack_seq := m\<rparr>"
    by (simp add: Let_def case_prod_beta)
  then show ?case by blast
qed

lemma send_append_to_all_frame: "\<exists>m. fst (send_append_to_all n) = n\<lparr>last_sent_ack_seq := m\<rparr>"
  by (simp add: send_append_to_all_def send_to_each_frame)

lemma commit_step_frame: "commit_step k n = n\<lparr>commit_index := commit_index (commit_step k n)\<rparr>"
  by (simp add: commit_step_def)

lemma fold_commit_frame: "\<exists>c. fold commit_step ks n = n\<lparr>commit_index := c\<rparr>"
proof (induction ks arbitrary: n)
  case Nil
  show ?case by (intro exI[of _ "commit_index n"]) simp
next
  case (Cons k ks)
  obtain c where "fold commit_step ks (commit_step k n) = (commit_step k n)\<lparr>commit_index := c\<rparr>"
    using Cons.IH by blast
  then have "fold commit_step (k # ks) n = n\<lparr>commit_index := c\<rparr>" by (subst (asm) (2) commit_step_frame) simp
  then show ?case by blast
qed

lemma try_advance_commit_frame: "\<exists>c. try_advance_commit n = n\<lparr>commit_index := c\<rparr>"
proof (cases "rn_role n = Leader")
  case True
  then show ?thesis by (simp add: try_advance_commit_def fold_commit_frame)
next
  case False
  then have "try_advance_commit n = n\<lparr>commit_index := commit_index n\<rparr>" by (simp add: try_advance_commit_def)
  then show ?thesis by blast
qed

lemma seed_member_frame:
  "seed_member m n = n\<lparr>next_index := next_index (seed_member m n), match_index := match_index (seed_member m n)\<rparr>"
  by (simp add: seed_member_def)

lemma seed_replication_frame: "\<exists>a b. seed_replication ms n = n\<lparr>next_index := a, match_index := b\<rparr>"
  unfolding seed_replication_def
proof (induction ms arbitrary: n)
  case Nil
  show ?case by (intro exI[of _ "next_index n"] exI[of _ "match_index n"]) simp
next
  case (Cons m ms)
  obtain a b where "fold seed_member ms (seed_member m n) = (seed_member m n)\<lparr>next_index := a, match_index := b\<rparr>"
    using Cons.IH by blast
  then have "fold seed_member (m # ms) n = n\<lparr>next_index := a, match_index := b\<rparr>"
    by (subst (asm) (2) seed_member_frame) simp
  then show ?case by blast
qed

text \<open>What applying a configuration leaves alone, and how it moves the commit index.\<close>

lemma append_own_simps [simp]:
  "rn_log (append_own c n) = log_append \<lparr>le_term = current_term n, le_command = c\<rparr> (rn_log n)"
  "current_term (append_own c n) = current_term n" "voted_for (append_own c n) = voted_for n"
  "rn_role (append_own c n) = rn_role n" "last_applied (append_own c n) = last_applied n"
  "commit_index (append_own c n) = commit_index n" "pending_membership (append_own c n) = pending_membership n"
  "applied_entries (append_own c n) = applied_entries n" "rn_config (append_own c n) = rn_config n"
  "votes_received (append_own c n) = votes_received n" "effective_config_of (append_own c n) = effective_config_of n"
  "current_membership (append_own c n) = current_membership n" "leader_id (append_own c n) = leader_id n"
  by (simp_all add: append_own_def own_match_def)

lemma fold_commit_bounds:
  "commit_index n < a \<Longrightarrow> commit_index n \<le> commit_index (fold commit_step [a..<b] n) \<and>
    commit_index (fold commit_step [a..<b] n) \<le> max (commit_index n) (b - 1)"
proof (induction "b - a" arbitrary: a n)
  case 0
  then show ?case by simp
next
  case (Suc d)
  have m: "commit_index (commit_step a n) = commit_index n \<or> commit_index (commit_step a n) = a"
    by (simp add: commit_step_def)
  have u: "[a..<b] = a # [Suc a..<b]" and ab: "a < b" using Suc.hyps(2) by (simp_all add: upt_conv_Cons)
  have "d = b - Suc a" using Suc.hyps(2) by simp
  moreover have "commit_index (commit_step a n) < Suc a" using m Suc.prems by auto
  ultimately have "commit_index (commit_step a n) \<le> commit_index (fold commit_step [Suc a..<b] (commit_step a n)) \<and>
    commit_index (fold commit_step [Suc a..<b] (commit_step a n)) \<le> max (commit_index (commit_step a n)) (b - 1)"
    by (rule Suc.hyps(1))
  then show ?case using m Suc.prems ab unfolding u by auto
qed

lemma try_advance_commit_bounds:
  "commit_index n \<le> commit_index (try_advance_commit n)"
  "commit_index (try_advance_commit n) \<le> max (commit_index n) (last_index (rn_log n))"
  using fold_commit_bounds[of n "commit_index n + 1" "last_index (rn_log n) + 1"]
  by (simp_all add: try_advance_commit_def)

lemma try_advance_commit_simps [simp]:
  "rn_log (try_advance_commit n) = rn_log n" "current_term (try_advance_commit n) = current_term n"
  "voted_for (try_advance_commit n) = voted_for n" "rn_role (try_advance_commit n) = rn_role n"
  "last_applied (try_advance_commit n) = last_applied n" "rn_config (try_advance_commit n) = rn_config n"
  "pending_membership (try_advance_commit n) = pending_membership n"
  "applied_entries (try_advance_commit n) = applied_entries n"
  "votes_received (try_advance_commit n) = votes_received n" "leader_id (try_advance_commit n) = leader_id n"
  "effective_config_of (try_advance_commit n) = effective_config_of n"
  "current_membership (try_advance_commit n) = current_membership n"
  using try_advance_commit_frame[of n] by auto

lemma send_append_to_all_simps [simp]:
  "rn_log (fst (send_append_to_all n)) = rn_log n" "current_term (fst (send_append_to_all n)) = current_term n"
  "voted_for (fst (send_append_to_all n)) = voted_for n" "rn_role (fst (send_append_to_all n)) = rn_role n"
  "last_applied (fst (send_append_to_all n)) = last_applied n" "rn_config (fst (send_append_to_all n)) = rn_config n"
  "commit_index (fst (send_append_to_all n)) = commit_index n"
  "pending_membership (fst (send_append_to_all n)) = pending_membership n"
  "applied_entries (fst (send_append_to_all n)) = applied_entries n"
  "votes_received (fst (send_append_to_all n)) = votes_received n"
  "leader_id (fst (send_append_to_all n)) = leader_id n"
  "effective_config_of (fst (send_append_to_all n)) = effective_config_of n"
  "current_membership (fst (send_append_to_all n)) = current_membership n"
  using send_append_to_all_frame[of n] by auto

lemma seed_replication_simps [simp]:
  "rn_log (seed_replication ms n) = rn_log n" "current_term (seed_replication ms n) = current_term n"
  "voted_for (seed_replication ms n) = voted_for n" "rn_role (seed_replication ms n) = rn_role n"
  "last_applied (seed_replication ms n) = last_applied n" "rn_config (seed_replication ms n) = rn_config n"
  "commit_index (seed_replication ms n) = commit_index n"
  "pending_membership (seed_replication ms n) = pending_membership n"
  "applied_entries (seed_replication ms n) = applied_entries n"
  "votes_received (seed_replication ms n) = votes_received n" "leader_id (seed_replication ms n) = leader_id n"
  "effective_config_of (seed_replication ms n) = effective_config_of n"
  "current_membership (seed_replication ms n) = current_membership n"
  using seed_replication_frame[of ms n] by auto


lemma sync_peers_simps [simp]:
  "rn_log (sync_peers n) = rn_log n" "current_term (sync_peers n) = current_term n"
  "voted_for (sync_peers n) = voted_for n" "rn_role (sync_peers n) = rn_role n"
  "last_applied (sync_peers n) = last_applied n" "node_id (sync_peers n) = node_id n"
  "commit_index (sync_peers n) = commit_index n" "pending_membership (sync_peers n) = pending_membership n"
  "applied_entries (sync_peers n) = applied_entries n" "votes_received (sync_peers n) = votes_received n"
  "effective_config_of (sync_peers n) = effective_config_of n"
  "current_membership (sync_peers n) = current_membership n" "leader_id (sync_peers n) = leader_id n"
  by (simp_all add: sync_peers_def)

lemma step_down_keeping_vote_simps [simp]:
  "rn_log (step_down_keeping_vote n) = rn_log n" "current_term (step_down_keeping_vote n) = current_term n"
  "voted_for (step_down_keeping_vote n) = voted_for n" "rn_role (step_down_keeping_vote n) = Follower"
  "last_applied (step_down_keeping_vote n) = last_applied n" "rn_config (step_down_keeping_vote n) = rn_config n"
  "commit_index (step_down_keeping_vote n) = commit_index n" "votes_received (step_down_keeping_vote n) = []"
  "pending_membership (step_down_keeping_vote n) = pending_membership n"
  "applied_entries (step_down_keeping_vote n) = applied_entries n"
  "effective_config_of (step_down_keeping_vote n) = effective_config_of n"
  "current_membership (step_down_keeping_vote n) = current_membership n"
  by (simp_all add: step_down_keeping_vote_def)

text \<open>The steps of the two phases, without the final check whether the node still votes.\<close>

lemma apply_config_command_cases:
  obtains (quiet) n1 where "fst (apply_config_command phase ms n) = n1 \<or>
      rn_role n1 \<noteq> Follower \<and> fst (apply_config_command phase ms n) = step_down_keeping_vote n1"
    and "rn_log n1 = rn_log n" "commit_index n1 = commit_index n" "pending_membership n1 \<in> {pending_membership n, None}"
    and "current_term n1 = current_term n" "voted_for n1 = voted_for n" "rn_role n1 = rn_role n"
    and "last_applied n1 = last_applied n" "node_id n1 = node_id n" "applied_entries n1 = applied_entries n"
    and "votes_received n1 = votes_received n"
  | (finalise) n1 fm where "fst (apply_config_command phase ms n) = n1 \<or>
      rn_role n1 \<noteq> Follower \<and> fst (apply_config_command phase ms n) = step_down_keeping_vote n1"
    and "phase = Joint" "rn_role n = Leader" "pending_membership n = Some fm" "pending_membership n1 = None"
    and "rn_log n1 = log_append \<lparr>le_term = current_term n, le_command = command_encode (CmdConfigChange Final fm)\<rparr> (rn_log n)"
    and "commit_index n \<le> commit_index n1" "commit_index n1 \<le> max (commit_index n) (last_index (rn_log n) + 1)"
    and "current_term n1 = current_term n" "voted_for n1 = voted_for n" "rn_role n1 = rn_role n"
    and "last_applied n1 = last_applied n" "node_id n1 = node_id n" "applied_entries n1 = applied_entries n"
    and "votes_received n1 = votes_received n"
proof (cases "phase = Joint \<and> rn_role n = Leader \<and> pending_membership n \<noteq> None")
  case True
  then obtain fm where fm: "pending_membership n = Some fm" by auto
  define n0 where "n0 = seed_replication ms (sync_peers (n\<lparr>
      effective_config_of := JointConfig (stable_config (effective_config_of n)) (from_voters (voter_ids ms)),
      current_membership := ms\<rparr>))"
  define n2 where "n2 = fst (send_append_to_all (append_own
      (command_encode (CmdConfigChange Final fm)) (n0\<lparr>pending_membership := None\<rparr>)))"
  have eq: "fst (apply_config_command phase ms n) =
      (if \<not> is_self_voter (try_advance_commit n2) \<and> rn_role (try_advance_commit n2) \<noteq> Follower
       then step_down_keeping_vote (try_advance_commit n2) else try_advance_commit n2)"
    using True fm by (simp add: apply_config_command_def Let_def case_prod_beta n0_def n2_def)
  show ?thesis
  proof (rule finalise[of "try_advance_commit n2" fm])
    show "fst (apply_config_command phase ms n) = try_advance_commit n2 \<or>
        rn_role (try_advance_commit n2) \<noteq> Follower \<and>
        fst (apply_config_command phase ms n) = step_down_keeping_vote (try_advance_commit n2)"
      unfolding eq by simp
    show "commit_index n \<le> commit_index (try_advance_commit n2)"
      using try_advance_commit_bounds(1)[of n2] by (simp add: n2_def n0_def)
    show "commit_index (try_advance_commit n2) \<le> max (commit_index n) (last_index (rn_log n) + 1)"
      using try_advance_commit_bounds(2)[of n2] by (simp add: n2_def n0_def)
  qed (use True fm in \<open>simp_all add: n2_def n0_def\<close>)
next
  case False
  define n1 where "n1 = (case phase of
      Joint \<Rightarrow> seed_replication ms (sync_peers (n\<lparr>
        effective_config_of := JointConfig (stable_config (effective_config_of n)) (from_voters (voter_ids ms)),
        current_membership := ms\<rparr>))
    | Final \<Rightarrow> seed_replication ms ((sync_peers (n\<lparr>effective_config_of := StableConfig (from_voters (voter_ids ms)),
        current_membership := ms\<rparr>))\<lparr>pending_membership := None\<rparr>))"
  have eq: "fst (apply_config_command phase ms n) =
      (if \<not> is_self_voter n1 \<and> rn_role n1 \<noteq> Follower then step_down_keeping_vote n1 else n1)"
    using False by (cases phase) (auto simp: apply_config_command_def Let_def n1_def split: option.split)
  show ?thesis
  proof (rule quiet[of n1])
    show "fst (apply_config_command phase ms n) = n1 \<or>
        rn_role n1 \<noteq> Follower \<and> fst (apply_config_command phase ms n) = step_down_keeping_vote n1"
      unfolding eq by simp
  qed (cases phase; simp add: n1_def)+
qed


lemma log_get_append_old: "i \<le> last_index l \<Longrightarrow> log_get (log_append e l) i = log_get l i"
  by (auto simp: log_get_def log_append_def last_index_eq nth_opt_def nth_append)

text \<open>Facts that hold of one round of the apply loop.\<close>

lemma apply_config_command_facts:
  fixes n phase ms
  defines "n' \<equiv> fst (apply_config_command phase ms n)"
  shows "current_term n' = current_term n" "voted_for n' = voted_for n" "last_applied n' = last_applied n"
    "node_id n' = node_id n" "applied_entries n' = applied_entries n"
    "rn_role n' = rn_role n \<or> rn_role n' = Follower" "commit_index n \<le> commit_index n'"
    "commit_index n' = commit_index n \<or> pending_membership n \<noteq> None \<and> pending_membership n' = None"
    "pending_membership n' = pending_membership n \<or> pending_membership n' = None"
    "commit_index n' \<le> max (commit_index n) (last_index (rn_log n'))"
    "last_index (rn_log n') \<le> last_index (rn_log n) + (if pending_membership n \<noteq> None \<and> pending_membership n' = None then 1 else 0)"
    "last_index (rn_log n) \<le> last_index (rn_log n')"
    "rn_log n' = rn_log n \<or> rn_role n = Leader \<and> (\<exists>e. le_term e = current_term n \<and> rn_log n' = log_append e (rn_log n))"
    "votes_received n' = votes_received n \<or> rn_role n' = Follower"
  unfolding n'_def
  by (cases rule: apply_config_command_cases[of phase ms n]; force)+

lemma apply_next_facts:
  fixes n
  defines "n' \<equiv> fst (apply_next n)"
  shows "current_term n' = current_term n" "voted_for n' = voted_for n" "last_applied n' = Suc (last_applied n)"
    "node_id n' = node_id n" "rn_role n' = rn_role n \<or> rn_role n' = Follower" "commit_index n \<le> commit_index n'"
    "commit_index n' = commit_index n \<or> pending_membership n \<noteq> None \<and> pending_membership n' = None"
    "pending_membership n' = pending_membership n \<or> pending_membership n' = None"
    "commit_index n' \<le> max (commit_index n) (last_index (rn_log n'))"
    "last_index (rn_log n') \<le> last_index (rn_log n) + (if pending_membership n \<noteq> None \<and> pending_membership n' = None then 1 else 0)"
    "last_index (rn_log n) \<le> last_index (rn_log n')"
    "rn_log n' = rn_log n \<or> rn_role n = Leader \<and> (\<exists>e. le_term e = current_term n \<and> rn_log n' = log_append e (rn_log n))"
    "votes_received n' = votes_received n \<or> rn_role n' = Follower"
    "applied_entries n' = applied_entries n @
      (case log_get (rn_log n) (Suc (last_applied n)) of None \<Rightarrow> []
       | Some e \<Rightarrow> [(Suc (last_applied n), le_term e, le_command e)])"
proof -
  let ?n1 = "n\<lparr>last_applied := Suc (last_applied n)\<rparr>"
  consider (plain) "n' = ?n1\<lparr>applied_entries := applied_entries n @
      (case log_get (rn_log n) (Suc (last_applied n)) of None \<Rightarrow> []
       | Some e \<Rightarrow> [(Suc (last_applied n), le_term e, le_command e)])\<rparr>"
    | (config) e phase ms where "log_get (rn_log n) (Suc (last_applied n)) = Some e"
        "n' = (fst (apply_config_command phase ms ?n1))\<lparr>applied_entries :=
          applied_entries n @ [(Suc (last_applied n), le_term e, le_command e)]\<rparr>"
    using apply_config_command_facts(3,5)[where n = ?n1] unfolding n'_def apply_next_def
    by (force simp: Let_def case_prod_beta split: option.splits sum.splits raft_command.splits)
  note cs = this
  note f = apply_config_command_facts[where n = ?n1]
  show "current_term n' = current_term n" "voted_for n' = voted_for n" "last_applied n' = Suc (last_applied n)"
    "node_id n' = node_id n" "rn_role n' = rn_role n \<or> rn_role n' = Follower" "commit_index n \<le> commit_index n'"
    "commit_index n' = commit_index n \<or> pending_membership n \<noteq> None \<and> pending_membership n' = None"
    "pending_membership n' = pending_membership n \<or> pending_membership n' = None"
    "commit_index n' \<le> max (commit_index n) (last_index (rn_log n'))"
    "last_index (rn_log n') \<le> last_index (rn_log n) + (if pending_membership n \<noteq> None \<and> pending_membership n' = None then 1 else 0)"
    "last_index (rn_log n) \<le> last_index (rn_log n')"
    "rn_log n' = rn_log n \<or> rn_role n = Leader \<and> (\<exists>e. le_term e = current_term n \<and> rn_log n' = log_append e (rn_log n))"
    "votes_received n' = votes_received n \<or> rn_role n' = Follower"
    "applied_entries n' = applied_entries n @
      (case log_get (rn_log n) (Suc (last_applied n)) of None \<Rightarrow> []
       | Some e \<Rightarrow> [(Suc (last_applied n), le_term e, le_command e)])"
    by (cases rule: cs; (use f in \<open>simp; fail\<close>))+
qed


function try_advance_apply :: "raft_node \<Rightarrow> raft_node \<times> envelope list" where
  "try_advance_apply n =
    (if last_applied n < commit_index n
     then let (n1, out1) = apply_next n; (n2, out2) = try_advance_apply n1 in (n2, out1 @ out2)
     else (check_pending_reads n, []))"
  by pat_completeness auto
termination
proof (relation "measures [\<lambda>n. if pending_membership n = None then 0 else 1, \<lambda>n. commit_index n - last_applied n]")
  fix n :: raft_node and x n1 out
  assume lt: "last_applied n < commit_index n" and x: "x = apply_next n" "(n1, out) = x"
  then have n1: "n1 = fst (apply_next n)" by (metis fst_conv)
  show "(n1, n) \<in> measures [\<lambda>n. if pending_membership n = None then 0 else 1, \<lambda>n. commit_index n - last_applied n]"
    using apply_next_facts(3,7,8)[of n] lt unfolding n1 by (cases "pending_membership n") auto
qed simp

declare try_advance_apply.simps [simp del]

lemma check_pending_reads_frame:
  "check_pending_reads n = n\<lparr>pending_reads := pending_reads (check_pending_reads n), ready_reads := ready_reads (check_pending_reads n)\<rparr>"
  by (simp add: check_pending_reads_def Let_def)

lemma check_pending_reads_simps [simp]:
  "rn_log (check_pending_reads n) = rn_log n" "current_term (check_pending_reads n) = current_term n"
  "voted_for (check_pending_reads n) = voted_for n" "rn_role (check_pending_reads n) = rn_role n"
  "last_applied (check_pending_reads n) = last_applied n" "rn_config (check_pending_reads n) = rn_config n"
  "commit_index (check_pending_reads n) = commit_index n"
  "pending_membership (check_pending_reads n) = pending_membership n"
  "applied_entries (check_pending_reads n) = applied_entries n"
  "votes_received (check_pending_reads n) = votes_received n" "leader_id (check_pending_reads n) = leader_id n"
  "effective_config_of (check_pending_reads n) = effective_config_of n"
  "current_membership (check_pending_reads n) = current_membership n"
  by (simp_all add: check_pending_reads_def Let_def)

text \<open>The apply loop is a number of rounds followed by the check of the pending reads.\<close>

abbreviation apply_round :: "raft_node \<Rightarrow> raft_node" where
  "apply_round n \<equiv> fst (apply_next n)"

lemma try_advance_apply_step:
  "fst (try_advance_apply n) =
    (if last_applied n < commit_index n then fst (try_advance_apply (apply_round n)) else check_pending_reads n)"
  by (subst try_advance_apply.simps) (simp add: case_prod_beta Let_def)

lemma try_advance_apply_rounds:
  "\<exists>k. fst (try_advance_apply n) = check_pending_reads ((apply_round ^^ k) n) \<and>
    commit_index ((apply_round ^^ k) n) \<le> last_applied ((apply_round ^^ k) n) \<and>
    (\<forall>j < k. last_applied ((apply_round ^^ j) n) < commit_index ((apply_round ^^ j) n))"
proof (induction n rule: try_advance_apply.induct)
  case (1 n)
  show ?case
  proof (cases "last_applied n < commit_index n")
    case True
    obtain k where k: "fst (try_advance_apply (apply_round n)) = check_pending_reads ((apply_round ^^ k) (apply_round n))"
      "commit_index ((apply_round ^^ k) (apply_round n)) \<le> last_applied ((apply_round ^^ k) (apply_round n))"
      "\<forall>j < k. last_applied ((apply_round ^^ j) (apply_round n)) < commit_index ((apply_round ^^ j) (apply_round n))"
      using 1[OF True refl prod.collapse[of "apply_next n"]] by blast
    have "\<forall>j < Suc k. last_applied ((apply_round ^^ j) n) < commit_index ((apply_round ^^ j) n)"
      using k(3) True by (auto simp: less_Suc_eq_0_disj funpow_Suc_right simp del: funpow.simps)
    then show ?thesis using k(1,2) True
      by (intro exI[of _ "Suc k"]) (simp add: try_advance_apply_step[of n] funpow_Suc_right del: funpow.simps)
  next
    case False
    then show ?thesis by (intro exI[of _ 0]) (simp add: try_advance_apply_step[of n])
  qed
qed

text \<open>An invariant of a round is one of the loop.\<close>

lemma try_advance_apply_inv:
  assumes "P n" and "\<And>m. P m \<Longrightarrow> last_applied m < commit_index m \<Longrightarrow> P (apply_round m)"
    and "\<And>m. P m \<Longrightarrow> P (check_pending_reads m)"
  shows "P (fst (try_advance_apply n))"
  using assms(1)
proof (induction n rule: try_advance_apply.induct)
  case (1 n)
  show ?case
  proof (cases "last_applied n < commit_index n")
    case True
    have "P (fst (try_advance_apply (apply_round n)))"
      by (rule 1(1)[OF True refl prod.collapse[of "apply_next n"]]) (rule assms(2)[OF 1(2) True])
    then show ?thesis using True by (simp add: try_advance_apply_step[of n])
  next
    case False
    then show ?thesis using assms(3)[OF 1(2)] by (simp add: try_advance_apply_step[of n])
  qed
qed

end
