(* ===== verification/Raft_Handlers.thy ===== *)
theory Raft_Handlers
  imports Raft_Node
begin

text \<open>
  The operations of a Raft node of \<^verbatim>\<open>src/crates/kaya-raft/src/node.rs\<close> that its driver calls: the clock tick, the message
  handlers, proposals of commands, reads and membership changes, compaction and leadership transfer. Each
  returns the node after it and, where the code returns them, the messages to send.
\<close>

section \<open>Elections\<close>

definition reset_peer :: "u64 \<Rightarrow> raft_node \<Rightarrow> raft_node" where
  "reset_peer p n =
    n\<lparr>next_index := bt_insert p (last_index (rn_log n) + 1) (next_index n),
      match_index := bt_insert p 0 (match_index n)\<rparr>"

definition become_leader :: "raft_node \<Rightarrow> raft_node \<times> envelope list" where
  "become_leader n =
    (let n1 = n\<lparr>rn_role := Leader, leader_id := Some (node_id n), heartbeat_ticks := 0\<rparr>;
         n2 = fold reset_peer (rc_peers (rn_config n1)) n1;
         n3 = own_match (last_index (rn_log n2)) n2;
         n4 = append_own [] n3;
         (n5, out) = send_append_to_all n4;
         n6 = try_advance_commit n5
     in (fst (try_advance_apply n6), out))"

text \<open>
  A term is a 64-bit number on the wire and in memory. It is kept as a natural number here, and the one place that
  computes a new term wraps around as the addition of a release build does. A build with overflow checks panics
  there instead.
\<close>

definition term_next :: "nat \<Rightarrow> nat" where
  "term_next t = (t + 1) mod 2 ^ 64"

lemma term_next_code [code]: "term_next t = nat ((int t + 1) mod 18446744073709551616)"
  by (simp add: term_next_def nat_mod_distrib nat_add_distrib)

definition start_election :: "raft_node \<Rightarrow> raft_node \<times> envelope list" where
  "start_election n =
    (if is_self_learner n \<or> \<not> is_self_voter n then (n\<lparr>election_ticks := 0\<rparr>, [])
     else
       let n1 = n\<lparr>current_term := term_next (current_term n), rn_role := Candidate, voted_for := Some (node_id n),
                  election_ticks := 0, votes_received := [node_id n]\<rparr>
       in if length (votes_received n1) \<ge> election_quorum (effective_config_of n1) then become_leader n1
          else
            (n1, map (\<lambda>peer. envelope_new (node_id n1) peer
                   (VoteRequest (current_term n1) (node_id n1) (last_index (rn_log n1)) (last_term (rn_log n1))))
                 (rc_peers (rn_config n1))))"

definition then_apply :: "raft_node \<times> envelope list \<Rightarrow> raft_node \<times> envelope list" where
  "then_apply r = (let (n, out) = r; (n', out') = try_advance_apply n in (n', out @ out'))"

definition tick_role :: "raft_node \<Rightarrow> raft_node \<times> envelope list" where
  "tick_role n =
    (if rn_role n = Leader
     then
       let n1 = n\<lparr>heartbeat_ticks := heartbeat_ticks n + 1\<rparr>
       in if heartbeat_ticks n1 \<ge> heartbeat_interval_ticks (rn_config n1)
          then send_append_to_all (n1\<lparr>heartbeat_ticks := 0\<rparr>) else (n1, [])
     else
       let n1 = n\<lparr>election_ticks := election_ticks n + 1\<rparr>
       in if election_ticks n1 \<ge> election_timeout_ticks (rn_config n1) then start_election n1 else (n1, []))"

definition tick :: "raft_node \<Rightarrow> raft_node \<times> envelope list" where
  "tick n = then_apply (tick_role n)"

section \<open>Message handlers\<close>

definition on_vote_request :: "u64 \<Rightarrow> nat \<Rightarrow> nat \<Rightarrow> nat \<Rightarrow> raft_node \<Rightarrow> raft_node \<times> envelope list" where
  "on_vote_request from trm last_log_index last_log_term n =
    (if is_self_learner n then (n, [envelope_new (node_id n) from (VoteResponse (current_term n) False)])
     else
       let log_ok = (last_log_term > last_term (rn_log n) \<or>
             last_log_term = last_term (rn_log n) \<and> last_log_index \<ge> last_index (rn_log n));
           vote_granted = (trm \<ge> current_term n \<and> log_ok \<and> (voted_for n = None \<or> voted_for n = Some from));
           n1 = (if vote_granted then n\<lparr>voted_for := Some from, election_ticks := 0\<rparr> else n)
       in (n1, [envelope_new (node_id n1) from (VoteResponse (current_term n1) vote_granted)]))"

definition on_vote_response :: "u64 \<Rightarrow> nat \<Rightarrow> bool \<Rightarrow> raft_node \<Rightarrow> raft_node \<times> envelope list" where
  "on_vote_response from trm vote_granted n =
    (if rn_role n \<noteq> Candidate \<or> trm < current_term n then (n, [])
     else if vote_granted
     then
       let n1 = n\<lparr>votes_received := List.insert from (votes_received n)\<rparr>
       in if length (votes_received n1) \<ge> election_quorum (effective_config_of n1) then become_leader n1 else (n1, [])
     else (n, []))"

fun append_entries :: "nat \<Rightarrow> log_entry list \<Rightarrow> mem_log \<Rightarrow> mem_log" where
  "append_entries idx [] l = l"
| "append_entries idx (e # es) l =
    append_entries (idx + 1) es
      (case term_at l idx of
         Some existing_term \<Rightarrow> if existing_term \<noteq> le_term e then log_append e (truncate_from idx l) else l
       | None \<Rightarrow> log_append e l)"

definition on_append_request ::
  "u64 \<Rightarrow> nat \<Rightarrow> u64 \<Rightarrow> nat \<Rightarrow> nat \<Rightarrow> log_entry list \<Rightarrow> nat \<Rightarrow> raft_node \<Rightarrow> raft_node \<times> envelope list" where
  "on_append_request from trm leader prev_log_index prev_log_term es leader_commit n =
    (if trm < current_term n then (n, [envelope_new (node_id n) from (AppendResponse (current_term n) False 0)])
     else
       let n1 = n\<lparr>rn_role := Follower, leader_id := Some leader, election_ticks := 0\<rparr>;
           prev_ok = (if prev_log_index = 0 then True else term_at (rn_log n1) prev_log_index = Some prev_log_term)
       in if \<not> prev_ok
          then (n1, [envelope_new (node_id n1) from (AppendResponse (current_term n1) False (last_index (rn_log n1)))])
          else
            let n2 = n1\<lparr>rn_log := append_entries (prev_log_index + 1) es (rn_log n1)\<rparr>;
                n3 = (if leader_commit > commit_index n2
                      then n2\<lparr>commit_index := min leader_commit (last_index (rn_log n2))\<rparr> else n2)
            in (n3, [envelope_new (node_id n3) from (AppendResponse (current_term n3) True (last_index (rn_log n3)))]))"

definition ack_reads :: "u64 \<Rightarrow> raft_node \<Rightarrow> raft_node" where
  "ack_reads from n =
    (case bt_get from (last_sent_ack_seq n) of
       Some last_sent \<Rightarrow>
         n\<lparr>pending_reads := map (\<lambda>r. if rd_ack_seq r \<le> last_sent \<and> rd_term r = current_term n
             then r\<lparr>rd_acks := List.insert from (rd_acks r)\<rparr> else r) (pending_reads n)\<rparr>
     | None \<Rightarrow> n)"

definition on_append_response :: "u64 \<Rightarrow> nat \<Rightarrow> bool \<Rightarrow> nat \<Rightarrow> raft_node \<Rightarrow> raft_node \<times> envelope list" where
  "on_append_response from trm success mi n =
    (if rn_role n \<noteq> Leader \<or> trm < current_term n then (n, [])
     else
       let n1 = (if trm = current_term n then ack_reads from n else n)
       in if success
          then
            let n2 = (if mi > map_or 0 from (match_index n1)
                  then n1\<lparr>match_index := bt_insert from mi (match_index n1),
                          next_index := bt_insert from (mi + 1) (next_index n1)\<rparr>
                  else n1)
            in (try_advance_commit n2, [])
          else
            let ni = map_or 1 from (next_index n1);
                backed = (if mi > 0 \<and> mi < ni then mi else max (ni - 1) 1)
            in send_append_to from (n1\<lparr>next_index := bt_insert from backed (next_index n1)\<rparr>))"

definition on_install_snapshot_request ::
  "u64 \<Rightarrow> nat \<Rightarrow> nat \<Rightarrow> nat \<Rightarrow> bytes \<Rightarrow> raft_node \<Rightarrow> raft_node \<times> envelope list" where
  "on_install_snapshot_request from trm idx idx_term data n =
    (if trm < current_term n then (n, [envelope_new (node_id n) from (InstallSnapshotResponse (current_term n) False)])
     else
       let n1 = (if trm > current_term n then step_down trm n else n);
           n2 = n1\<lparr>rn_log := log_install_snapshot idx idx_term data (rn_log n1)\<rparr>;
           n3 = (if idx > commit_index n2 then n2\<lparr>commit_index := idx\<rparr> else n2);
           n4 = (if idx > last_applied n3 then n3\<lparr>last_applied := idx\<rparr> else n3);
           n5 = n4\<lparr>pending_snapshot := Some (idx, idx_term, data)\<rparr>
       in (n5, [envelope_new (node_id n5) from (InstallSnapshotResponse (current_term n5) True)]))"

definition on_install_snapshot_response :: "u64 \<Rightarrow> nat \<Rightarrow> bool \<Rightarrow> raft_node \<Rightarrow> raft_node" where
  "on_install_snapshot_response from trm success n =
    (if rn_role n \<noteq> Leader \<or> trm < current_term n then n
     else if success
     then
       let snap_idx = last_included_index (rn_log n)
       in n\<lparr>match_index := bt_insert from snap_idx (match_index n),
            next_index := bt_insert from (snap_idx + 1) (next_index n)\<rparr>
     else n)"

definition on_config_change_request :: "u64 \<Rightarrow> nat \<Rightarrow> raft_node \<Rightarrow> raft_node \<times> envelope list" where
  "on_config_change_request from trm n =
    (if trm < current_term n then (n, [envelope_new (node_id n) from (ConfigChangeResponse (current_term n) False)])
     else
       let n1 = (if trm > current_term n then step_down trm n else n)
       in (n1, [envelope_new (node_id n1) from (ConfigChangeResponse (current_term n1) True)]))"

fun dispatch :: "u64 \<Rightarrow> message \<Rightarrow> raft_node \<Rightarrow> raft_node \<times> envelope list" where
  "dispatch from (VoteRequest t c i lt) n = on_vote_request from t i lt n"
| "dispatch from (VoteResponse t g) n = on_vote_response from t g n"
| "dispatch from (AppendRequest t l pi pt es lc) n = on_append_request from t l pi pt es lc n"
| "dispatch from (AppendResponse t ok mi) n = on_append_response from t ok mi n"
| "dispatch from (InstallSnapshotRequest t l i it d) n = on_install_snapshot_request from t i it d n"
| "dispatch from (InstallSnapshotResponse t ok) n = (on_install_snapshot_response from t ok n, [])"
| "dispatch from (ConfigChangeRequest t old_peers new_peers) n = on_config_change_request from t n"
| "dispatch from (ConfigChangeResponse t ok) n = (n, [])"

definition observe_term :: "nat \<Rightarrow> raft_node \<Rightarrow> raft_node" where
  "observe_term t n = (if t > current_term n then step_down t n else n)"

definition handle :: "envelope \<Rightarrow> raft_node \<Rightarrow> raft_node \<times> envelope list" where
  "handle env n =
    then_apply (dispatch (env_from env) (env_message env) (observe_term (message_term (env_message env)) n))"

section \<open>Requests of the driver\<close>

definition propose :: "bytes \<Rightarrow> raft_node \<Rightarrow> nat option \<times> raft_node" where
  "propose command n =
    (if rn_role n \<noteq> Leader then (None, n)
     else
       let n1 = append_own command n
       in (Some (last_index (rn_log n1)), fst (try_advance_apply (try_advance_commit n1))))"

definition propose_read :: "u64 \<Rightarrow> raft_node \<Rightarrow> nat option \<times> raft_node" where
  "propose_read request_id n =
    (if rn_role n \<noteq> Leader then (None, n)
     else
       let n1 = n\<lparr>current_ack_seq := current_ack_seq n + 1\<rparr>;
           n2 = n1\<lparr>pending_reads := pending_reads n1 @
                 [\<lparr>rd_request_id = request_id, rd_read_index = commit_index n1, rd_term = current_term n1,
                   rd_ack_seq = current_ack_seq n1, rd_acks = [node_id n1]\<rparr>]\<rparr>;
           n3 = check_pending_reads n2
       in (Some (commit_index n3), n3))"

definition drain_ready_reads :: "raft_node \<Rightarrow> u64 list \<times> raft_node" where
  "drain_ready_reads n = (ready_reads n, n\<lparr>ready_reads := []\<rparr>)"

definition drain_applied :: "raft_node \<Rightarrow> (nat \<times> nat \<times> bytes) list \<times> raft_node" where
  "drain_applied n = (applied_entries n, n\<lparr>applied_entries := []\<rparr>)"

definition drain_installed_snapshot :: "raft_node \<Rightarrow> (nat \<times> nat \<times> bytes) option \<times> raft_node" where
  "drain_installed_snapshot n = (pending_snapshot n, n\<lparr>pending_snapshot := None\<rparr>)"

definition broadcast :: "raft_node \<Rightarrow> raft_node \<times> envelope list" where
  "broadcast n = (if rn_role n = Leader then send_append_to_all n else (n, []))"

definition compact :: "nat \<Rightarrow> nat \<Rightarrow> bytes \<Rightarrow> raft_node \<Rightarrow> raft_node" where
  "compact up_to_index up_to_term data n =
    (let n1 = n\<lparr>rn_log := log_install_snapshot up_to_index up_to_term data (rn_log n)\<rparr>;
         n2 = (if up_to_index > commit_index n1 then n1\<lparr>commit_index := up_to_index\<rparr> else n1);
         n3 = (if up_to_index > last_applied n2 then n2\<lparr>last_applied := up_to_index\<rparr> else n2)
     in n3\<lparr>applied_entries := dropWhile (\<lambda>(i, _, _). \<not> i > up_to_index) (applied_entries n3)\<rparr>)"

definition restore_config_from_snapshot :: "cluster_member list \<Rightarrow> raft_node \<Rightarrow> raft_node" where
  "restore_config_from_snapshot members n =
    seed_replication members ((sync_peers (n\<lparr>effective_config_of := StableConfig (from_voters (voter_ids members)),
      current_membership := members\<rparr>))\<lparr>pending_membership := None\<rparr>)"

definition transfer_leadership :: "u64 \<Rightarrow> raft_node \<Rightarrow> (string + unit) \<times> raft_node" where
  "transfer_leadership target n =
    (if rn_role n \<noteq> Leader then (Inl ''not leader'', n)
     else if target \<notin> set (all_voters (effective_config_of n))
     then (Inl (''target node '' @ fmt_dec (unat target) @ '' is not a voter in the effective config''), n)
     else if target = node_id n then (Inr (), n)
     else (Inr (), step_down_keeping_vote n))"

fun is_joint :: "effective_config \<Rightarrow> bool" where
  "is_joint (JointConfig _ _) = True"
| "is_joint (StableConfig _) = False"

definition target_members :: "u64 \<Rightarrow> cluster_member list \<Rightarrow> cluster_member list" where
  "target_members self_id new_members =
    (let by_id = insert self_id (cm_id ` set new_members);
         ms = (if \<exists>m \<in> set new_members. cm_id m = self_id then new_members else new_members @ [member_voter self_id [] []])
     in filter (\<lambda>m. cm_id m \<in> by_id) (sort_key cm_id ms))"

definition propose_membership_change :: "cluster_member list \<Rightarrow> raft_node \<Rightarrow> nat option \<times> raft_node" where
  "propose_membership_change new_members n =
    (if rn_role n \<noteq> Leader then (None, n)
     else if is_joint (effective_config_of n) then (None, n)
     else if pending_membership n \<noteq> None then (None, n)
     else
       let members = target_members (node_id n) new_members;
           n1 = append_own (command_encode (CmdConfigChange Joint members)) (n\<lparr>pending_membership := Some members\<rparr>);
           n2 = try_advance_commit (seed_replication members n1)
       in (Some (last_index (rn_log n1)), fst (try_advance_apply n2)))"


text \<open>Everything a driver can ask of a node.\<close>

datatype node_op =
    OpTick
  | OpHandle envelope
  | OpPropose bytes
  | OpProposeRead u64
  | OpBroadcast
  | OpCompact nat nat bytes
  | OpTransfer u64
  | OpMembership "cluster_member list"
  | OpRestoreConfig "cluster_member list"
  | OpDrainReads
  | OpDrainApplied
  | OpDrainSnapshot

fun run_op :: "node_op \<Rightarrow> raft_node \<Rightarrow> raft_node \<times> envelope list" where
  "run_op OpTick n = tick n"
| "run_op (OpHandle env) n = handle env n"
| "run_op (OpPropose command) n = (snd (propose command n), [])"
| "run_op (OpProposeRead r) n = (snd (propose_read r n), [])"
| "run_op OpBroadcast n = broadcast n"
| "run_op (OpCompact i t d) n = (compact i t d n, [])"
| "run_op (OpTransfer target) n = (snd (transfer_leadership target n), [])"
| "run_op (OpMembership ms) n = (snd (propose_membership_change ms n), [])"
| "run_op (OpRestoreConfig ms) n = (restore_config_from_snapshot ms n, [])"
| "run_op OpDrainReads n = (snd (drain_ready_reads n), [])"
| "run_op OpDrainApplied n = (snd (drain_applied n), [])"
| "run_op OpDrainSnapshot n = (snd (drain_installed_snapshot n), [])"

section \<open>The apply loop\<close>

lemma apply_rounds_facts:
  "last_applied ((apply_round ^^ k) n) = last_applied n + k \<and>
   last_index (rn_log ((apply_round ^^ k) n)) + (if pending_membership ((apply_round ^^ k) n) = None then 0 else 1)
     \<le> last_index (rn_log n) + (if pending_membership n = None then 0 else 1) \<and>
   commit_index ((apply_round ^^ k) n) \<le> max (commit_index n) (last_index (rn_log n) + 1)"
proof (induction k)
  case 0
  show ?case by simp
next
  case (Suc k)
  define m where "m = (apply_round ^^ k) n"
  have e: "(apply_round ^^ Suc k) n = apply_round m" by (simp add: m_def)
  note IH = Suc.IH[folded m_def]
  note f = apply_next_facts[of m]
  have "last_index (rn_log (apply_round m)) + (if pending_membership (apply_round m) = None then 0 else 1)
      \<le> last_index (rn_log m) + (if pending_membership m = None then 0 else 1)"
    using f(8,10) by (auto split: if_splits)
  then show ?case unfolding e using IH f(3,9) by (auto split: if_splits)
qed

lemma apply_loop_facts:
  "current_term (fst (try_advance_apply n)) = current_term n \<and> voted_for (fst (try_advance_apply n)) = voted_for n \<and>
   node_id (fst (try_advance_apply n)) = node_id n"
  by (rule try_advance_apply_inv) (simp_all add: apply_next_facts)

lemma apply_loop_simps [simp]:
  "current_term (fst (try_advance_apply n)) = current_term n" "voted_for (fst (try_advance_apply n)) = voted_for n"
  "node_id (fst (try_advance_apply n)) = node_id n"
  using apply_loop_facts by simp_all

definition applied_of :: "mem_log \<Rightarrow> nat list \<Rightarrow> (nat \<times> nat \<times> bytes) list" where
  "applied_of l is = List.map_filter (\<lambda>i. map_option (\<lambda>e. (i, le_term e, le_command e)) (log_get l i)) is"

lemma applied_of_snoc:
  "applied_of l (is @ [i]) =
    applied_of l is @ (case log_get l i of None \<Rightarrow> [] | Some e \<Rightarrow> [(i, le_term e, le_command e)])"
  by (induction "is") (auto simp: applied_of_def map_filter_simps split: option.split)

lemma applied_of_append_log:
  "\<forall>i \<in> set is. i \<le> last_index l \<Longrightarrow> applied_of (log_append e l) is = applied_of l is"
  by (induction "is") (simp_all add: applied_of_def map_filter_simps log_get_append_old split: option.split)

lemma apply_rounds_entries:
  assumes "\<forall>j < k. last_applied ((apply_round ^^ j) n) < commit_index ((apply_round ^^ j) n)"
    and "commit_index n \<le> last_index (rn_log n)"
  shows "applied_entries ((apply_round ^^ k) n) = applied_entries n @
      applied_of (rn_log ((apply_round ^^ k) n)) [Suc (last_applied n)..<Suc (last_applied n + k)] \<and>
    commit_index ((apply_round ^^ k) n) \<le> last_index (rn_log ((apply_round ^^ k) n)) \<and>
    last_applied n + k \<le> max (last_applied n) (commit_index ((apply_round ^^ k) n))"
  using assms(1)
proof (induction k)
  case 0
  show ?case using assms(2) by (simp add: applied_of_def map_filter_simps)
next
  case (Suc k)
  define m where "m = (apply_round ^^ k) n"
  have e: "(apply_round ^^ Suc k) n = apply_round m" by (simp add: m_def)
  have IH: "applied_entries m = applied_entries n @ applied_of (rn_log m) [Suc (last_applied n)..<Suc (last_applied n + k)]"
    "commit_index m \<le> last_index (rn_log m)"
    using Suc unfolding m_def by auto
  have la: "last_applied m = last_applied n + k" using apply_rounds_facts[of k n] by (simp add: m_def)
  have lt: "last_applied m < commit_index m" using Suc.prems unfolding m_def by blast
  note f = apply_next_facts[of m]
  have stable: "applied_of (rn_log (apply_round m)) [Suc (last_applied n)..<Suc (Suc (last_applied n + k))] =
      applied_of (rn_log m) [Suc (last_applied n)..<Suc (Suc (last_applied n + k))]"
    using f(12) lt IH(2) la by (auto intro!: applied_of_append_log)
  have u: "[Suc (last_applied n)..<Suc (Suc (last_applied n + k))] =
      [Suc (last_applied n)..<Suc (last_applied n + k)] @ [Suc (last_applied n + k)]"
    by (rule upt_Suc_append) simp
  have "applied_entries (apply_round m) = applied_entries n @
      applied_of (rn_log (apply_round m)) [Suc (last_applied n)..<Suc (Suc (last_applied n + k))]"
    unfolding stable unfolding f(14) IH(1) la u by (simp only: applied_of_snoc append_assoc)
  moreover have "commit_index (apply_round m) \<le> last_index (rn_log (apply_round m))"
    using f(9,11) IH(2) by linarith
  moreover have "last_applied n + Suc k \<le> commit_index (apply_round m)" using lt la f(6) by linarith
  ultimately show ?case unfolding e by simp
qed

text \<open>
  C25. Applying committed entries always finishes: with what is applied not beyond what is committed, the loop takes at most
  as many rounds as there are log positions up to the last one, plus one for the entry it may append itself to
  finish a membership change, and stops with everything committed applied.
\<close>

theorem try_advance_apply_ends:
  assumes "last_applied n \<le> commit_index n"
  shows "\<exists>k \<le> max (commit_index n) (last_index (rn_log n) + 1) - last_applied n.
    fst (try_advance_apply n) = check_pending_reads ((apply_round ^^ k) n) \<and>
    last_applied (fst (try_advance_apply n)) = commit_index (fst (try_advance_apply n))"
proof -
  obtain k where k: "fst (try_advance_apply n) = check_pending_reads ((apply_round ^^ k) n)"
    "commit_index ((apply_round ^^ k) n) \<le> last_applied ((apply_round ^^ k) n)"
    "\<forall>j < k. last_applied ((apply_round ^^ j) n) < commit_index ((apply_round ^^ j) n)"
    using try_advance_apply_rounds[of n] by blast
  have "k \<le> max (commit_index n) (last_index (rn_log n) + 1) - last_applied n \<and>
      last_applied ((apply_round ^^ k) n) \<le> commit_index ((apply_round ^^ k) n)"
  proof (cases k)
    case 0
    then show ?thesis using assms by simp
  next
    case (Suc j)
    then have "last_applied ((apply_round ^^ j) n) < commit_index ((apply_round ^^ j) n)" using k(3) by blast
    then show ?thesis
      using apply_rounds_facts[of j n] apply_next_facts(3,6)[of "(apply_round ^^ j) n"] Suc by auto
  qed
  then show ?thesis using k(1,2) by (intro exI[of _ k]) simp
qed


text \<open>The two nodes of the examples: a cluster of one voter, and one of three.\<close>

definition example_config :: "u64 \<Rightarrow> u64 list \<Rightarrow> raft_config" where
  "example_config i ps = \<lparr>rc_id = i, rc_peers = ps, election_timeout_ticks = 2, heartbeat_interval_ticks = 1\<rparr>"

definition example_log :: mem_log where
  "example_log = memlog_new\<lparr>ml_entries := [\<lparr>le_term = 1, le_command = [7]\<rparr>, \<lparr>le_term = 1, le_command = []\<rparr>]\<rparr>"

definition example_node :: raft_node where
  "example_node = (node_new (example_config 1 [2, 3]))\<lparr>current_term := 1, rn_log := example_log, commit_index := 2\<rparr>"

lemma example_node_simps [simp]:
  "last_applied example_node = 0" "commit_index example_node = 2" "last_index (rn_log example_node) = 2"
  "rn_log example_node = example_log" "applied_entries example_node = []" "last_index example_log = 2"
  "current_term example_node = 1" "voted_for example_node = None" "node_id example_node = 1"
  by (simp_all add: example_node_def node_new_def node_from_state_def Let_def example_log_def memlog_new_def
      last_index_eq example_config_def)

theorem try_advance_apply_ends_witness:
  "\<exists>k \<le> 3. fst (try_advance_apply example_node) = check_pending_reads ((apply_round ^^ k) example_node) \<and>
    last_applied (fst (try_advance_apply example_node)) = commit_index (fst (try_advance_apply example_node))"
  using try_advance_apply_ends[of example_node] by simp

text \<open>
  C26. Exactly the committed entries are applied, each once and in log order: the loop appends to the list of
  applied entries the log entries between what was applied before and what is committed after it, and the log
  it reads them from only grows.
\<close>

theorem try_advance_apply_in_order:
  assumes "last_applied n \<le> commit_index n" and "commit_index n \<le> last_index (rn_log n)"
  shows "applied_entries (fst (try_advance_apply n)) = applied_entries n @
    applied_of (rn_log (fst (try_advance_apply n))) [Suc (last_applied n)..<Suc (commit_index (fst (try_advance_apply n)))]"
proof -
  obtain k where k: "fst (try_advance_apply n) = check_pending_reads ((apply_round ^^ k) n)"
    "commit_index ((apply_round ^^ k) n) \<le> last_applied ((apply_round ^^ k) n)"
    "\<forall>j < k. last_applied ((apply_round ^^ j) n) < commit_index ((apply_round ^^ j) n)"
    using try_advance_apply_rounds[of n] by blast
  have "commit_index n \<le> commit_index ((apply_round ^^ j) n)" for j
    by (induction j) (auto intro: order_trans[OF _ apply_next_facts(6)])
  from this[of k] have "last_applied n + k = commit_index ((apply_round ^^ k) n)"
    using apply_rounds_entries[OF k(3) assms(2)] apply_rounds_facts[of k n] k(2) assms(1) by linarith
  then show ?thesis using apply_rounds_entries[OF k(3) assms(2)] k(1) by simp
qed

theorem try_advance_apply_in_order_witness:
  "applied_entries (fst (try_advance_apply example_node)) =
    applied_of (rn_log (fst (try_advance_apply example_node)))
      [Suc 0..<Suc (commit_index (fst (try_advance_apply example_node)))]"
  using try_advance_apply_in_order[of example_node] by simp

section \<open>Terms and votes\<close>

text \<open>What no operation of a node undoes, as long as its term does not wrap around.\<close>

definition vote_kept :: "raft_node \<Rightarrow> raft_node \<Rightarrow> bool" where
  "vote_kept n n' \<longleftrightarrow> node_id n' = node_id n \<and> current_term n \<le> current_term n' \<and>
    (current_term n' = current_term n \<longrightarrow> voted_for n \<noteq> None \<longrightarrow> voted_for n' = voted_for n)"

lemma vote_kept_refl [simp]: "vote_kept n n" by (simp add: vote_kept_def)

lemma vote_kept_trans: "vote_kept a b \<Longrightarrow> vote_kept b c \<Longrightarrow> vote_kept a c"
  unfolding vote_kept_def by (metis le_antisym le_trans)

lemma vote_kept_same:
  "node_id n' = node_id n \<Longrightarrow> current_term n' = current_term n \<Longrightarrow> voted_for n' = voted_for n \<Longrightarrow> vote_kept n n'"
  by (simp add: vote_kept_def)

lemma vote_kept_newer: "node_id n' = node_id n \<Longrightarrow> current_term n < current_term n' \<Longrightarrow> vote_kept n n'"
  by (simp add: vote_kept_def)

lemma fold_reset_peer_frame: "\<exists>a b. fold reset_peer ps n = n\<lparr>next_index := a, match_index := b\<rparr>"
proof (induction ps arbitrary: n)
  case Nil
  show ?case by (intro exI[of _ "next_index n"] exI[of _ "match_index n"]) simp
next
  case (Cons p ps)
  obtain a b where "fold reset_peer ps (reset_peer p n) = (reset_peer p n)\<lparr>next_index := a, match_index := b\<rparr>"
    using Cons.IH by blast
  then have "fold reset_peer (p # ps) n = n\<lparr>next_index := a, match_index := b\<rparr>" by (simp add: reset_peer_def)
  then show ?case by blast
qed

lemma fold_reset_peer_simps [simp]:
  "rn_log (fold reset_peer ps n) = rn_log n" "current_term (fold reset_peer ps n) = current_term n"
  "voted_for (fold reset_peer ps n) = voted_for n" "rn_role (fold reset_peer ps n) = rn_role n"
  "last_applied (fold reset_peer ps n) = last_applied n" "rn_config (fold reset_peer ps n) = rn_config n"
  "commit_index (fold reset_peer ps n) = commit_index n"
  "pending_membership (fold reset_peer ps n) = pending_membership n"
  "applied_entries (fold reset_peer ps n) = applied_entries n"
  "votes_received (fold reset_peer ps n) = votes_received n" "leader_id (fold reset_peer ps n) = leader_id n"
  "effective_config_of (fold reset_peer ps n) = effective_config_of n"
  "current_membership (fold reset_peer ps n) = current_membership n"
  using fold_reset_peer_frame[of ps n] by auto

lemma own_match_simps [simp]:
  "rn_log (own_match i n) = rn_log n" "current_term (own_match i n) = current_term n"
  "voted_for (own_match i n) = voted_for n" "rn_role (own_match i n) = rn_role n"
  "last_applied (own_match i n) = last_applied n" "rn_config (own_match i n) = rn_config n"
  "commit_index (own_match i n) = commit_index n" "pending_membership (own_match i n) = pending_membership n"
  "applied_entries (own_match i n) = applied_entries n" "votes_received (own_match i n) = votes_received n"
  "leader_id (own_match i n) = leader_id n" "effective_config_of (own_match i n) = effective_config_of n"
  "current_membership (own_match i n) = current_membership n"
  by (simp_all add: own_match_def)

lemma become_leader_vote [simp]:
  "current_term (fst (become_leader n)) = current_term n" "voted_for (fst (become_leader n)) = voted_for n"
  "node_id (fst (become_leader n)) = node_id n"
  by (simp_all add: become_leader_def Let_def case_prod_beta)

lemma term_next_in_range [simp]: "t + 1 < 2 ^ 64 \<Longrightarrow> term_next t = t + 1"
  by (simp add: term_next_def)

lemma vote_kept_start_election: "current_term n + 1 < 2 ^ 64 \<Longrightarrow> vote_kept n (fst (start_election n))"
  by (auto simp: start_election_def Let_def intro: vote_kept_newer vote_kept_same)

lemma fst_then_apply: "fst (then_apply r) = fst (try_advance_apply (fst r))"
  by (simp add: then_apply_def case_prod_beta Let_def)

lemma vote_kept_tick:
  assumes "current_term n + 1 < 2 ^ 64"
  shows "vote_kept n (fst (tick n))"
proof -
  have "vote_kept n (fst (tick_role n))"
    using assms vote_kept_start_election[of "n\<lparr>election_ticks := election_ticks n + 1\<rparr>"]
    by (auto simp: tick_role_def Let_def vote_kept_def)
  then show ?thesis by (simp add: tick_def fst_then_apply vote_kept_def)
qed

lemma ack_reads_simps [simp]:
  "rn_log (ack_reads p n) = rn_log n" "current_term (ack_reads p n) = current_term n"
  "voted_for (ack_reads p n) = voted_for n" "rn_role (ack_reads p n) = rn_role n"
  "last_applied (ack_reads p n) = last_applied n" "rn_config (ack_reads p n) = rn_config n"
  "commit_index (ack_reads p n) = commit_index n" "pending_membership (ack_reads p n) = pending_membership n"
  "applied_entries (ack_reads p n) = applied_entries n" "votes_received (ack_reads p n) = votes_received n"
  "leader_id (ack_reads p n) = leader_id n" "effective_config_of (ack_reads p n) = effective_config_of n"
  "current_membership (ack_reads p n) = current_membership n" "match_index (ack_reads p n) = match_index n"
  "next_index (ack_reads p n) = next_index n"
  by (simp_all add: ack_reads_def split: option.split)

lemma step_down_simps [simp]:
  "rn_log (step_down t n) = rn_log n" "current_term (step_down t n) = t" "voted_for (step_down t n) = None"
  "rn_role (step_down t n) = Follower" "last_applied (step_down t n) = last_applied n"
  "rn_config (step_down t n) = rn_config n" "commit_index (step_down t n) = commit_index n"
  "pending_membership (step_down t n) = pending_membership n" "votes_received (step_down t n) = []"
  "applied_entries (step_down t n) = applied_entries n"
  "effective_config_of (step_down t n) = effective_config_of n"
  "current_membership (step_down t n) = current_membership n"
  by (simp_all add: step_down_def)

lemma vote_kept_dispatch: "vote_kept n (fst (dispatch from m n))"
  by (cases m)
    (auto simp: on_vote_request_def on_vote_response_def on_append_request_def on_append_response_def
      on_install_snapshot_request_def on_install_snapshot_response_def on_config_change_request_def Let_def vote_kept_def)

lemma vote_kept_handle: "vote_kept n (fst (handle env n))"
proof -
  have "vote_kept n (observe_term t n)" for t by (simp add: observe_term_def vote_kept_def)
  then have "vote_kept n (fst (dispatch (env_from env) (env_message env) (observe_term (message_term (env_message env)) n)))"
    by (rule vote_kept_trans) (rule vote_kept_dispatch)
  then show ?thesis by (simp add: handle_def fst_then_apply vote_kept_def)
qed

lemma vote_kept_run_op:
  "(x = OpTick \<Longrightarrow> current_term n + 1 < 2 ^ 64) \<Longrightarrow> vote_kept n (fst (run_op x n))"
  by (cases x)
    (auto simp: vote_kept_tick vote_kept_handle propose_def propose_read_def broadcast_def compact_def
      transfer_leadership_def propose_membership_change_def restore_config_from_snapshot_def drain_ready_reads_def
      drain_applied_def drain_installed_snapshot_def Let_def intro!: vote_kept_same)


text \<open>Messages that replicate the log; they are all a node sends outside the replies of its handlers and its elections.\<close>

fun is_replication :: "message \<Rightarrow> bool" where
  "is_replication (AppendRequest _ _ _ _ _ _) = True"
| "is_replication (InstallSnapshotRequest _ _ _ _ _) = True"
| "is_replication _ = False"

definition replicates :: "u64 \<Rightarrow> envelope list \<Rightarrow> bool" where
  "replicates i out \<longleftrightarrow> (\<forall>e \<in> set out. env_from e = i \<and> is_replication (env_message e))"

lemma replicates_simps [simp]:
  "replicates i []" "replicates i (xs @ ys) \<longleftrightarrow> replicates i xs \<and> replicates i ys"
  by (auto simp: replicates_def)

lemma replicates_send_append_to [simp]: "replicates (node_id n) (snd (send_append_to p n))"
  by (simp add: send_append_to_def replicates_def Let_def envelope_new_def split: option.split)

lemma replicates_send_to_each: "replicates (node_id n) (snd (send_to_each ps n))"
proof (induction ps arbitrary: n)
  case Nil
  show ?case by simp
next
  case (Cons p ps)
  have "replicates (node_id n) (snd (send_to_each ps (fst (send_append_to p n))))"
    using Cons.IH[of "fst (send_append_to p n)"] by simp
  then show ?case by (simp add: Let_def case_prod_beta)
qed

lemma replicates_send_append_to_all [simp]: "replicates (node_id n) (snd (send_append_to_all n))"
  by (simp add: send_append_to_all_def replicates_send_to_each)

lemma replicates_apply_config: "replicates (node_id n) (snd (apply_config_command phase ms n))"
proof -
  have "replicates (node_id n) (snd (send_append_to_all (append_own c (m\<lparr>pending_membership := None\<rparr>))))"
    if "node_id m = node_id n" for c m
    using replicates_send_append_to_all[of "append_own c (m\<lparr>pending_membership := None\<rparr>)"] that by simp
  then show ?thesis
    by (auto simp: apply_config_command_def Let_def case_prod_beta split: config_change_phase.split option.split)
qed

lemma replicates_apply_next: "replicates (node_id n) (snd (apply_next n))"
  using replicates_apply_config[of "n\<lparr>last_applied := last_applied n + 1\<rparr>"]
  by (auto simp: apply_next_def Let_def case_prod_beta split: option.split sum.split raft_command.split)

lemma replicates_apply_loop [simp]: "replicates (node_id n) (snd (try_advance_apply n))"
proof (induction n rule: try_advance_apply.induct)
  case (1 n)
  then show ?case
    using replicates_apply_next[of n] 1[OF _ refl prod.collapse[of "apply_next n"]] apply_next_facts(4)[of n]
    by (subst try_advance_apply.simps) (simp add: case_prod_beta Let_def)
qed

lemma snd_then_apply: "snd (then_apply r) = snd r @ snd (try_advance_apply (fst r))"
  by (simp add: then_apply_def case_prod_beta Let_def)

lemma replicates_become_leader [simp]: "replicates (node_id n) (snd (become_leader n))"
proof -
  have "snd (become_leader n) = snd (send_append_to_all (append_own [] (own_match (last_index (rn_log n))
      (fold reset_peer (rc_peers (rn_config n)) (n\<lparr>rn_role := Leader, leader_id := Some (node_id n), heartbeat_ticks := 0\<rparr>)))))"
    by (simp add: become_leader_def Let_def case_prod_beta)
  then show ?thesis
    using replicates_send_append_to_all[of "append_own [] (own_match (last_index (rn_log n))
      (fold reset_peer (rc_peers (rn_config n)) (n\<lparr>rn_role := Leader, leader_id := Some (node_id n), heartbeat_ticks := 0\<rparr>)))"]
    by simp
qed

text \<open>A node grants a vote only to the candidate it has recorded, in its current term, and it sends in its own name.\<close>

definition grants_recorded :: "raft_node \<Rightarrow> envelope list \<Rightarrow> bool" where
  "grants_recorded n out \<longleftrightarrow>
    (\<forall>e \<in> set out. env_from e = node_id n \<and>
      (\<forall>t. env_message e = VoteResponse t True \<longrightarrow> t = current_term n \<and> voted_for n = Some (env_to e)))"

lemma grants_recorded_replicates: "replicates (node_id n) out \<Longrightarrow> grants_recorded n out"
  by (force simp: replicates_def grants_recorded_def)

lemma grants_recorded_append [simp]:
  "grants_recorded n [] = True" "grants_recorded n (xs @ ys) \<longleftrightarrow> grants_recorded n xs \<and> grants_recorded n ys"
  by (auto simp: grants_recorded_def)

lemma grants_recorded_then_apply:
  assumes "grants_recorded (fst r) (snd r)"
  shows "grants_recorded (fst (then_apply r)) (snd (then_apply r))"
proof -
  have "grants_recorded (fst (try_advance_apply (fst r))) (snd (try_advance_apply (fst r)))"
    using replicates_apply_loop[of "fst r"] by (intro grants_recorded_replicates) simp
  then show ?thesis using assms by (auto simp: fst_then_apply snd_then_apply grants_recorded_def)
qed

lemma grants_recorded_become_leader: "grants_recorded (fst (become_leader n)) (snd (become_leader n))"
  using replicates_become_leader[of n] by (intro grants_recorded_replicates) simp

lemma grants_recorded_send_all: "grants_recorded (fst (send_append_to_all n)) (snd (send_append_to_all n))"
  using replicates_send_append_to_all[of n] by (intro grants_recorded_replicates) simp

lemma grants_recorded_send: "grants_recorded (fst (send_append_to p n)) (snd (send_append_to p n))"
  using replicates_send_append_to[of n p] by (intro grants_recorded_replicates) simp

lemma grants_recorded_start_election: "grants_recorded (fst (start_election n)) (snd (start_election n))"
  by (auto simp: start_election_def Let_def grants_recorded_become_leader) (auto simp: grants_recorded_def envelope_new_def)

lemma grants_recorded_append_response:
  "grants_recorded (fst (on_append_response from t ok mi n)) (snd (on_append_response from t ok mi n))"
proof -
  have "grants_recorded m []" for m by simp
  then show ?thesis
    unfolding on_append_response_def Let_def by (simp del: send_append_to_frame add: grants_recorded_send)
qed

lemma grants_recorded_dispatch: "grants_recorded (fst (dispatch from m n)) (snd (dispatch from m n))"
proof (cases m)
  case (AppendResponse t ok mi)
  then show ?thesis by (simp add: grants_recorded_append_response)
next
  case (VoteResponse t g)
  then show ?thesis by (simp add: on_vote_response_def Let_def grants_recorded_become_leader)
qed (auto simp: on_vote_request_def on_append_request_def on_install_snapshot_request_def
    on_config_change_request_def Let_def grants_recorded_def envelope_new_def)

lemma grants_recorded_run_op: "grants_recorded (fst (run_op x n)) (snd (run_op x n))"
proof (cases x)
  case OpTick
  have "grants_recorded (fst (tick_role n)) (snd (tick_role n))"
    by (simp add: tick_role_def Let_def grants_recorded_start_election grants_recorded_send_all)
  then show ?thesis using OpTick by (simp add: tick_def grants_recorded_then_apply)
next
  case (OpHandle env)
  then show ?thesis by (simp add: handle_def grants_recorded_then_apply grants_recorded_dispatch)
next
  case OpBroadcast
  then show ?thesis by (simp add: broadcast_def grants_recorded_send_all)
qed simp_all

text \<open>A run of a node under its driver: the states it goes through and what it sends.\<close>

fun run_ops :: "node_op list \<Rightarrow> raft_node \<Rightarrow> raft_node" where
  "run_ops [] n = n"
| "run_ops (x # xs) n = run_ops xs (fst (run_op x n))"

definition term_has_next :: "nat \<Rightarrow> bool" where
  "term_has_next t \<longleftrightarrow> t + 1 < 2 ^ 64"

lemma term_has_next_code [code]: "term_has_next t \<longleftrightarrow> int t < 18446744073709551615"
  unfolding term_has_next_def by simp

text \<open>The operations of a run during which no tick finds the node in the last term, from which the next one wraps around.\<close>

fun no_term_overflow :: "node_op list \<Rightarrow> raft_node \<Rightarrow> bool" where
  "no_term_overflow [] n = True"
| "no_term_overflow (x # xs) n =
    ((case x of OpTick \<Rightarrow> term_has_next (current_term n) | _ \<Rightarrow> True) \<and> no_term_overflow xs (fst (run_op x n)))"

lemma vote_kept_run_ops: "no_term_overflow xs n \<Longrightarrow> vote_kept n (run_ops xs n)"
proof (induction xs arbitrary: n)
  case Nil
  show ?case by simp
next
  case (Cons x xs)
  then have "vote_kept n (fst (run_op x n))" by (intro vote_kept_run_op) (simp add: term_has_next_def)
  then show ?case using Cons by (auto intro: vote_kept_trans)
qed

lemma run_ops_append: "run_ops (xs @ ys) n = run_ops ys (run_ops xs n)"
  by (induction xs arbitrary: n) simp_all

text \<open>
  C3. A running node gives its vote to at most one candidate in a term. If it grants its vote in some
  operation and, after any further operations (ticks, messages in any order, proposals, compactions, transfers,
  membership changes), grants it again in the same term, both grants go to the same node. The operations in between
  contain no tick in term 2^64 - 1, after which the term would start again from 0.
\<close>

theorem node_votes_once:
  assumes "e \<in> set (snd (run_op x n))" and "env_message e = VoteResponse t True"
    and "e' \<in> set (snd (run_op y (run_ops xs (fst (run_op x n)))))" and "env_message e' = VoteResponse t True"
    and "no_term_overflow (xs @ [y]) (fst (run_op x n))"
  shows "env_to e' = env_to e"
proof -
  let ?a = "fst (run_op x n)" and ?b = "fst (run_op y (run_ops xs (fst (run_op x n))))"
  have "voted_for ?a = Some (env_to e)" "current_term ?a = t"
    using grants_recorded_run_op[of x n] assms(1,2) by (auto simp: grants_recorded_def)
  moreover have "voted_for ?b = Some (env_to e')" "current_term ?b = t"
    using grants_recorded_run_op[of y "run_ops xs ?a"] assms(3,4) by (auto simp: grants_recorded_def)
  moreover have "vote_kept ?a ?b" using vote_kept_run_ops[OF assms(5)] by (simp add: run_ops_append)
  ultimately show ?thesis by (simp add: vote_kept_def)
qed

definition example_vote_request :: envelope where
  "example_vote_request = envelope_new 2 1 (VoteRequest 5 2 9 4)"

theorem node_votes_once_witness:
  "\<exists>e e'. e \<in> set (snd (run_op (OpHandle example_vote_request) (node_new (example_config 1 [2, 3])))) \<and>
    e' \<in> set (snd (run_op (OpHandle example_vote_request)
      (run_ops [OpDrainReads] (fst (run_op (OpHandle example_vote_request) (node_new (example_config 1 [2, 3]))))))) \<and>
    env_message e = VoteResponse 5 True \<and> env_message e' = VoteResponse 5 True \<and> env_to e' = env_to e"
proof -
  let ?n = "node_new (example_config 1 [2, 3])" and ?x = "OpHandle example_vote_request"
  let ?e = "envelope_new 1 2 (VoteResponse 5 True)"
  have "?e \<in> set (snd (run_op ?x ?n))" by code_simp
  moreover have "?e \<in> set (snd (run_op ?x (run_ops [OpDrainReads] (fst (run_op ?x ?n)))))" by code_simp
  moreover have "env_message ?e = VoteResponse 5 True" by (simp add: envelope_new_def)
  moreover have "no_term_overflow ([OpDrainReads] @ [?x]) (fst (run_op ?x ?n))" by code_simp
  ultimately show ?thesis using node_votes_once[of ?e ?x ?n 5 ?e ?x "[OpDrainReads]"] by blast
qed

text \<open>
  The condition on the terms is needed. After a message of the last term, the next election of the node starts in
  term 0, and a vote it gave before is given again to another candidate.
\<close>

definition node_in_term :: "nat \<Rightarrow> raft_node" where
  "node_in_term t = (node_new (example_config 1 [2, 3]))\<lparr>current_term := t\<rparr>"

definition late_term_ops :: "node_op list" where
  "late_term_ops = [OpHandle (envelope_new 3 1 (AppendResponse (2 ^ 64 - 1) False 0)), OpTick, OpTick]"

lemma late_term_adopted:
  assumes "5 < t"
  shows "fst (run_op (OpHandle (envelope_new 3 1 (AppendResponse t False 0))) ((node_in_term 5)\<lparr>voted_for := Some 2\<rparr>)) =
    node_in_term t"
proof -
  have "step_down t ((node_in_term 5)\<lparr>voted_for := Some 2\<rparr>) = node_in_term t"
    "fst (try_advance_apply (node_in_term t)) = node_in_term t" "rn_role (node_in_term t) = Follower"
    "current_term ((node_in_term 5)\<lparr>voted_for := Some 2\<rparr>) = 5" by code_simp+
  then show ?thesis using assms
    by (simp add: handle_def observe_term_def envelope_new_def fst_then_apply on_append_response_def)
qed

lemma second_vote_after_overflow:
  "envelope_new 1 2 (VoteResponse 5 True) \<in> set (snd (run_op (OpHandle example_vote_request) (node_in_term 0))) \<and>
   envelope_new 1 3 (VoteResponse 5 True) \<in> set (snd (run_op (OpHandle (envelope_new 3 1 (VoteRequest 5 3 9 4)))
     (run_ops late_term_ops (fst (run_op (OpHandle example_vote_request) (node_in_term 0))))))"
proof -
  let ?m = "(node_in_term 0)\<lparr>rn_role := Candidate, voted_for := Some 1, votes_received := [1]\<rparr>"
  have "fst (tick (fst (tick (node_in_term t)))) =
      (node_in_term (term_next t))\<lparr>rn_role := Candidate, voted_for := Some 1, votes_received := [1]\<rparr>" for t
    by code_simp
  then have "run_ops late_term_ops ((node_in_term 5)\<lparr>voted_for := Some 2\<rparr>) = ?m"
    using late_term_adopted[of "2 ^ 64 - 1"] by (simp add: late_term_ops_def term_next_def)
  moreover have "fst (run_op (OpHandle example_vote_request) (node_in_term 0)) = (node_in_term 5)\<lparr>voted_for := Some 2\<rparr>"
    "envelope_new 1 2 (VoteResponse 5 True) \<in> set (snd (run_op (OpHandle example_vote_request) (node_in_term 0)))"
    "envelope_new 1 3 (VoteResponse 5 True) \<in> set (snd (run_op (OpHandle (envelope_new 3 1 (VoteRequest 5 3 9 4))) ?m))"
    by code_simp+
  ultimately show ?thesis by simp
qed

end
