(* ===== verification/Raft_Cluster.thy ===== *)
theory Raft_Cluster
  imports Raft_Handlers
begin

text \<open>
  A cluster of Raft nodes as the event loop of \<^verbatim>\<open>src/crates/kaya-server/src/cluster/election.rs\<close> drives them: an operation on
  a node and the sending of its messages is one step, writing the node's durable state is another, and a node
  may be restarted from what was written. The network keeps every message ever sent and may deliver any of them,
  any number of times and in any order, or never. Election safety is proved for an odd number of voters, none of them
  node 0, restarts from an up-to-date durable state and terms below 2^64 - 1; for an even number of voters, and for restarts between the sending
  of a vote and its writing, runs with two leaders in one term are exhibited.
\<close>

section \<open>Nodes whose log holds no membership change\<close>

definition is_config_command :: "bytes \<Rightarrow> bool" where
  "is_config_command c = (case command_decode c of Inr (CmdConfigChange _ _) \<Rightarrow> True | _ \<Rightarrow> False)"

definition plain_entries :: "log_entry list \<Rightarrow> bool" where
  "plain_entries es \<longleftrightarrow> (\<forall>e \<in> set es. \<not> is_config_command (le_command e))"

lemma noop_plain [simp]: "\<not> is_config_command []"
  by (simp add: is_config_command_def command_decode_def next_u8_def)

lemma plain_entries_simps [simp]:
  "plain_entries []" "plain_entries (e # es) \<longleftrightarrow> \<not> is_config_command (le_command e) \<and> plain_entries es"
  "plain_entries (xs @ ys) \<longleftrightarrow> plain_entries xs \<and> plain_entries ys"
  by (auto simp: plain_entries_def)

lemma plain_entries_sub: "set xs \<subseteq> set ys \<Longrightarrow> plain_entries ys \<Longrightarrow> plain_entries xs"
  by (auto simp: plain_entries_def)

lemma log_get_mem: "log_get l i = Some e \<Longrightarrow> e \<in> set (ml_entries l)"
  by (auto simp: log_get_def nth_opt_def split: if_splits)

lemma apply_next_plain:
  assumes "plain_entries (ml_entries (rn_log n))"
  shows "\<exists>ae. apply_next n = (n\<lparr>last_applied := last_applied n + 1, applied_entries := ae\<rparr>, [])"
proof (cases "log_get (rn_log n) (last_applied n + 1)")
  case None
  then have "apply_next n = (n\<lparr>last_applied := last_applied n + 1, applied_entries := applied_entries n\<rparr>, [])"
    by (simp add: apply_next_def Let_def)
  then show ?thesis by blast
next
  case (Some e)
  then have "\<not> is_config_command (le_command e)" using assms log_get_mem[OF Some] by (simp add: plain_entries_def)
  then have "apply_next n = (n\<lparr>last_applied := last_applied n + 1,
      applied_entries := applied_entries n @ [(last_applied n + 1, le_term e, le_command e)]\<rparr>, [])"
    using Some by (auto simp: apply_next_def Let_def is_config_command_def split: sum.splits raft_command.splits)
  then show ?thesis by blast
qed

lemma try_advance_apply_plain:
  assumes "plain_entries (ml_entries (rn_log n))"
  shows "\<exists>la ae pr rr. try_advance_apply n =
    (n\<lparr>last_applied := la, applied_entries := ae, pending_reads := pr, ready_reads := rr\<rparr>, [])"
  using assms
proof (induction n rule: try_advance_apply.induct)
  case (1 n)
  show ?case
  proof (cases "last_applied n < commit_index n")
    case True
    obtain ae where ae: "apply_next n = (n\<lparr>last_applied := last_applied n + 1, applied_entries := ae\<rparr>, [])"
      using apply_next_plain[OF 1(2)] by blast
    let ?m = "n\<lparr>last_applied := last_applied n + 1, applied_entries := ae\<rparr>"
    obtain la ae' pr rr where "try_advance_apply ?m =
        (?m\<lparr>last_applied := la, applied_entries := ae', pending_reads := pr, ready_reads := rr\<rparr>, [])"
      using 1(1)[OF True refl ae[symmetric]] 1(2) by auto
    then have "try_advance_apply n =
        (n\<lparr>last_applied := la, applied_entries := ae', pending_reads := pr, ready_reads := rr\<rparr>, [])"
      using True ae by (subst try_advance_apply.simps) simp
    then show ?thesis by blast
  next
    case False
    then have "try_advance_apply n = (n\<lparr>last_applied := last_applied n, applied_entries := applied_entries n,
        pending_reads := pending_reads (check_pending_reads n), ready_reads := ready_reads (check_pending_reads n)\<rparr>, [])"
      by (subst try_advance_apply.simps) (simp add: check_pending_reads_frame[symmetric])
    then show ?thesis by blast
  qed
qed

lemma apply_loop_plain:
  assumes "plain_entries (ml_entries (rn_log n))"
  shows "rn_log (fst (try_advance_apply n)) = rn_log n" "rn_role (fst (try_advance_apply n)) = rn_role n"
    "votes_received (fst (try_advance_apply n)) = votes_received n" "rn_config (fst (try_advance_apply n)) = rn_config n"
    "effective_config_of (fst (try_advance_apply n)) = effective_config_of n"
    "pending_membership (fst (try_advance_apply n)) = pending_membership n"
    "commit_index (fst (try_advance_apply n)) = commit_index n" "next_index (fst (try_advance_apply n)) = next_index n"
    "match_index (fst (try_advance_apply n)) = match_index n" "snd (try_advance_apply n) = []"
    "current_membership (fst (try_advance_apply n)) = current_membership n"
  using try_advance_apply_plain[OF assms] by auto

definition leader_start :: "raft_node \<Rightarrow> raft_node" where
  "leader_start n =
    append_own [] (own_match (last_index (rn_log n)) (fold reset_peer (rc_peers (rn_config n))
      (n\<lparr>rn_role := Leader, leader_id := Some (node_id n), heartbeat_ticks := 0\<rparr>)))"

lemma become_leader_eq:
  "become_leader n =
    (fst (try_advance_apply (try_advance_commit (fst (send_append_to_all (leader_start n))))),
     snd (send_append_to_all (leader_start n)))"
  by (simp add: become_leader_def leader_start_def Let_def case_prod_beta)

lemma leader_start_simps [simp]:
  "rn_log (leader_start n) = log_append \<lparr>le_term = current_term n, le_command = []\<rparr> (rn_log n)"
  "rn_role (leader_start n) = Leader" "current_term (leader_start n) = current_term n"
  "voted_for (leader_start n) = voted_for n" "rn_config (leader_start n) = rn_config n"
  "votes_received (leader_start n) = votes_received n" "commit_index (leader_start n) = commit_index n"
  "effective_config_of (leader_start n) = effective_config_of n"
  "pending_membership (leader_start n) = pending_membership n" "last_applied (leader_start n) = last_applied n"
  "current_membership (leader_start n) = current_membership n"
  by (simp_all add: leader_start_def)

lemma entries_log_append [simp]: "ml_entries (log_append e l) = ml_entries l @ [e]"
  by (simp add: log_append_def)

lemma become_leader_plain:
  assumes "plain_entries (ml_entries (rn_log n))"
  shows "rn_log (fst (become_leader n)) = log_append \<lparr>le_term = current_term n, le_command = []\<rparr> (rn_log n)"
    "rn_role (fst (become_leader n)) = Leader" "votes_received (fst (become_leader n)) = votes_received n"
    "effective_config_of (fst (become_leader n)) = effective_config_of n"
    "pending_membership (fst (become_leader n)) = pending_membership n"
    "current_membership (fst (become_leader n)) = current_membership n"
  using assms by (simp_all add: become_leader_eq apply_loop_plain)


text \<open>Such a node keeps its configuration.\<close>

definition stable_node :: "u64 list \<Rightarrow> u64 \<Rightarrow> raft_node \<Rightarrow> bool" where
  "stable_node vs i n \<longleftrightarrow> node_id n = i \<and> effective_config_of n = StableConfig \<lparr>voters = vs\<rparr> \<and>
    pending_membership n = None \<and> plain_entries (ml_entries (rn_log n))"

fun plain_message :: "message \<Rightarrow> bool" where
  "plain_message (AppendRequest _ _ _ _ es _) = plain_entries es"
| "plain_message _ = True"

definition plain_out :: "envelope list \<Rightarrow> bool" where
  "plain_out out \<longleftrightarrow> (\<forall>e \<in> set out. plain_message (env_message e))"

fun op_plain :: "node_op \<Rightarrow> bool" where
  "op_plain (OpHandle env) = plain_message (env_message env)"
| "op_plain (OpPropose c) = (\<not> is_config_command c)"
| "op_plain (OpMembership ms) = False"
| "op_plain (OpRestoreConfig ms) = False"
| "op_plain _ = True"

lemma plain_out_simps [simp]:
  "plain_out []" "plain_out (xs @ ys) \<longleftrightarrow> plain_out xs \<and> plain_out ys"
  "plain_out [envelope_new a b m] \<longleftrightarrow> plain_message m"
  by (auto simp: plain_out_def envelope_new_def)

lemma entries_from_sub: "set (entries_from k l) \<subseteq> set (ml_entries l)"
  by (auto simp: entries_from_def Let_def dest: in_set_dropD)

lemma plain_send_append_to:
  "plain_entries (ml_entries (rn_log n)) \<Longrightarrow> plain_out (snd (send_append_to p n))"
  using plain_entries_sub[OF entries_from_sub]
  by (auto simp: send_append_to_def Let_def split: option.split)

lemma plain_send_to_each:
  "plain_entries (ml_entries (rn_log n)) \<Longrightarrow> plain_out (snd (send_to_each ps n))"
proof (induction ps arbitrary: n)
  case Nil
  show ?case by simp
next
  case (Cons p ps)
  then show ?case using Cons.IH[of "fst (send_append_to p n)"] plain_send_append_to[of n p]
    by (simp add: Let_def case_prod_beta)
qed

lemma plain_send_append_to_all:
  "plain_entries (ml_entries (rn_log n)) \<Longrightarrow> plain_out (snd (send_append_to_all n))"
  by (simp add: send_append_to_all_def plain_send_to_each)

lemma append_entries_sub: "set (ml_entries (append_entries k es l)) \<subseteq> set es \<union> set (ml_entries l)"
proof (induction k es l rule: append_entries.induct)
  case (1 idx l)
  show ?case by simp
next
  case (2 idx e es l)
  have "set (ml_entries (truncate_from idx l)) \<subseteq> set (ml_entries l)"
    by (auto simp: truncate_from_def Let_def dest: in_set_takeD)
  then show ?case using 2 by (force split: option.splits if_splits)
qed

lemma install_sub: "set (ml_entries (log_install_snapshot i t d l)) \<subseteq> set (ml_entries l)"
  by (auto simp: log_install_snapshot_def Let_def dest: in_set_dropD)

definition stable_result :: "u64 list \<Rightarrow> u64 \<Rightarrow> raft_node \<times> envelope list \<Rightarrow> bool" where
  "stable_result vs i r \<longleftrightarrow> stable_node vs i (fst r) \<and> plain_out (snd r)"

lemma stable_then_apply: "stable_result vs i r \<Longrightarrow> stable_result vs i (then_apply r)"
  by (simp add: stable_result_def stable_node_def fst_then_apply snd_then_apply apply_loop_plain)

lemma stable_become_leader: "stable_node vs i n \<Longrightarrow> stable_result vs i (become_leader n)"
  by (simp add: stable_result_def stable_node_def become_leader_plain)
    (simp add: become_leader_eq plain_send_append_to_all)

lemma stable_start_election: "stable_node vs i n \<Longrightarrow> stable_result vs i (start_election n)"
proof -
  assume n: "stable_node vs i n"
  have "stable_node vs i (n\<lparr>current_term := t, rn_role := Candidate, voted_for := v, election_ticks := 0, votes_received := vr\<rparr>)"
    for t v vr using n by (simp add: stable_node_def)
  from stable_become_leader[OF this] show ?thesis using n
    by (auto simp: start_election_def Let_def) (auto simp: stable_result_def stable_node_def plain_out_def envelope_new_def)
qed

lemma stable_send_append_to: "stable_node vs i n \<Longrightarrow> stable_result vs i (send_append_to p n)"
  by (simp add: stable_result_def stable_node_def plain_send_append_to)

lemma stable_send_append_to_all: "stable_node vs i n \<Longrightarrow> stable_result vs i (send_append_to_all n)"
  by (simp add: stable_result_def stable_node_def plain_send_append_to_all)

lemma stable_append_response: "stable_node vs i n \<Longrightarrow> stable_result vs i (on_append_response f t ok mi n)"
proof -
  assume n: "stable_node vs i n"
  then have "stable_node vs i (try_advance_commit (m\<lparr>match_index := a, next_index := b\<rparr>))"
    "stable_node vs i (try_advance_commit m)" "stable_node vs i (m\<lparr>next_index := b\<rparr>)"
    if "m = n \<or> m = ack_reads f n" for m a b
    using that by (auto simp: stable_node_def)
  then show ?thesis using n
    by (simp add: on_append_response_def Let_def stable_send_append_to) (simp add: stable_result_def)
qed

lemma stable_dispatch:
  assumes n: "stable_node vs i n" and m: "plain_message m"
  shows "stable_result vs i (dispatch from m n)"
proof (cases m)
  case (AppendResponse t ok mi)
  then show ?thesis using n by (simp add: stable_append_response)
next
  case (VoteResponse t g)
  have "stable_node vs i (n\<lparr>votes_received := vr\<rparr>)" for vr using n by (simp add: stable_node_def)
  from stable_become_leader[OF this] this show ?thesis using VoteResponse n
    by (simp add: on_vote_response_def Let_def) (simp add: stable_result_def)
next
  case (AppendRequest t l pi pt es lc)
  have "plain_entries (ml_entries (append_entries k es (rn_log n)))" for k
    using n m AppendRequest append_entries_sub[of k es "rn_log n"]
    by (auto simp: stable_node_def plain_entries_def)
  then show ?thesis using AppendRequest n by (auto simp: on_append_request_def Let_def stable_result_def stable_node_def)
next
  case (InstallSnapshotRequest t l k kt d)
  have "plain_entries (ml_entries (log_install_snapshot k kt d (rn_log n)))"
    using n plain_entries_sub[OF install_sub] by (auto simp: stable_node_def)
  then show ?thesis using InstallSnapshotRequest n
    by (auto simp: on_install_snapshot_request_def Let_def stable_result_def stable_node_def)
qed (use n in \<open>auto simp: on_vote_request_def on_install_snapshot_response_def on_config_change_request_def Let_def
    stable_result_def stable_node_def\<close>)

lemma stable_observe [simp]: "stable_node vs i n \<Longrightarrow> stable_node vs i (observe_term t n)"
  by (simp add: observe_term_def stable_node_def)

lemma stable_run_op:
  assumes n: "stable_node vs i n" and x: "op_plain x"
  shows "stable_result vs i (run_op x n)"
proof (cases x)
  case OpTick
  have "stable_node vs i (n\<lparr>heartbeat_ticks := k\<rparr>)" "stable_node vs i (n\<lparr>election_ticks := k\<rparr>)" for k
    using n by (simp_all add: stable_node_def)
  then have "stable_result vs i (tick_role n)"
    using stable_send_append_to_all[of vs i "n\<lparr>heartbeat_ticks := 0\<rparr>"]
      stable_start_election[of vs i "n\<lparr>election_ticks := election_ticks n + 1\<rparr>"]
    by (simp add: tick_role_def Let_def) (simp add: stable_result_def)
  then show ?thesis using OpTick by (simp add: tick_def stable_then_apply)
next
  case (OpHandle env)
  then show ?thesis using n x by (simp add: handle_def stable_then_apply stable_dispatch)
next
  case (OpPropose c)
  then show ?thesis using n x
    by (auto simp: propose_def Let_def stable_result_def stable_node_def apply_loop_plain)
next
  case OpBroadcast
  then show ?thesis using n by (simp add: broadcast_def stable_send_append_to_all) (simp add: stable_result_def)
next
  case (OpCompact k t d)
  then show ?thesis using n plain_entries_sub[OF install_sub[of k t d "rn_log n"]]
    by (auto simp: compact_def Let_def stable_result_def stable_node_def)
qed (use n x in \<open>auto simp: propose_read_def transfer_leadership_def drain_ready_reads_def drain_applied_def
    drain_installed_snapshot_def Let_def stable_result_def stable_node_def\<close>)


text \<open>How a node comes to be a candidate or a leader.\<close>

definition campaigns :: "node_op \<Rightarrow> raft_node \<Rightarrow> raft_node \<Rightarrow> bool" where
  "campaigns x n n' \<longleftrightarrow>
    rn_role n' = Follower \<or>
    rn_role n' = rn_role n \<and> current_term n' = current_term n \<and> votes_received n' = votes_received n \<or>
    current_term n' = term_next (current_term n) \<and> votes_received n' = [node_id n] \<and> voted_for n' = Some (node_id n) \<and>
      (rn_role n' = Leader \<longrightarrow> 1 \<ge> election_quorum (effective_config_of n)) \<or>
    (\<exists>env. x = OpHandle env \<and> env_message env = VoteResponse (current_term n) True \<and> rn_role n = Candidate \<and>
      current_term n' = current_term n \<and> votes_received n' = List.insert (env_from env) (votes_received n) \<and>
      (rn_role n' = Leader \<longrightarrow> length (votes_received n') \<ge> election_quorum (effective_config_of n)))"

lemma campaigns_same:
  "rn_role n' = rn_role n \<Longrightarrow> current_term n' = current_term n \<Longrightarrow> votes_received n' = votes_received n \<Longrightarrow> campaigns x n n'"
  by (simp add: campaigns_def)

lemma campaigns_follower: "rn_role n' = Follower \<Longrightarrow> campaigns x n n'"
  by (simp add: campaigns_def)

lemma campaigns_then_apply:
  "plain_entries (ml_entries (rn_log (fst r))) \<Longrightarrow> campaigns x n (fst r) \<Longrightarrow> campaigns x n (fst (then_apply r))"
  by (simp add: campaigns_def fst_then_apply apply_loop_plain)

lemma campaigns_start_election:
  assumes "plain_entries (ml_entries (rn_log n))"
  shows "campaigns OpTick n (fst (start_election n))"
  using assms by (auto simp: campaigns_def start_election_def Let_def become_leader_plain)

lemma campaigns_dispatch:
  assumes n: "plain_entries (ml_entries (rn_log n))" and t: "message_term m \<le> current_term n" and m: "m = env_message env"
  shows "campaigns (OpHandle env) n (fst (dispatch (env_from env) m n))"
proof (cases m)
  case (VoteResponse t g)
  then show ?thesis using assms by (auto simp: on_vote_response_def Let_def campaigns_def become_leader_plain)
next
  case (AppendRequest t l pi pt es lc)
  then show ?thesis by (auto simp: on_append_request_def Let_def intro: campaigns_same campaigns_follower)
qed (use t in \<open>auto simp: on_vote_request_def on_append_response_def on_install_snapshot_request_def
    on_install_snapshot_response_def on_config_change_request_def Let_def intro!: campaigns_same\<close>)

lemma dispatch_follower:
  assumes "rn_role n = Follower" and "message_term m \<le> current_term n"
  shows "rn_role (fst (dispatch from m n)) = Follower"
  using assms
  by (cases m) (auto simp: on_vote_request_def on_vote_response_def on_append_request_def on_append_response_def
    on_install_snapshot_request_def on_install_snapshot_response_def on_config_change_request_def Let_def)

lemma campaigns_run_op:
  assumes n: "stable_node vs i n" and x: "op_plain x"
  shows "campaigns x n (fst (run_op x n))"
proof (cases x)
  case OpTick
  have p: "plain_entries (ml_entries (rn_log n))" using n by (simp add: stable_node_def)
  have s: "stable_result vs i (tick_role n)" if "rn_role n \<noteq> Leader"
    using stable_start_election[of vs i "n\<lparr>election_ticks := election_ticks n + 1\<rparr>"] n that
    by (auto simp: tick_role_def Let_def stable_result_def stable_node_def)
  have "campaigns OpTick n (fst (tick_role n)) \<and> plain_entries (ml_entries (rn_log (fst (tick_role n))))"
  proof (cases "rn_role n = Leader")
    case True
    then show ?thesis using p by (auto simp: tick_role_def Let_def intro: campaigns_same)
  next
    case False
    have "campaigns OpTick n (fst (start_election (n\<lparr>election_ticks := election_ticks n + 1\<rparr>)))"
      using campaigns_start_election[of "n\<lparr>election_ticks := election_ticks n + 1\<rparr>"] p by (simp add: campaigns_def)
    then have "campaigns OpTick n (fst (tick_role n))"
      using False by (auto simp: tick_role_def Let_def intro: campaigns_same)
    then show ?thesis using s[OF False] by (simp add: stable_result_def stable_node_def)
  qed
  then show ?thesis using OpTick by (simp add: tick_def campaigns_then_apply)
next
  case (OpHandle env)
  let ?t = "message_term (env_message env)" and ?m = "env_message env"
  let ?r = "dispatch (env_from env) ?m (observe_term ?t n)"
  have s: "stable_result vs i ?r" using n x OpHandle by (intro stable_dispatch) simp_all
  have "campaigns x n (fst ?r)"
  proof (cases "?t > current_term n")
    case True
    then have "rn_role (fst ?r) = Follower" by (intro dispatch_follower) (simp_all add: observe_term_def)
    then show ?thesis by (rule campaigns_follower)
  next
    case False
    then have "observe_term ?t n = n" by (simp add: observe_term_def)
    then show ?thesis using False n OpHandle campaigns_dispatch[of n ?m env] by (simp add: stable_node_def)
  qed
  then show ?thesis using OpHandle s by (simp add: handle_def campaigns_then_apply stable_result_def stable_node_def)
next
  case (OpPropose c)
  then show ?thesis using n x
    by (auto simp: propose_def Let_def stable_node_def apply_loop_plain intro!: campaigns_same)
next
  case (OpTransfer t)
  then show ?thesis by (auto simp: transfer_leadership_def intro: campaigns_same campaigns_follower)
qed (use x in \<open>auto simp: propose_read_def broadcast_def compact_def drain_ready_reads_def drain_applied_def
    drain_installed_snapshot_def Let_def intro!: campaigns_same\<close>)


text \<open>Whom a node votes for.\<close>

definition votes_for :: "node_op \<Rightarrow> raft_node \<Rightarrow> raft_node \<Rightarrow> bool" where
  "votes_for x n n' \<longleftrightarrow> (\<forall>w. voted_for n' = Some w \<longrightarrow>
    voted_for n = Some w \<or> w = node_id n \<or> (\<exists>env. x = OpHandle env \<and> w = env_from env))"

lemma votes_for_run_op: "votes_for x n (fst (run_op x n))"
proof (cases x)
  case OpTick
  show ?thesis using OpTick
    by (auto simp: votes_for_def tick_def fst_then_apply tick_role_def start_election_def Let_def split: if_splits)
next
  case (OpHandle env)
  then show ?thesis
    by (cases "env_message env") (auto simp: votes_for_def handle_def fst_then_apply observe_term_def Let_def
      on_vote_request_def on_vote_response_def on_append_request_def on_append_response_def
      on_install_snapshot_request_def on_install_snapshot_response_def on_config_change_request_def split: if_splits)
qed (auto simp: votes_for_def propose_def propose_read_def broadcast_def compact_def transfer_leadership_def
    propose_membership_change_def restore_config_from_snapshot_def drain_ready_reads_def drain_applied_def
    drain_installed_snapshot_def Let_def split: if_splits)

section \<open>The cluster\<close>

text \<open>
  The last two fields record the history of a run for the statements about it: every vote a node has held, as
  voter, term and candidate, and every leader there has been, with its term.
\<close>

record cluster =
  nodes :: "u64 \<Rightarrow> raft_node"
  net :: "envelope list"
  disk :: "u64 \<Rightarrow> (bytes \<times> bytes) option"
  votes_cast :: "(u64 \<times> nat \<times> u64) set"
  elected :: "(nat \<times> u64) set"

definition cluster_new :: "(u64 \<Rightarrow> raft_config) \<Rightarrow> cluster" where
  "cluster_new cfg =
    \<lparr>nodes = (\<lambda>i. node_new (cfg i)), net = [], disk = (\<lambda>i. None), votes_cast = {}, elected = {}\<rparr>"

definition after_op :: "u64 \<Rightarrow> raft_node \<times> envelope list \<Rightarrow> cluster \<Rightarrow> cluster" where
  "after_op i r c =
    c\<lparr>nodes := (nodes c)(i := fst r), net := net c @ snd r,
      votes_cast := votes_cast c \<union> (case voted_for (fst r) of Some v \<Rightarrow> {(i, current_term (fst r), v)} | None \<Rightarrow> {}),
      elected := elected c \<union> (if rn_role (fst r) = Leader then {(current_term (fst r), i)} else {})\<rparr>"

definition saved_state :: "raft_node \<Rightarrow> bytes \<times> bytes" where
  "saved_state n = (save_hard_state (pr_hard_state (persist_view n)), save_log (pr_log (persist_view n)))"

definition flush_view :: "u64 \<Rightarrow> cluster \<Rightarrow> cluster" where
  "flush_view i c = c\<lparr>disk := (disk c)(i := Some (saved_state (nodes c i)))\<rparr>"

definition load_node :: "raft_config \<Rightarrow> nat \<Rightarrow> (bytes \<times> bytes) option \<Rightarrow> string + raft_node" where
  "load_node config apply_floor files =
    res_bind (raft_load (map_option fst files) (map_option snd files)) (\<lambda>st.
      Inr (if pr_hard_state st = default_hard_state \<and> last_index (pr_log st) = 0 then node_new config
           else set_recovered_apply_floor apply_floor (node_recover config st)))"

text \<open>A node is up to date on disk when its last write is its present state and every number fits its field.\<close>

definition flushed :: "cluster \<Rightarrow> u64 \<Rightarrow> bool" where
  "flushed c i \<longleftrightarrow> disk c i = Some (saved_state (nodes c i)) \<and> current_term (nodes c i) < 2 ^ 64 \<and>
    last_included_index (rn_log (nodes c i)) < 2 ^ 64 \<and> last_included_term (rn_log (nodes c i)) < 2 ^ 64 \<and>
    log_fits (rn_log (nodes c i))"

fun keeps_membership :: "node_op \<Rightarrow> bool" where
  "keeps_membership (OpPropose c) = (\<not> is_config_command c)"
| "keeps_membership (OpMembership ms) = False"
| "keeps_membership (OpRestoreConfig ms) = False"
| "keeps_membership _ = True"

text \<open>The steps of a cluster with fixed voters. With \<^term>\<open>synced\<close>, only nodes that are up to date on disk are restarted.\<close>

inductive cluster_step :: "bool \<Rightarrow> (u64 \<Rightarrow> raft_config) \<Rightarrow> u64 list \<Rightarrow> cluster \<Rightarrow> cluster \<Rightarrow> bool"
  for synced cfg vs where
  run: "i \<in> set vs \<Longrightarrow> keeps_membership x \<Longrightarrow> (\<And>env. x = OpHandle env \<Longrightarrow> env \<in> set (net c) \<and> env_to env = i) \<Longrightarrow>
    cluster_step synced cfg vs c (after_op i (run_op x (nodes c i)) c)"
| flush: "i \<in> set vs \<Longrightarrow> cluster_step synced cfg vs c (flush_view i c)"
| restart: "i \<in> set vs \<Longrightarrow> load_node (cfg i) apply_floor (disk c i) = Inr n \<Longrightarrow> (synced \<Longrightarrow> flushed c i) \<Longrightarrow>
    cluster_step synced cfg vs c (c\<lparr>nodes := (nodes c)(i := n)\<rparr>)"

text \<open>
  The runs considered are those that take every step in a state in which no voter is in the last term 2^64 - 1, from
  which its next election would wrap around to term 0.
\<close>

definition terms_left :: "u64 list \<Rightarrow> cluster \<Rightarrow> bool" where
  "terms_left vs c \<longleftrightarrow> list_all (\<lambda>i. term_has_next (current_term (nodes c i))) vs"

definition cluster_moves :: "bool \<Rightarrow> (u64 \<Rightarrow> raft_config) \<Rightarrow> u64 list \<Rightarrow> cluster \<Rightarrow> cluster \<Rightarrow> bool" where
  "cluster_moves synced cfg vs c c' \<longleftrightarrow> terms_left vs c \<and> cluster_step synced cfg vs c c'"

abbreviation reachable :: "bool \<Rightarrow> (u64 \<Rightarrow> raft_config) \<Rightarrow> u64 list \<Rightarrow> cluster \<Rightarrow> bool" where
  "reachable synced cfg vs c \<equiv> (cluster_moves synced cfg vs)\<^sup>*\<^sup>* (cluster_new cfg) c"

definition well_configured :: "(u64 \<Rightarrow> raft_config) \<Rightarrow> u64 list \<Rightarrow> bool" where
  "well_configured cfg vs \<longleftrightarrow> sorted vs \<and> distinct vs \<and> 0 \<notin> set vs \<and>
    (\<forall>i \<in> set vs. rc_id (cfg i) = i \<and> set (rc_peers (cfg i)) = set vs - {i})"

section \<open>Invariants\<close>

definition nodes_stable :: "u64 list \<Rightarrow> cluster \<Rightarrow> bool" where
  "nodes_stable vs c \<longleftrightarrow> (\<forall>i \<in> set vs. stable_node vs i (nodes c i))"

definition net_honest :: "u64 list \<Rightarrow> cluster \<Rightarrow> bool" where
  "net_honest vs c \<longleftrightarrow> (\<forall>e \<in> set (net c). env_from e \<in> set vs \<and> plain_message (env_message e) \<and>
    (\<forall>t. env_message e = VoteResponse t True \<longrightarrow> (env_from e, t, env_to e) \<in> votes_cast c))"

definition votes_current :: "u64 list \<Rightarrow> cluster \<Rightarrow> bool" where
  "votes_current vs c \<longleftrightarrow>
    (\<forall>v t w. (v, t, w) \<in> votes_cast c \<longrightarrow> v \<in> set vs \<and> w \<in> set vs \<and> t \<le> current_term (nodes c v) \<and>
      (t = current_term (nodes c v) \<longrightarrow> voted_for (nodes c v) = Some w)) \<and>
    (\<forall>i \<in> set vs. \<forall>w. voted_for (nodes c i) = Some w \<longrightarrow> (i, current_term (nodes c i), w) \<in> votes_cast c)"

definition votes_unique :: "cluster \<Rightarrow> bool" where
  "votes_unique c \<longleftrightarrow> (\<forall>v t a b. (v, t, a) \<in> votes_cast c \<longrightarrow> (v, t, b) \<in> votes_cast c \<longrightarrow> a = b)"

definition campaign_backed :: "u64 list \<Rightarrow> cluster \<Rightarrow> u64 \<Rightarrow> bool" where
  "campaign_backed vs c i \<longleftrightarrow> rn_role (nodes c i) \<noteq> Follower \<longrightarrow>
    distinct (votes_received (nodes c i)) \<and>
    (\<forall>v \<in> set (votes_received (nodes c i)). (v, current_term (nodes c i), i) \<in> votes_cast c) \<and>
    (rn_role (nodes c i) = Leader \<longrightarrow> quorum \<lparr>voters = vs\<rparr> \<le> length (votes_received (nodes c i)))"

definition elected_backed :: "u64 list \<Rightarrow> cluster \<Rightarrow> bool" where
  "elected_backed vs c \<longleftrightarrow> (\<forall>t i. (t, i) \<in> elected c \<longrightarrow>
    (\<exists>Q \<subseteq> set vs. quorum \<lparr>voters = vs\<rparr> \<le> card Q \<and> (\<forall>v \<in> Q. (v, t, i) \<in> votes_cast c)))"

definition election_inv :: "u64 list \<Rightarrow> cluster \<Rightarrow> bool" where
  "election_inv vs c \<longleftrightarrow> nodes_stable vs c \<and> net_honest vs c \<and> votes_current vs c \<and> votes_unique c \<and>
    (\<forall>i \<in> set vs. campaign_backed vs c i) \<and> elected_backed vs c"

lemma after_op_simps [simp]:
  "nodes (after_op i r c) = (nodes c)(i := fst r)" "net (after_op i r c) = net c @ snd r"
  "votes_cast (after_op i r c) =
    votes_cast c \<union> (case voted_for (fst r) of Some v \<Rightarrow> {(i, current_term (fst r), v)} | None \<Rightarrow> {})"
  "elected (after_op i r c) = elected c \<union> (if rn_role (fst r) = Leader then {(current_term (fst r), i)} else {})"
  "disk (after_op i r c) = disk c"
  by (simp_all add: after_op_def)

lemma node_from_state_simps [simp]:
  "rn_role (node_from_state cf t v l) = Follower" "voted_for (node_from_state cf t v l) = v"
  "current_term (node_from_state cf t v l) = t" "rn_log (node_from_state cf t v l) = l"
  "pending_membership (node_from_state cf t v l) = None" "rn_config (node_from_state cf t v l) = cf"
  "commit_index (node_from_state cf t v l) = 0" "last_applied (node_from_state cf t v l) = 0"
  "applied_entries (node_from_state cf t v l) = []" "votes_received (node_from_state cf t v l) = []"
  by (simp_all add: node_from_state_def Let_def)

lemma node_from_state_config:
  assumes "well_configured cfg vs" and "i \<in> set vs"
  shows "effective_config_of (node_from_state (cfg i) t v l) = StableConfig \<lparr>voters = vs\<rparr>"
proof -
  have "insert (rc_id (cfg i)) (set (rc_peers (cfg i))) = set vs" using assms by (auto simp: well_configured_def)
  moreover have "sorted_list_of_set (set vs) = vs"
    using assms by (simp add: well_configured_def sorted_list_of_set_sort_remdups distinct_remdups_id sorted_sort_id)
  ultimately show ?thesis
    by (simp add: node_from_state_def Let_def del: sorted_list_of_set_insert_remove)
qed

lemma cluster_new_inv:
  assumes "well_configured cfg vs"
  shows "election_inv vs (cluster_new cfg)"
proof -
  have "rc_id (cfg i) = i" if "i \<in> set vs" for i using assms that by (simp add: well_configured_def)
  then show ?thesis using node_from_state_config[OF assms]
    by (simp add: election_inv_def nodes_stable_def stable_node_def net_honest_def votes_current_def votes_unique_def
        campaign_backed_def elected_backed_def cluster_new_def node_new_def memlog_new_def)
qed

text \<open>An operation of one node keeps the invariant.\<close>

lemma old_vote_kept:
  assumes "votes_current vs c" and "(v, t, w) \<in> votes_cast c" and "vote_kept (nodes c v) n'"
  shows "t \<le> current_term n' \<and> (t = current_term n' \<longrightarrow> voted_for n' = Some w)"
proof -
  have "t \<le> current_term (nodes c v)" "t = current_term (nodes c v) \<longrightarrow> voted_for (nodes c v) = Some w"
    using assms(1,2) by (auto simp: votes_current_def)
  then show ?thesis using assms(3) by (auto simp: vote_kept_def)
qed

lemma vote_kept_after_op: "terms_left vs c \<Longrightarrow> i \<in> set vs \<Longrightarrow> vote_kept (nodes c i) (fst (run_op x (nodes c i)))"
  by (rule vote_kept_run_op) (simp add: terms_left_def list_all_iff term_has_next_def)

lemma votes_current_after_op:
  assumes inv: "election_inv vs c" and i: "i \<in> set vs" and tl: "terms_left vs c"
    and env: "\<And>env. x = OpHandle env \<Longrightarrow> env_from env \<in> set vs"
  shows "votes_current vs (after_op i (run_op x (nodes c i)) c)"
proof -
  let ?n = "nodes c i" and ?n' = "fst (run_op x (nodes c i))" and ?c' = "after_op i (run_op x (nodes c i)) c"
  have vc: "votes_current vs c" and id: "node_id ?n = i"
    using inv i by (simp_all add: election_inv_def nodes_stable_def stable_node_def)
  have new: "w \<in> set vs" if "voted_for ?n' = Some w" for w
    using votes_for_run_op[of x ?n] that vc i env id unfolding votes_for_def votes_current_def by metis
  have old: "v \<in> set vs \<and> w \<in> set vs \<and> t \<le> current_term (nodes ?c' v) \<and>
      (t = current_term (nodes ?c' v) \<longrightarrow> voted_for (nodes ?c' v) = Some w)" if "(v, t, w) \<in> votes_cast c" for v t w
    using that vc old_vote_kept[OF vc, of i t w, OF _ vote_kept_after_op[OF tl i]]
    by (cases "v = i") (auto simp: votes_current_def)
  have "v \<in> set vs \<and> w \<in> set vs \<and> t \<le> current_term (nodes ?c' v) \<and>
      (t = current_term (nodes ?c' v) \<longrightarrow> voted_for (nodes ?c' v) = Some w)" if "(v, t, w) \<in> votes_cast ?c'" for v t w
    using that old[of v t w] new i by (auto split: option.splits)
  moreover have "(j, current_term (nodes ?c' j), w) \<in> votes_cast ?c'"
    if "j \<in> set vs" "voted_for (nodes ?c' j) = Some w" for j w
    using that vc by (cases "j = i") (auto simp: votes_current_def)
  ultimately show ?thesis unfolding votes_current_def by blast
qed

lemma votes_unique_after_op:
  assumes inv: "election_inv vs c" and i: "i \<in> set vs" and tl: "terms_left vs c"
  shows "votes_unique (after_op i (run_op x (nodes c i)) c)"
proof -
  let ?n' = "fst (run_op x (nodes c i))"
  have vc: "votes_current vs c" and vu: "votes_unique c" using inv by (simp_all add: election_inv_def)
  have "a = w" if "(i, current_term ?n', a) \<in> votes_cast c" "voted_for ?n' = Some w" for a w
    using old_vote_kept[OF vc that(1) vote_kept_after_op[OF tl i]] that(2) by simp
  then show ?thesis using vu unfolding votes_unique_def by (auto split: option.splits)
qed

lemma net_honest_after_op:
  assumes inv: "election_inv vs c" and i: "i \<in> set vs" and x: "op_plain x"
  shows "net_honest vs (after_op i (run_op x (nodes c i)) c)"
proof -
  let ?r = "run_op x (nodes c i)"
  have n: "stable_node vs i (nodes c i)" and nh: "net_honest vs c" using inv i by (auto simp: election_inv_def nodes_stable_def)
  have "plain_out (snd ?r)" "node_id (fst ?r) = i"
    using stable_run_op[OF n x] by (simp_all add: stable_result_def stable_node_def)
  then have "env_from e \<in> set vs \<and> plain_message (env_message e) \<and>
      (\<forall>t. env_message e = VoteResponse t True \<longrightarrow> (env_from e, t, env_to e) \<in> votes_cast (after_op i ?r c))"
    if "e \<in> set (snd ?r)" for e
    using that grants_recorded_run_op[of x "nodes c i"] i by (auto simp: plain_out_def grants_recorded_def)
  then show ?thesis using nh unfolding net_honest_def by auto
qed

lemma campaign_backed_after_op:
  assumes inv: "election_inv vs c" and i: "i \<in> set vs" and x: "op_plain x" and j: "j \<in> set vs"
    and env: "\<And>env. x = OpHandle env \<Longrightarrow> env \<in> set (net c) \<and> env_to env = i"
  shows "campaign_backed vs (after_op i (run_op x (nodes c i)) c) j"
proof (cases "j = i")
  case False
  then show ?thesis using inv j by (auto simp: election_inv_def campaign_backed_def)
next
  case True
  let ?n = "nodes c i" and ?n' = "fst (run_op x (nodes c i))" and ?V = "votes_cast c"
  have n: "stable_node vs i ?n" and nh: "net_honest vs c" and cb: "campaign_backed vs c i"
    using inv i by (auto simp: election_inv_def nodes_stable_def)
  have q: "election_quorum (effective_config_of ?n) = quorum \<lparr>voters = vs\<rparr>" and id: "node_id ?n = i"
    using n by (simp_all add: stable_node_def)
  have "rn_role ?n' \<noteq> Follower \<Longrightarrow> distinct (votes_received ?n') \<and>
      (\<forall>v \<in> set (votes_received ?n'). (v, current_term ?n', i) \<in> ?V \<or> v = i \<and> voted_for ?n' = Some i) \<and>
      (rn_role ?n' = Leader \<longrightarrow> quorum \<lparr>voters = vs\<rparr> \<le> length (votes_received ?n'))"
    using campaigns_run_op[OF n x] unfolding campaigns_def q id
  proof (elim disjE exE conjE)
    fix env
    assume e: "x = OpHandle env" "env_message env = VoteResponse (current_term ?n) True" "rn_role ?n = Candidate"
      "current_term ?n' = current_term ?n" "votes_received ?n' = List.insert (env_from env) (votes_received ?n)"
      "rn_role ?n' = Leader \<longrightarrow> quorum \<lparr>voters = vs\<rparr> \<le> length (votes_received ?n')"
    have "(env_from env, current_term ?n, i) \<in> ?V" using nh env[OF e(1)] e(2) by (auto simp: net_honest_def)
    then show ?thesis using e cb by (auto simp: campaign_backed_def)
  qed (use cb in \<open>auto simp: campaign_backed_def\<close>)
  then show ?thesis using True by (force simp: campaign_backed_def)
qed


lemma votes_current_voter: "votes_current vs c \<Longrightarrow> (v, t, w) \<in> votes_cast c \<Longrightarrow> v \<in> set vs"
  by (simp add: votes_current_def)

lemma elected_backedD:
  "elected_backed vs c \<Longrightarrow> (t, i) \<in> elected c \<Longrightarrow>
    \<exists>Q. Q \<subseteq> set vs \<and> quorum \<lparr>voters = vs\<rparr> \<le> card Q \<and> (\<forall>v \<in> Q. (v, t, i) \<in> votes_cast c)"
  by (simp add: elected_backed_def)

lemma elected_backed_after_op:
  assumes eb: "elected_backed vs c" and vc: "votes_current vs (after_op i r c)"
    and cb: "campaign_backed vs (after_op i r c) i"
  shows "elected_backed vs (after_op i r c)"
proof -
  let ?V = "votes_cast (after_op i r c)"
  have "\<exists>Q \<subseteq> set vs. quorum \<lparr>voters = vs\<rparr> \<le> card Q \<and> (\<forall>v \<in> Q. (v, t, j) \<in> ?V)"
    if e: "(t, j) \<in> elected (after_op i r c)" for t j
  proof (cases "(t, j) \<in> elected c")
    case True
    from elected_backedD[OF eb this] obtain Q
      where Q: "Q \<subseteq> set vs" "quorum \<lparr>voters = vs\<rparr> \<le> card Q" "\<forall>v \<in> Q. (v, t, j) \<in> votes_cast c"
      by (elim exE conjE)
    then show ?thesis by (intro exI[of _ Q] conjI ballI) simp_all
  next
    case False
    then have "(t, j) \<in> (if rn_role (fst r) = Leader then {(current_term (fst r), i)} else {})" using e by simp
    then have l: "rn_role (fst r) = Leader" "t = current_term (fst r)" "j = i" by (simp_all split: if_splits)
    let ?Q = "set (votes_received (fst r))"
    have b: "distinct (votes_received (fst r))" "\<forall>v \<in> ?Q. (v, t, j) \<in> ?V"
      "quorum \<lparr>voters = vs\<rparr> \<le> length (votes_received (fst r))"
      using cb l by (simp_all add: campaign_backed_def)
    have "?Q \<subseteq> set vs" using b(2) votes_current_voter[OF vc] by (intro subsetI) blast
    then show ?thesis using b(2,3) distinct_card[OF b(1)] by (intro exI[of _ ?Q] conjI) simp_all
  qed
  then show ?thesis by (simp add: elected_backed_def)
qed

lemma election_inv_run:
  assumes inv: "election_inv vs c" and i: "i \<in> set vs" and x: "keeps_membership x" and tl: "terms_left vs c"
    and env: "\<And>env. x = OpHandle env \<Longrightarrow> env \<in> set (net c) \<and> env_to env = i"
  shows "election_inv vs (after_op i (run_op x (nodes c i)) c)"
proof -
  have nh: "net_honest vs c" and ns: "nodes_stable vs c" using inv by (simp_all add: election_inv_def)
  have p: "op_plain x" using x env nh by (cases x) (auto simp: net_honest_def)
  have from_vs: "env_from env \<in> set vs" if "x = OpHandle env" for env using env[OF that] nh by (auto simp: net_honest_def)
  have "nodes_stable vs (after_op i (run_op x (nodes c i)) c)"
    using ns stable_run_op[of vs i "nodes c i" x] p i by (auto simp: nodes_stable_def stable_result_def)
  moreover note votes_current_after_op[OF inv i tl from_vs] net_honest_after_op[OF inv i p] votes_unique_after_op[OF inv i tl]
    campaign_backed_after_op[OF inv i p _ env]
  moreover from this have "elected_backed vs (after_op i (run_op x (nodes c i)) c)"
    using inv i by (intro elected_backed_after_op) (simp_all add: election_inv_def)
  ultimately show ?thesis by (simp add: election_inv_def)
qed

text \<open>A node that is up to date on disk comes back with its term and vote.\<close>

lemma load_node_flushed:
  assumes fl: "flushed c i" and ld: "load_node cf k (disk c i) = Inr n" and v: "voted_for (nodes c i) \<noteq> Some 0"
  shows "current_term n = current_term (nodes c i)" "voted_for n = voted_for (nodes c i)" "rn_role n = Follower"
    "rn_config n = cf" "pending_membership n = None"
    "ml_entries (rn_log n) = ml_entries (rn_log (nodes c i))"
    "effective_config_of n = effective_config_of (node_new cf)"
proof -
  let ?n = "nodes c i" and ?v = "persist_view (nodes c i)"
  let ?hs = "pr_hard_state ?v"
  define l where "l = frames_to_memlog ?hs (memlog_to_frames (rn_log ?n))"
  have "vote_read_back ?hs = ?hs" using v by (cases "voted_for ?n") (auto simp: vote_read_back_def persist_view_def)
  then have "raft_load (map_option fst (disk c i)) (map_option snd (disk c i)) = Inr \<lparr>pr_hard_state = ?hs, pr_log = l\<rparr>"
    using fl raft_load_saved[of ?hs "rn_log ?n"] by (simp add: flushed_def saved_state_def persist_view_def l_def)
  then have n: "n = (if ?hs = default_hard_state \<and> last_index l = 0 then node_new cf
      else set_recovered_apply_floor k (node_recover cf \<lparr>pr_hard_state = ?hs, pr_log = l\<rparr>))"
    using ld by (simp add: load_node_def)
  have e: "ml_entries l = ml_entries (rn_log ?n)" by (simp add: l_def frames_to_memlog_saved)
  have c: "effective_config_of (node_from_state cf t w m) = effective_config_of (node_new cf)" for t w m
    by (simp add: node_new_def node_from_state_def Let_def)
  have d: "current_term ?n = 0 \<and> voted_for ?n = None" if "?hs = default_hard_state"
    using that by (simp add: persist_view_def default_hard_state_def)
  have "current_term n = current_term ?n \<and> voted_for n = voted_for ?n \<and> rn_role n = Follower \<and> rn_config n = cf \<and>
    pending_membership n = None \<and> ml_entries (rn_log n) = ml_entries (rn_log ?n) \<and>
    effective_config_of n = effective_config_of (node_new cf)"
  proof (cases "?hs = default_hard_state \<and> last_index l = 0")
    case True
    then have "ml_entries (rn_log ?n) = []" using e by (simp add: last_index_eq)
    then show ?thesis using d n True by (simp add: node_new_def memlog_new_def)
  next
    case False
    have "n = set_recovered_apply_floor k (node_recover cf \<lparr>pr_hard_state = ?hs, pr_log = l\<rparr>)"
      using n unfolding if_not_P[OF False] .
    then show ?thesis using e c by (simp add: node_recover_def set_recovered_apply_floor_def persist_view_def)
  qed
  then show "current_term n = current_term ?n" "voted_for n = voted_for ?n" "rn_role n = Follower" "rn_config n = cf"
    "pending_membership n = None" "ml_entries (rn_log n) = ml_entries (rn_log ?n)"
    "effective_config_of n = effective_config_of (node_new cf)"
    by blast+
qed

lemma election_inv_restart:
  assumes wc: "well_configured cfg vs" and inv: "election_inv vs c" and i: "i \<in> set vs"
    and ld: "load_node (cfg i) k (disk c i) = Inr n" and fl: "flushed c i"
  shows "election_inv vs (c\<lparr>nodes := (nodes c)(i := n)\<rparr>)"
proof -
  have vc: "votes_current vs c" using inv by (simp add: election_inv_def)
  have "0 \<notin> set vs" using wc by (simp add: well_configured_def)
  then have v: "voted_for (nodes c i) \<noteq> Some 0" using vc i unfolding votes_current_def by metis
  note f = load_node_flushed[OF fl ld v]
  have "rc_id (cfg i) = i" using wc i by (simp add: well_configured_def)
  then have "stable_node vs i n"
    using inv i f node_from_state_config[OF wc i]
    by (simp add: stable_node_def election_inv_def nodes_stable_def node_new_def)
  then show ?thesis using inv f(1-3)
    by (auto simp: election_inv_def nodes_stable_def net_honest_def votes_current_def votes_unique_def
        campaign_backed_def elected_backed_def)
qed

lemma cluster_step_inv:
  assumes "cluster_step True cfg vs c c'" and "well_configured cfg vs" and "election_inv vs c" and "terms_left vs c"
  shows "election_inv vs c'"
  using assms
proof (induction rule: cluster_step.induct)
  case (run i x c)
  then show ?case by (intro election_inv_run) auto
next
  case (flush i c)
  then show ?case
    by (simp add: flush_view_def election_inv_def nodes_stable_def net_honest_def votes_current_def votes_unique_def
        campaign_backed_def elected_backed_def)
next
  case (restart i k c n)
  then show ?case by (intro election_inv_restart) auto
qed

lemma reachable_inv: "well_configured cfg vs \<Longrightarrow> reachable True cfg vs c \<Longrightarrow> election_inv vs c"
  by (rotate_tac 1, induction rule: rtranclp_induct) (auto simp: cluster_moves_def intro: cluster_new_inv cluster_step_inv)

lemma quorums_meet:
  assumes "odd (length vs)" and "distinct vs" and "A \<subseteq> set vs" and "B \<subseteq> set vs"
    and "quorum \<lparr>voters = vs\<rparr> \<le> card A" and "quorum \<lparr>voters = vs\<rparr> \<le> card B"
  shows "A \<inter> B \<noteq> {}"
proof
  assume "A \<inter> B = {}"
  moreover have f: "finite A" "finite B" using assms(3,4) finite_subset by blast+
  ultimately have "card (A \<union> B) = card A + card B" by (simp add: card_Un_disjoint)
  moreover have "card (A \<union> B) \<le> length vs" using assms(3,4) card_mono[of "set vs" "A \<union> B"] distinct_card[OF assms(2)] by simp
  moreover have "length vs < 2 * quorum \<lparr>voters = vs\<rparr>" using assms(1) by (auto simp: quorum_def elim!: oddE)
  ultimately show False using assms(5,6) by linarith
qed


text \<open>
  What elections need of quorums: any two of them share a voter. Then a choice that every voter makes once, and that a
  quorum makes the same way, is unique.
\<close>

locale quorum_system =
  fixes is_quorum :: "'c \<Rightarrow> 'v set \<Rightarrow> bool"
  assumes quorum_meet: "is_quorum c A \<Longrightarrow> is_quorum c B \<Longrightarrow> A \<inter> B \<noteq> {}"
begin

lemma unique_choice:
  assumes "is_quorum c A" and "is_quorum c B" and "\<forall>v \<in> A. chose v a" and "\<forall>v \<in> B. chose v b"
    and "\<And>v x y. chose v x \<Longrightarrow> chose v y \<Longrightarrow> x = y"
  shows "a = b"
proof -
  obtain v where "v \<in> A" "v \<in> B" using quorum_meet[OF assms(1,2)] by blast
  then show ?thesis using assms(3,4) by (intro assms(5)[of v]) simp_all
qed

end

definition odd_quorum :: "u64 list \<Rightarrow> u64 set \<Rightarrow> bool" where
  "odd_quorum vs A \<longleftrightarrow> odd (length vs) \<and> distinct vs \<and> A \<subseteq> set vs \<and> quorum \<lparr>voters = vs\<rparr> \<le> card A"

interpretation odd_voters: quorum_system odd_quorum
  by unfold_locales (unfold odd_quorum_def, elim conjE, rule quorums_meet)

lemma reachable_leader_elected:
  assumes "reachable synced cfg vs c" and "i \<in> set vs" and "rn_role (nodes c i) = Leader" 
  shows "(current_term (nodes c i), i) \<in> elected c"
proof -
  have "\<forall>j. rn_role (nodes c j) = Leader \<longrightarrow> (current_term (nodes c j), j) \<in> elected c" using assms(1)
  proof (induction rule: rtranclp_induct)
    case base
    show ?case by (simp add: cluster_new_def node_new_def)
  next
    case (step c c')
    have "cluster_step synced cfg vs c c'" using step.hyps(2) by (simp add: cluster_moves_def)
    from this step.IH show ?case
    proof (induction rule: cluster_step.induct)
      case (restart i k c n)
      then have "rn_role n = Follower"
        by (auto simp: load_node_def res_bind_Inr_iff node_new_def node_recover_def set_recovered_apply_floor_def)
      then show ?case using restart by auto
    qed (auto simp: flush_view_def)
  qed
  then show ?thesis using assms(3) by blast
qed

section \<open>Runs as lists of events\<close>

datatype cluster_event = Run u64 node_op | Flush u64 | Restart u64 nat

fun perform :: "(u64 \<Rightarrow> raft_config) \<Rightarrow> cluster_event \<Rightarrow> cluster \<Rightarrow> cluster" where
  "perform cfg (Run i x) c = after_op i (run_op x (nodes c i)) c"
| "perform cfg (Flush i) c = flush_view i c"
| "perform cfg (Restart i k) c =
    (case load_node (cfg i) k (disk c i) of Inr n \<Rightarrow> c\<lparr>nodes := (nodes c)(i := n)\<rparr> | Inl _ \<Rightarrow> c)"

fun possible :: "bool \<Rightarrow> (u64 \<Rightarrow> raft_config) \<Rightarrow> u64 list \<Rightarrow> cluster_event \<Rightarrow> cluster \<Rightarrow> bool" where
  "possible synced cfg vs (Run i x) c \<longleftrightarrow> i \<in> set vs \<and> keeps_membership x \<and>
    (case x of OpHandle env \<Rightarrow> env \<in> set (net c) \<and> env_to env = i | _ \<Rightarrow> True)"
| "possible synced cfg vs (Flush i) c \<longleftrightarrow> i \<in> set vs"
| "possible synced cfg vs (Restart i k) c \<longleftrightarrow> i \<in> set vs \<and> (case load_node (cfg i) k (disk c i) of Inr _ \<Rightarrow> True | _ \<Rightarrow> False) \<and>
    (if synced then flushed c i else True)"

fun drive :: "bool \<Rightarrow> (u64 \<Rightarrow> raft_config) \<Rightarrow> u64 list \<Rightarrow> cluster_event list \<Rightarrow> cluster \<Rightarrow> cluster option" where
  "drive synced cfg vs [] c = Some c"
| "drive synced cfg vs (ev # evs) c =
    (if terms_left vs c \<and> possible synced cfg vs ev c then drive synced cfg vs evs (perform cfg ev c) else None)"

lemma possible_step:
  assumes "possible synced cfg vs ev c"
  shows "cluster_step synced cfg vs c (perform cfg ev c)"
proof (cases ev)
  case (Run i x)
  then show ?thesis using assms by (simp del: run_op.simps) (rule cluster_step.run, auto)
next
  case (Flush i)
  then show ?thesis using assms by (simp add: cluster_step.flush)
next
  case (Restart i k)
  then show ?thesis using assms
    by (cases "load_node (cfg i) k (disk c i)") (auto intro: cluster_step.restart)
qed

lemma drive_steps: "drive synced cfg vs evs c = Some c' \<Longrightarrow> (cluster_moves synced cfg vs)\<^sup>*\<^sup>* c c'"
proof (induction evs arbitrary: c)
  case Nil
  then show ?case by simp
next
  case (Cons ev evs)
  then have p: "terms_left vs c" "possible synced cfg vs ev c" and d: "drive synced cfg vs evs (perform cfg ev c) = Some c'"
    by (simp_all split: if_splits del: possible.simps perform.simps)
  have "cluster_moves synced cfg vs c (perform cfg ev c)" using p possible_step by (simp add: cluster_moves_def)
  from converse_rtranclp_into_rtranclp[OF this Cons.IH[OF d]] show ?case .
qed

definition example_cfg :: "u64 list \<Rightarrow> u64 \<Rightarrow> raft_config" where
  "example_cfg vs i = example_config i (filter (\<lambda>j. j \<noteq> i) vs)"

definition vote_req :: "u64 \<Rightarrow> u64 \<Rightarrow> node_op" where
  "vote_req i j = OpHandle (envelope_new i j (VoteRequest 1 i 0 0))"

definition vote_resp :: "u64 \<Rightarrow> u64 \<Rightarrow> node_op" where
  "vote_resp i j = OpHandle (envelope_new i j (VoteResponse 1 True))"

text \<open>Node \<^term>\<open>i\<close> times out and is elected in term 1 by the vote of node \<^term>\<open>j\<close>.\<close>

definition elect_by :: "u64 \<Rightarrow> u64 \<Rightarrow> cluster_event list" where
  "elect_by i j = [Run i OpTick, Run i OpTick, Run j (vote_req i j), Run i (vote_resp j i)]"

definition elects :: "bool \<Rightarrow> u64 list \<Rightarrow> cluster_event list \<Rightarrow> (nat \<times> u64) list \<Rightarrow> bool" where
  "elects synced vs evs ls \<longleftrightarrow>
    (case drive synced (example_cfg vs) vs evs (cluster_new (example_cfg vs)) of
       Some c \<Rightarrow> list_all (\<lambda>(t, i). rn_role (nodes c i) = Leader \<and> current_term (nodes c i) = t \<and> (t, i) \<in> elected c) ls
     | None \<Rightarrow> False)"

lemma elects_reachable:
  "elects synced vs evs ls \<Longrightarrow> \<exists>c. reachable synced (example_cfg vs) vs c \<and>
    (\<forall>(t, i) \<in> set ls. rn_role (nodes c i) = Leader \<and> current_term (nodes c i) = t \<and> (t, i) \<in> elected c)"
  unfolding elects_def list_all_iff by (auto split: option.splits dest!: drive_steps)

text \<open>
  C1. Election safety. In a cluster with an odd number of voters none of which has the node id 0, with fixed membership
  and restarts only from an up-to-date durable state, there is at most one leader in every term, over the whole history
  of any run: whatever messages are lost, repeated, delayed or reordered, and whichever operations the nodes' drivers
  call. A run takes its steps while no voter is in term 2^64 - 1, after which terms would start again from 0. That no
  voter is node 0 is needed: a vote for node 0 does not survive a restart.
\<close>

theorem election_safety:
  assumes "well_configured cfg vs" and "odd (length vs)" and "reachable True cfg vs c"
  shows "(\<forall>t i j. (t, i) \<in> elected c \<and> (t, j) \<in> elected c \<longrightarrow> i = j) \<and>
    (\<forall>i \<in> set vs. rn_role (nodes c i) = Leader \<longrightarrow> (current_term (nodes c i), i) \<in> elected c)"
proof -
  have inv: "elected_backed vs c" "votes_unique c" using reachable_inv[OF assms(1,3)] by (simp_all add: election_inv_def)
  have one: "i = j" if e: "(t, i) \<in> elected c" "(t, j) \<in> elected c" for t i j
  proof -
    from elected_backedD[OF inv(1) e(1)] obtain A
      where A: "A \<subseteq> set vs" "quorum \<lparr>voters = vs\<rparr> \<le> card A" "\<forall>v \<in> A. (v, t, i) \<in> votes_cast c"
      by (elim exE conjE)
    from elected_backedD[OF inv(1) e(2)] obtain B
      where B: "B \<subseteq> set vs" "quorum \<lparr>voters = vs\<rparr> \<le> card B" "\<forall>v \<in> B. (v, t, j) \<in> votes_cast c"
      by (elim exE conjE)
    show ?thesis
    proof (rule odd_voters.unique_choice[of vs A B "\<lambda>v w. (v, t, w) \<in> votes_cast c"])
      show "x = y" if "(v, t, x) \<in> votes_cast c" "(v, t, y) \<in> votes_cast c" for v x y
        using that inv(2) unfolding votes_unique_def by blast
    qed (use assms(1,2) A B in \<open>simp_all add: odd_quorum_def well_configured_def\<close>)
  qed
  show ?thesis
  proof (intro conjI allI impI ballI)
    fix t i j
    assume "(t, i) \<in> elected c \<and> (t, j) \<in> elected c"
    then show "i = j" by (elim conjE) (rule one)
  qed (rule reachable_leader_elected[OF assms(3)])
qed


lemma example_well_configured: "well_configured (example_cfg [1, 2, 3]) [1, 2, 3]"
  by (auto simp: well_configured_def example_cfg_def example_config_def)

lemma example_elects: "elects True [1, 2, 3] (elect_by 1 2) [(1, 1)]"
  by code_simp

theorem election_safety_witness:
  "\<exists>c. reachable True (example_cfg [1, 2, 3]) [1, 2, 3] c \<and> rn_role (nodes c 1) = Leader \<and>
    (\<forall>j. (1, j) \<in> elected c \<longrightarrow> j = 1)"
proof -
  obtain c where c: "reachable True (example_cfg [1, 2, 3]) [1, 2, 3] c" "rn_role (nodes c 1) = Leader" "(1, 1) \<in> elected c"
    using elects_reachable[OF example_elects] by auto
  have "(1, j) \<in> elected c \<longrightarrow> j = 1" for j
    using election_safety[OF example_well_configured _ c(1)] c(3) by auto
  then show ?thesis using c by blast
qed

text \<open>
  C27. With an even number of voters the quorum of the code is half of them, not a majority, and there are runs with
  two leaders in one term, without any failure: two voters each elect themselves, and four voters elect two leaders by
  disjoint halves.
\<close>

theorem even_voters_two_leaders:
  "(\<exists>c. reachable True (example_cfg [1, 2]) [1, 2] c \<and>
     rn_role (nodes c 1) = Leader \<and> rn_role (nodes c 2) = Leader \<and> current_term (nodes c 1) = 1 \<and> current_term (nodes c 2) = 1) \<and>
   (\<exists>c. reachable True (example_cfg [1, 2, 3, 4]) [1, 2, 3, 4] c \<and>
     rn_role (nodes c 1) = Leader \<and> rn_role (nodes c 3) = Leader \<and> current_term (nodes c 1) = 1 \<and> current_term (nodes c 3) = 1)"
proof -
  have "elects True [1, 2] [Run 1 OpTick, Run 1 OpTick, Run 2 OpTick, Run 2 OpTick] [(1, 1), (1, 2)]" by code_simp
  moreover have "elects True [1, 2, 3, 4] (elect_by 1 2 @ elect_by 3 4) [(1, 1), (1, 3)]" by code_simp
  ultimately show ?thesis by (auto dest!: elects_reachable)
qed

text \<open>
  C28. The event loop sends a node's messages before it writes the node's durable state. If a voter crashes in between, it
  comes back without its vote and votes again in the same term: in a cluster of three voters two nodes are leaders in
  term 1.
\<close>

theorem unsynced_vote_two_leaders:
  "\<exists>c. reachable False (example_cfg [1, 2, 3]) [1, 2, 3] c \<and>
    rn_role (nodes c 1) = Leader \<and> rn_role (nodes c 3) = Leader \<and> current_term (nodes c 1) = 1 \<and> current_term (nodes c 3) = 1"
proof -
  have "elects False [1, 2, 3] (elect_by 1 2 @ [Restart 2 0] @ elect_by 3 2) [(1, 1), (1, 3)]" by code_simp
  then show ?thesis by (auto dest!: elects_reachable)
qed

end
