(* ===== verification/Raft_Progress.thy ===== *)
theory Raft_Progress
  imports Raft_Cluster
begin

text \<open>
  A voter of \<^verbatim>\<open>src/crates/kaya-raft/src/node.rs\<close> that hears from no leader stands for election within its timeout.
\<close>

section \<open>Elections start\<close>







end
