(* ===== verification/Multi_Raft.thy ===== *)
theory Multi_Raft
  imports Raft_Progress
begin

text \<open>
  The host of several Raft groups in one process, \<^verbatim>\<open>MultiRaftHost\<close> of \<^verbatim>\<open>src/crates/kaya-raft/src/multi_raft.rs\<close>: a map from
  group numbers to nodes. Every operation acts on the node of its group only, and every message that leaves the
  host carries the number of the group it belongs to.
\<close>

type_synonym multi_raft_host = "(u64, raft_node) btree_map"

definition host_new :: multi_raft_host where
  "host_new = bt_empty"

definition host_insert :: "u64 \<Rightarrow> raft_node \<Rightarrow> multi_raft_host \<Rightarrow> multi_raft_host" where
  "host_insert gid n h = bt_insert gid n h"

definition insert_single_node :: "u64 \<Rightarrow> u64 \<Rightarrow> multi_raft_host \<Rightarrow> multi_raft_host" where
  "insert_single_node gid node h =
    host_insert gid (node_new \<lparr>rc_id = node, rc_peers = [], election_timeout_ticks = 1, heartbeat_interval_ticks = 1\<rparr>) h"

definition host_get :: "u64 \<Rightarrow> multi_raft_host \<Rightarrow> raft_node option" where
  "host_get gid h = bt_get gid h"

definition host_remove :: "u64 \<Rightarrow> multi_raft_host \<Rightarrow> raft_node option \<times> multi_raft_host" where
  "host_remove gid h = (bt_get gid h, bt_remove gid h)"

definition sorted_group_ids :: "multi_raft_host \<Rightarrow> u64 list" where
  "sorted_group_ids h = sort (map fst h)"

definition stamp :: "u64 \<Rightarrow> envelope list \<Rightarrow> envelope list" where
  "stamp gid out = map (\<lambda>e. e\<lparr>env_group := gid\<rparr>) out"

text \<open>Visiting the hosted nodes in the order of their groups, collecting what each visit returns.\<close>

fun visit_groups :: "(u64 \<Rightarrow> raft_node \<Rightarrow> raft_node \<times> 'a list) \<Rightarrow> u64 list \<Rightarrow> multi_raft_host \<Rightarrow> 'a list \<times> multi_raft_host" where
  "visit_groups f [] h = ([], h)"
| "visit_groups f (gid # gids) h =
    (case bt_get gid h of
       None \<Rightarrow> visit_groups f gids h
     | Some n \<Rightarrow>
         let (n', xs) = f gid n; (ys, h') = visit_groups f gids (bt_insert gid n' h) in (xs @ ys, h'))"

definition tick_all :: "multi_raft_host \<Rightarrow> envelope list \<times> multi_raft_host" where
  "tick_all h = visit_groups (\<lambda>gid n. let (n', out) = tick n in (n', stamp gid out)) (sorted_group_ids h) h"

definition host_propose :: "u64 \<Rightarrow> bytes \<Rightarrow> multi_raft_host \<Rightarrow> nat option \<times> multi_raft_host" where
  "host_propose gid cmd h =
    (case bt_get gid h of
       None \<Rightarrow> (None, h)
     | Some n \<Rightarrow> let (r, n') = propose cmd n in (r, bt_insert gid n' h))"

definition host_handle :: "envelope \<Rightarrow> multi_raft_host \<Rightarrow> envelope list \<times> multi_raft_host" where
  "host_handle env h =
    (case bt_get (env_group env) h of
       None \<Rightarrow> ([], h)
     | Some n \<Rightarrow> let (n', out) = handle env n in (stamp (env_group env) out, bt_insert (env_group env) n' h))"

definition handle_group :: "u64 \<Rightarrow> envelope \<Rightarrow> multi_raft_host \<Rightarrow> envelope list \<times> multi_raft_host" where
  "handle_group gid env h = host_handle (env\<lparr>env_group := gid\<rparr>) h"

definition is_leader_of :: "u64 \<Rightarrow> multi_raft_host \<Rightarrow> bool" where
  "is_leader_of gid h = (case bt_get gid h of Some n \<Rightarrow> rn_role n = Leader | None \<Rightarrow> False)"

definition host_transfer_leadership :: "u64 \<Rightarrow> u64 \<Rightarrow> multi_raft_host \<Rightarrow> (string + unit) \<times> multi_raft_host" where
  "host_transfer_leadership gid target h =
    (case bt_get gid h of
       None \<Rightarrow> (Inl (''group '' @ fmt_dec (unat gid) @ '' not hosted''), h)
     | Some n \<Rightarrow> let (r, n') = transfer_leadership target n in (r, bt_insert gid n' h))"

definition is_leader_any :: "multi_raft_host \<Rightarrow> bool" where
  "is_leader_any h = list_ex (\<lambda>(gid, n). rn_role n = Leader) h"

definition status_of :: "u64 \<Rightarrow> multi_raft_host \<Rightarrow> raft_status option" where
  "status_of gid h = map_option node_status (bt_get gid h)"

definition primary_status :: "multi_raft_host \<Rightarrow> raft_status option" where
  "primary_status h = status_of 0 h"

definition propose_read_group :: "u64 \<Rightarrow> u64 \<Rightarrow> multi_raft_host \<Rightarrow> nat option \<times> multi_raft_host" where
  "propose_read_group gid request_id h =
    (case bt_get gid h of
       None \<Rightarrow> (None, h)
     | Some n \<Rightarrow> let (r, n') = propose_read request_id n in (r, bt_insert gid n' h))"

definition broadcast_group :: "u64 \<Rightarrow> multi_raft_host \<Rightarrow> envelope list \<times> multi_raft_host" where
  "broadcast_group gid h =
    (case bt_get gid h of
       None \<Rightarrow> ([], h)
     | Some n \<Rightarrow> let (n', out) = broadcast n in (stamp gid out, bt_insert gid n' h))"

definition drain_all_applied :: "multi_raft_host \<Rightarrow> (u64 \<times> nat \<times> nat \<times> bytes) list \<times> multi_raft_host" where
  "drain_all_applied h =
    visit_groups (\<lambda>gid n. let (es, n') = drain_applied n in (n', map (\<lambda>(i, t, c). (gid, i, t, c)) es)) (sorted_group_ids h) h"

definition drain_all_ready_reads :: "multi_raft_host \<Rightarrow> (u64 \<times> u64) list \<times> multi_raft_host" where
  "drain_all_ready_reads h =
    visit_groups (\<lambda>gid n. let (rs, n') = drain_ready_reads n in (n', map (\<lambda>r. (gid, r)) rs)) (sorted_group_ids h) h"

definition persist_views :: "multi_raft_host \<Rightarrow> (u64 \<times> persisted_raft_state) list" where
  "persist_views h =
    List.map_filter (\<lambda>gid. map_option (\<lambda>n. (gid, persist_view n)) (bt_get gid h)) (sorted_group_ids h)"

definition is_voter_anywhere :: "u64 \<Rightarrow> multi_raft_host \<Rightarrow> bool" where
  "is_voter_anywhere from h = list_ex (\<lambda>(gid, n). from \<in> set (all_voters (effective_config_of n))) h"

section \<open>Visits\<close>

lemma sorted_group_ids_inv: "bt_inv h \<Longrightarrow> sorted_group_ids h = map fst h"
  by (simp add: sorted_group_ids_def bt_inv_def sorted_sort_id strict_sorted_imp_sorted)

lemma visit_groups_other:
  "bt_inv h \<Longrightarrow> gid \<notin> set gids \<Longrightarrow> bt_get gid (snd (visit_groups f gids h)) = bt_get gid h"
  by (induction gids arbitrary: h) (auto simp: Let_def case_prod_beta split: option.split)

lemma visit_groups_inv: "bt_inv h \<Longrightarrow> bt_inv (snd (visit_groups f gids h))"
  by (induction gids arbitrary: h) (auto simp: Let_def case_prod_beta split: option.split)

lemma visit_groups_get:
  "bt_inv h \<Longrightarrow> distinct gids \<Longrightarrow> bt_get gid (snd (visit_groups f gids h)) =
    (if gid \<in> set gids then map_option (\<lambda>n. fst (f gid n)) (bt_get gid h) else bt_get gid h)"
  by (induction gids arbitrary: h) (auto simp: Let_def case_prod_beta visit_groups_other split: option.split)

lemma visit_groups_out:
  "bt_inv h \<Longrightarrow> distinct gids \<Longrightarrow> fst (visit_groups f gids h) =
    concat (map (\<lambda>gid. case bt_get gid h of None \<Rightarrow> [] | Some n \<Rightarrow> snd (f gid n)) gids)"
proof (induction gids arbitrary: h)
  case Nil
  show ?case by simp
next
  case (Cons g gids)
  show ?case
  proof (cases "bt_get g h")
    case None
    then show ?thesis using Cons by simp
  next
    case (Some n)
    let ?h = "bt_insert g (fst (f g n)) h"
    have "map (\<lambda>gid. case bt_get gid ?h of None \<Rightarrow> [] | Some n \<Rightarrow> snd (f gid n)) gids =
        map (\<lambda>gid. case bt_get gid h of None \<Rightarrow> [] | Some n \<Rightarrow> snd (f gid n)) gids"
      using Cons.prems by (intro map_cong) auto
    then have "fst (visit_groups f gids ?h) =
        concat (map (\<lambda>gid. case bt_get gid h of None \<Rightarrow> [] | Some n \<Rightarrow> snd (f gid n)) gids)"
      using Cons.IH[of ?h] Cons.prems by (simp only: bt_inv_insert distinct.simps)
    then show ?thesis using Some by (simp add: Let_def case_prod_beta)
  qed
qed

lemma visit_all_get:
  assumes "bt_inv h"
  shows "bt_get gid (snd (visit_groups f (sorted_group_ids h) h)) = map_option (\<lambda>n. fst (f gid n)) (bt_get gid h)"
proof (cases "bt_get gid h")
  case None
  then show ?thesis using assms by (simp add: visit_groups_get sorted_group_ids_inv bt_inv_distinct)
next
  case (Some n)
  then have "gid \<in> fst ` set h" using bt_get_mem by force
  then show ?thesis using assms by (simp add: visit_groups_get sorted_group_ids_inv bt_inv_distinct)
qed

section \<open>Groups do not interfere\<close>

text \<open>Everything a driver can ask of a host, as the operation of one group or of all.\<close>

datatype host_op =
    HostTickAll
  | HostHandle envelope
  | HostPropose u64 bytes
  | HostProposeRead u64 u64
  | HostBroadcast u64
  | HostTransfer u64 u64

fun host_step :: "host_op \<Rightarrow> multi_raft_host \<Rightarrow> envelope list \<times> multi_raft_host" where
  "host_step HostTickAll h = tick_all h"
| "host_step (HostHandle env) h = host_handle env h"
| "host_step (HostPropose gid c) h = ([], snd (host_propose gid c h))"
| "host_step (HostProposeRead gid r) h = ([], snd (propose_read_group gid r h))"
| "host_step (HostBroadcast gid) h = broadcast_group gid h"
| "host_step (HostTransfer gid t) h = ([], snd (host_transfer_leadership gid t h))"

text \<open>The operation a group sees, if any.\<close>

fun group_view :: "host_op \<Rightarrow> u64 \<Rightarrow> node_op option" where
  "group_view HostTickAll gid = Some OpTick"
| "group_view (HostHandle env) gid = (if env_group env = gid then Some (OpHandle env) else None)"
| "group_view (HostPropose g c) gid = (if g = gid then Some (OpPropose c) else None)"
| "group_view (HostProposeRead g r) gid = (if g = gid then Some (OpProposeRead r) else None)"
| "group_view (HostBroadcast g) gid = (if g = gid then Some OpBroadcast else None)"
| "group_view (HostTransfer g t) gid = (if g = gid then Some (OpTransfer t) else None)"

definition view_step :: "node_op option \<Rightarrow> raft_node \<Rightarrow> raft_node \<times> envelope list" where
  "view_step v n = (case v of Some x \<Rightarrow> run_op x n | None \<Rightarrow> (n, []))"

lemma host_step_inv: "bt_inv h \<Longrightarrow> bt_inv (snd (host_step x h))"
  by (cases x) (auto simp: tick_all_def visit_groups_inv host_handle_def host_propose_def propose_read_group_def
    broadcast_group_def host_transfer_leadership_def Let_def case_prod_beta split: option.split)

lemma host_step_get:
  assumes "bt_inv h"
  shows "bt_get gid (snd (host_step x h)) = map_option (\<lambda>n. fst (view_step (group_view x gid) n)) (bt_get gid h)"
  using assms
  by (cases x; cases "bt_get gid h")
    (auto simp: tick_all_def visit_all_get host_handle_def host_propose_def propose_read_group_def view_step_def
      broadcast_group_def host_transfer_leadership_def Let_def case_prod_beta split: option.split)

lemma stamp_filter: "filter (\<lambda>e. env_group e = g) (stamp gid out) = (if g = gid then stamp gid out else [])"
  by (induction out) (auto simp: stamp_def)

lemma filter_concat_groups:
  assumes "distinct gids" and "\<And>g. g \<in> set gids \<Longrightarrow> filter P (f g) = (if g = gid then f g else [])"
  shows "filter P (concat (map f gids)) = (if gid \<in> set gids then f gid else [])"
  using assms by (induction gids) auto

lemma host_step_out:
  assumes h: "bt_inv h"
  shows "filter (\<lambda>e. env_group e = gid) (fst (host_step x h)) =
    (case bt_get gid h of None \<Rightarrow> [] | Some n \<Rightarrow> stamp gid (snd (view_step (group_view x gid) n)))"
proof (cases "x = HostTickAll")
  case True
  let ?f = "\<lambda>g. case bt_get g h of None \<Rightarrow> [] | Some n \<Rightarrow> stamp g (snd (tick n))"
  have "fst (host_step x h) = concat (map ?f (map fst h))"
    using True h by (simp add: tick_all_def visit_groups_out sorted_group_ids_inv bt_inv_distinct Let_def case_prod_beta cong: option.case_cong)
  also have "filter (\<lambda>e. env_group e = gid) \<dots> = (if gid \<in> set (map fst h) then ?f gid else [])"
    using bt_inv_distinct[OF h] by (rule filter_concat_groups) (simp add: stamp_filter split: option.split)
  also have "\<dots> = ?f gid" using bt_get_None_iff[of gid h] by (cases "bt_get gid h") auto
  finally show ?thesis using True by (simp add: view_step_def split: option.split)
next
  case False
  then show ?thesis
    by (cases x; cases "bt_get gid h") (auto simp: host_handle_def host_propose_def propose_read_group_def view_step_def
      broadcast_group_def host_transfer_leadership_def Let_def case_prod_beta stamp_filter stamp_def[of _ "[]"]
      split: option.split)
qed


fun host_run :: "host_op list \<Rightarrow> multi_raft_host \<Rightarrow> envelope list \<times> multi_raft_host" where
  "host_run [] h = ([], h)"
| "host_run (x # xs) h = (let (out, h1) = host_step x h; (out', h2) = host_run xs h1 in (out @ out', h2))"

fun sent_by :: "node_op list \<Rightarrow> raft_node \<Rightarrow> envelope list" where
  "sent_by [] n = []"
| "sent_by (x # xs) n = snd (run_op x n) @ sent_by xs (fst (run_op x n))"

lemma stamp_append [simp]: "stamp g (a @ b) = stamp g a @ stamp g b" "stamp g [] = []"
  by (simp_all add: stamp_def)

text \<open>
  C35. Hosting several Raft groups in one process changes nothing for any of them. Over any sequence of host operations, each
  hosted group is in the state it reaches alone from the operations addressed to it, and the messages that leave the
  host under its number are the ones it sends alone, in the same order; a group that is not hosted sends nothing.
\<close>

theorem multi_raft_isolation:
  assumes "bt_inv h"
  shows "bt_get gid (snd (host_run xs h)) =
      map_option (run_ops (List.map_filter (\<lambda>x. group_view x gid) xs)) (bt_get gid h) \<and>
    filter (\<lambda>e. env_group e = gid) (fst (host_run xs h)) =
      (case bt_get gid h of None \<Rightarrow> []
       | Some n \<Rightarrow> stamp gid (sent_by (List.map_filter (\<lambda>x. group_view x gid) xs) n))"
  using assms
proof (induction xs arbitrary: h)
  case Nil
  show ?case by (cases "bt_get gid h") (simp_all add: map_filter_simps)
next
  case (Cons x xs)
  let ?h = "snd (host_step x h)"
  have step: "bt_get gid ?h = map_option (\<lambda>n. fst (view_step (group_view x gid) n)) (bt_get gid h)"
    "filter (\<lambda>e. env_group e = gid) (fst (host_step x h)) =
      (case bt_get gid h of None \<Rightarrow> [] | Some n \<Rightarrow> stamp gid (snd (view_step (group_view x gid) n)))"
    using Cons.prems by (simp_all add: host_step_get host_step_out)
  have run: "snd (host_run (x # xs) h) = snd (host_run xs ?h)"
    "fst (host_run (x # xs) h) = fst (host_step x h) @ fst (host_run xs ?h)"
    by (simp_all add: Let_def case_prod_beta)
  show ?case unfolding run filter_append step(2) using Cons.IH[OF host_step_inv[OF Cons.prems, of x]] step(1)
    by (cases "bt_get gid h"; cases "group_view x gid") (simp_all add: map_filter_simps view_step_def)
qed

theorem multi_raft_isolation_witness:
  "bt_get 7 (snd (host_run [HostTickAll, HostPropose 8 [1]] (insert_single_node 7 1 host_new))) =
    map_option (run_ops [OpTick]) (bt_get 7 (insert_single_node 7 1 host_new))"
proof -
  have "bt_inv (insert_single_node 7 1 host_new)"
    by (simp add: insert_single_node_def host_insert_def host_new_def bt_empty_def bt_inv_Cons)
  then show ?thesis
    using multi_raft_isolation[of "insert_single_node 7 1 host_new" 7 "[HostTickAll, HostPropose 8 [1]]"]
    by (simp add: map_filter_simps del: run_ops.simps host_run.simps)
qed

end
