(* ===== verification/Raft_Scenarios.thy ===== *)
theory Raft_Scenarios
  imports Raft_Cluster
begin

text \<open>
  Runs of the cluster model that break a promise of the protocol without any fault beyond slow messages and clean
  restarts: a voter with node id 0 loses the vote it gave to itself when it is written and read back, and a late
  acknowledgement confirms a read of a leader that has been replaced.
\<close>

section \<open>A voter with node id 0\<close>

fun is_run :: "cluster_event \<Rightarrow> bool" where
  "is_run (Run _ _) = True"
| "is_run _ = False"

lemma drive_disk:
  "list_all is_run evs \<Longrightarrow>
    drive synced cfg vs evs (c\<lparr>disk := d\<rparr>) = map_option (\<lambda>c. c\<lparr>disk := d\<rparr>) (drive synced cfg vs evs c)"
proof (induction evs arbitrary: c)
  case (Cons ev evs)
  then obtain i x where ev: "ev = Run i x" by (cases ev) auto
  have "perform cfg ev (c\<lparr>disk := d\<rparr>) = (perform cfg ev c)\<lparr>disk := d\<rparr>" by (simp add: ev after_op_def)
  moreover have "terms_left vs (c\<lparr>disk := d\<rparr>) = terms_left vs c" by (simp add: terms_left_def)
  moreover have "possible synced cfg vs ev (c\<lparr>disk := d\<rparr>) = possible synced cfg vs ev c" by (cases x) (simp_all add: ev)
  ultimately show ?case using Cons by simp
qed simp

lemma drive_append:
  "drive synced cfg vs (xs @ ys) c = (case drive synced cfg vs xs c of Some c' \<Rightarrow> drive synced cfg vs ys c' | None \<Rightarrow> None)"
  by (induction xs arbitrary: c) simp_all

abbreviation zero_cfg :: "u64 \<Rightarrow> raft_config" where
  "zero_cfg \<equiv> example_cfg [0, 1, 2]"

definition voted_zero :: raft_node where
  "voted_zero = (node_new (zero_cfg 1))\<lparr>current_term := 1, voted_for := Some 0\<rparr>"

definition forgot_zero :: raft_node where
  "forgot_zero = (node_new (zero_cfg 1))\<lparr>current_term := 1\<rparr>"

abbreviation zero_hard_state :: "u64 option \<Rightarrow> hard_state" where
  "zero_hard_state v \<equiv> \<lparr>hs_current_term = 1, hs_voted_for = v, hs_last_included_index = 0, hs_last_included_term = 0\<rparr>"

lemma zero_vote_lost: "load_node (zero_cfg 1) 0 (Some (saved_state voted_zero)) = Inr forgot_zero"
proof -
  have h: "pr_hard_state (persist_view voted_zero) = (zero_hard_state (Some 0))" 
    "pr_log (persist_view voted_zero) = memlog_new" by code_simp+
  have f: "log_fits memlog_new" by (simp add: log_fits_def memlog_new_def last_index_def)
  have r: "set_recovered_apply_floor 0 (node_recover (zero_cfg 1) \<lparr>pr_hard_state = (zero_hard_state None), pr_log = memlog_new\<rparr>) = forgot_zero"
    by code_simp
  have m: "memlog_to_frames memlog_new = []" "frames_to_memlog (zero_hard_state None) [] = memlog_new"
    by code_simp+
  have "raft_load (Some (fst (saved_state voted_zero))) (Some (snd (saved_state voted_zero))) =
    Inr \<lparr>pr_hard_state = (zero_hard_state None), pr_log = memlog_new\<rparr>"
    using raft_load_saved[of "pr_hard_state (persist_view voted_zero)" memlog_new] f m
    by (simp add: saved_state_def h vote_read_back_def)
  then show ?thesis using r by (simp add: load_node_def default_hard_state_def)
qed

lemma zero_run:
  "case drive True zero_cfg [0, 1, 2] (elect_by 0 1) (cluster_new zero_cfg) of
     Some c \<Rightarrow> nodes c 1 = voted_zero \<and> terms_left [0, 1, 2] c \<and>
       (case drive True zero_cfg [0, 1, 2] (elect_by 2 1) (c\<lparr>nodes := (nodes c)(1 := forgot_zero)\<rparr>) of
          Some c' \<Rightarrow> rn_role (nodes c' 0) = Leader \<and> rn_role (nodes c' 2) = Leader \<and>
            current_term (nodes c' 0) = 1 \<and> current_term (nodes c' 2) = 1
        | None \<Rightarrow> False)
   | None \<Rightarrow> False"
  by code_simp

lemma voted_zero_flushed: "nodes c 1 = voted_zero \<Longrightarrow> flushed (flush_view 1 c) 1"
  by (simp add: flushed_def flush_view_def voted_zero_def node_new_def log_fits_def memlog_new_def last_index_def)

text \<open>
  C29. Why election safety asks for voters other than node 0. The hard state writes the absence of a vote as 0, so a vote
  for node 0 is not there after a restart, even from files that were up to date. With the voters 0, 1 and 2 this elects
  two leaders in term 1: node 1 votes for node 0, is flushed and restarted, and votes for node 2.
\<close>

theorem zero_voter_two_leaders:
  "\<exists>c. reachable True (example_cfg [0, 1, 2]) [0, 1, 2] c \<and>
    rn_role (nodes c 0) = Leader \<and> rn_role (nodes c 2) = Leader \<and> current_term (nodes c 0) = 1 \<and> current_term (nodes c 2) = 1"
proof -
  let ?drive = "drive True zero_cfg [0, 1, 2]"
  obtain c c' where c: "?drive (elect_by 0 1) (cluster_new zero_cfg) = Some c" "nodes c 1 = voted_zero" "terms_left [0, 1, 2] c"
    and c': "?drive (elect_by 2 1) (c\<lparr>nodes := (nodes c)(1 := forgot_zero)\<rparr>) = Some c'"
      "rn_role (nodes c' 0) = Leader \<and> rn_role (nodes c' 2) = Leader \<and> current_term (nodes c' 0) = 1 \<and> current_term (nodes c' 2) = 1"
    using zero_run by (auto split: option.splits)
  define d where "d = (disk c)(1 := Some (saved_state voted_zero))"
  have f: "flush_view 1 c = c\<lparr>disk := d\<rparr>" by (simp add: flush_view_def d_def c)
  have u: "c\<lparr>disk := d, nodes := N\<rparr> = c\<lparr>nodes := N, disk := d\<rparr>" for N by (cases c) simp
  have "?drive [Flush 1, Restart 1 0] c = Some (c\<lparr>nodes := (nodes c)(1 := forgot_zero), disk := d\<rparr>)"
    unfolding u[symmetric] using c voted_zero_flushed[of c] zero_vote_lost by (simp add: f d_def terms_left_def)
  moreover have "?drive (elect_by 2 1) (c\<lparr>nodes := (nodes c)(1 := forgot_zero), disk := d\<rparr>) = Some (c'\<lparr>disk := d\<rparr>)"
    using drive_disk[of "elect_by 2 1" True zero_cfg "[0, 1, 2]" d "c\<lparr>nodes := (nodes c)(1 := forgot_zero)\<rparr>"] c'
    by (simp add: elect_by_def del: drive.simps)
  ultimately have "?drive (elect_by 0 1 @ [Flush 1, Restart 1 0] @ elect_by 2 1) (cluster_new zero_cfg) = Some (c'\<lparr>disk := d\<rparr>)"
    by (simp only: drive_append c option.case)
  from drive_steps[OF this] c'(2) show ?thesis by (intro exI[of _ "c'\<lparr>disk := d\<rparr>"]) simp
qed


section \<open>A read confirmed by a late acknowledgement\<close>







end
