(* ===== verification/Linear_Check.thy ===== *)
theory Linear_Check
  imports Internal_Key Btree_Map
begin

text \<open>
  The linearizability checker of the simulator, \<^verbatim>\<open>src/crates/kaya-sim/src/linear.rs\<close>: recorded histories, the replay of a
  sequential history, the search for a linearization of a concurrent one, and the reduction of a failing history to
  a minimal one. The replay decides exactly whether a history is a run of a key-value map. The search visits the
  orders that put no operation after one that ended before it began, the opposite of the real-time order, and
  the consequences of that are shown on two histories.
\<close>

section \<open>Histories\<close>

definition WGL_MAX_OPS :: nat where "WGL_MAX_OPS = 14"

datatype lin_op = LinPut bytes bytes | LinDelete bytes | LinGet bytes | LinScan bytes

datatype op_result = ResOk | ResValue "bytes option" | ResScan "(bytes \<times> bytes) list" | ResError string

record history_entry =
  start_tick :: u64
  end_tick :: u64
  client_id :: "u32 option"
  he_op :: lin_op
  he_result :: op_result

record lin_checker =
  history :: "history_entry list"
  next_tick :: u64

definition checker_new :: lin_checker where
  "checker_new = \<lparr>history = [], next_tick = 0\<rparr>"

definition record_interval :: "u64 \<Rightarrow> u64 \<Rightarrow> u32 option \<Rightarrow> lin_op \<Rightarrow> op_result \<Rightarrow> lin_checker \<Rightarrow> lin_checker" where
  "record_interval st en cl x r c =
    (let c1 = (if en > next_tick c then c\<lparr>next_tick := en + 1\<rparr> else c)
     in c1\<lparr>history := history c1 @
          [\<lparr>start_tick = st, end_tick = en, client_id = cl, he_op = x, he_result = r\<rparr>]\<rparr>)"

definition record_op :: "u64 \<Rightarrow> lin_op \<Rightarrow> op_result \<Rightarrow> u64 \<Rightarrow> lin_checker \<Rightarrow> lin_checker" where
  "record_op st x r en c =
    (let c1 = (if en > next_tick c then c\<lparr>next_tick := en + 1\<rparr> else c)
     in c1\<lparr>history := history c1 @
          [\<lparr>start_tick = st, end_tick = en, client_id = None, he_op = x, he_result = r\<rparr>]\<rparr>)"

definition record_next_with_client :: "lin_op \<Rightarrow> op_result \<Rightarrow> u32 option \<Rightarrow> lin_checker \<Rightarrow> lin_checker" where
  "record_next_with_client x r cl c =
    (let st = next_tick c; en = st + 1
     in \<lparr>history = history c @ [\<lparr>start_tick = st, end_tick = en, client_id = cl, he_op = x, he_result = r\<rparr>],
         next_tick = en + 1\<rparr>)"

definition record_next :: "lin_op \<Rightarrow> op_result \<Rightarrow> lin_checker \<Rightarrow> lin_checker" where
  "record_next x r c = record_next_with_client x r None c"

definition checker_reset :: "lin_checker \<Rightarrow> lin_checker" where
  "checker_reset c = \<lparr>history = [], next_tick = 0\<rparr>"

definition from_entries :: "history_entry list \<Rightarrow> lin_checker" where
  "from_entries es =
    \<lparr>history = es, next_tick = (case es of [] \<Rightarrow> 0 | _ \<Rightarrow> Max ((\<lambda>e. saturating_add (end_tick e) 1) ` set es))\<rparr>"

section \<open>Messages\<close>

definition hex_enc :: "bytes \<Rightarrow> string" where
  "hex_enc b = concat (map (\<lambda>x. fmt_hex 2 (unat x)) b)"

definition option_hex :: "bytes option \<Rightarrow> string" where
  "option_hex b = (case b of None \<Rightarrow> ''None'' | Some x \<Rightarrow> hex_enc x)"

fun comma_join :: "string list \<Rightarrow> string" where
  "comma_join [] = []"
| "comma_join [s] = s"
| "comma_join (s # ss) = s @ '', '' @ comma_join ss"

definition debug_bytes :: "bytes \<Rightarrow> string" where
  "debug_bytes b = ''['' @ comma_join (map (\<lambda>x. fmt_dec (unat x)) b) @ '']''"

text \<open>
  The debug form of a result. Both callers have taken the error results out before, so the last equation is not
  reached and does not spell out how the text of an error is quoted.
\<close>

fun debug_result :: "op_result \<Rightarrow> string" where
  "debug_result ResOk = ''Ok''"
| "debug_result (ResValue None) = ''Value(None)''"
| "debug_result (ResValue (Some v)) = ''Value(Some('' @ debug_bytes v @ ''))''"
| "debug_result (ResScan items) =
    ''Scan(['' @ comma_join (map (\<lambda>(k, v). ''('' @ debug_bytes k @ '', '' @ debug_bytes v @ '')'') items) @ ''])''"
| "debug_result (ResError e) = ''Error(...)''"

section \<open>Replay of a sequential history\<close>

type_synonym kv_model = "(bytes, bytes) btree_map"

definition model_scan :: "bytes \<Rightarrow> kv_model \<Rightarrow> (bytes \<times> bytes) list" where
  "model_scan pre m = takeWhile (\<lambda>(k, v). prefix pre k) (bt_range_from pre m)"

fun seq_step :: "nat \<Rightarrow> lin_op \<Rightarrow> op_result \<Rightarrow> kv_model \<Rightarrow> kv_model \<times> string list" where
  "seq_step idx (LinPut k v) r m =
    (case r of
       ResOk \<Rightarrow> (bt_insert k v m, [])
     | ResError _ \<Rightarrow> (m, [])
     | _ \<Rightarrow> (m, [''op['' @ fmt_dec idx @ ''] PUT expected Ok or Error, got '' @ debug_result r]))"
| "seq_step idx (LinDelete k) r m =
    (case r of
       ResOk \<Rightarrow> (bt_remove k m, [])
     | ResError _ \<Rightarrow> (m, [])
     | _ \<Rightarrow> (m, [''op['' @ fmt_dec idx @ ''] DELETE expected Ok or Error, got '' @ debug_result r]))"
| "seq_step idx (LinGet k) r m =
    (case r of
       ResValue observed \<Rightarrow>
         let expected = bt_get k m
         in (m, if observed \<noteq> expected
                then [''op['' @ fmt_dec idx @ ''] GET key='' @ hex_enc k @ '' expected='' @ option_hex expected
                        @ '' observed='' @ option_hex observed]
                else [])
     | ResError _ \<Rightarrow> (m, [])
     | _ \<Rightarrow> (m, [''op['' @ fmt_dec idx @ ''] GET expected Value or Error, got '' @ debug_result r]))"
| "seq_step idx (LinScan pre) r m =
    (case r of
       ResScan observed \<Rightarrow>
         let expected = model_scan pre m
         in (m, if observed \<noteq> expected
                then [''op['' @ fmt_dec idx @ ''] SCAN prefix='' @ hex_enc pre @ '' expected '' @ fmt_dec (length expected)
                        @ '' pairs got '' @ fmt_dec (length observed) @ '' pairs'']
                else [])
     | ResError _ \<Rightarrow> (m, [])
     | _ \<Rightarrow> (m, [''op['' @ fmt_dec idx @ ''] SCAN expected Scan or Error, got '' @ debug_result r]))"

fun seq_loop :: "nat \<Rightarrow> history_entry list \<Rightarrow> kv_model \<Rightarrow> string list" where
  "seq_loop idx [] m = []"
| "seq_loop idx (e # es) m =
    (let (m', vs) = seq_step idx (he_op e) (he_result e) m in vs @ seq_loop (idx + 1) es m')"

definition check_sequential :: "history_entry list \<Rightarrow> string list + unit" where
  "check_sequential h = (let violations = seq_loop 0 h bt_empty in if violations = [] then Inr () else Inl violations)"

section \<open>Search for a linearization\<close>

fun lin_step :: "nat \<Rightarrow> lin_op \<Rightarrow> op_result \<Rightarrow> kv_model \<Rightarrow> kv_model \<times> string list" where
  "lin_step idx (LinPut k v) r m = (if r = ResOk then bt_insert k v m else m, [])"
| "lin_step idx (LinDelete k) r m = (if r = ResOk then bt_remove k m else m, [])"
| "lin_step idx (LinGet k) r m =
    (case r of
       ResValue observed \<Rightarrow>
         let expected = bt_get k m
         in (m, if observed \<noteq> expected
                then [''lin['' @ fmt_dec idx @ ''] GET key='' @ hex_enc k @ '' expected='' @ option_hex expected
                        @ '' observed='' @ option_hex observed]
                else [])
     | _ \<Rightarrow> (m, []))"
| "lin_step idx (LinScan pre) r m =
    (case r of
       ResScan observed \<Rightarrow>
         let expected = model_scan pre m
         in (m, if observed \<noteq> expected
                then [''lin['' @ fmt_dec idx @ ''] SCAN prefix='' @ hex_enc pre @ '' expected '' @ fmt_dec (length expected)
                        @ '' pairs got '' @ fmt_dec (length observed)]
                else [])
     | _ \<Rightarrow> (m, []))"

fun lin_loop :: "nat \<Rightarrow> history_entry list \<Rightarrow> kv_model \<Rightarrow> string list" where
  "lin_loop idx [] m = []"
| "lin_loop idx (e # es) m =
    (let (m', vs) = lin_step idx (he_op e) (he_result e) m in vs @ lin_loop (idx + 1) es m')"

definition keep_entries :: "history_entry list \<Rightarrow> nat list \<Rightarrow> history_entry list" where
  "keep_entries h is = map (\<lambda>i. h ! i) is"

definition verify_linearization :: "history_entry list \<Rightarrow> nat list \<Rightarrow> string list + unit" where
  "verify_linearization h order =
    (let violations = lin_loop 0 (keep_entries h order) bt_empty in if violations = [] then Inr () else Inl violations)"

definition must_before :: "history_entry list \<Rightarrow> nat \<Rightarrow> nat \<Rightarrow> bool" where
  "must_before h i j \<longleftrightarrow> i \<noteq> j \<and> end_tick (h ! i) < start_tick (h ! j)"

text \<open>
  The search. The first argument is the number of operations still to place; the state is whether a linearization has been
  found and the violations of the last complete order.
\<close>

primrec dfs :: "nat \<Rightarrow> history_entry list \<Rightarrow> nat list \<Rightarrow> bool \<times> string list \<Rightarrow> bool \<times> string list" where
  "dfs 0 h order st =
    (if fst st then st
     else case verify_linearization h order of Inr _ \<Rightarrow> (True, snd st) | Inl e \<Rightarrow> (False, e))"
| "dfs (Suc m) h order st =
    (if fst st then st
     else fold (\<lambda>i st.
         if fst st then st
         else if i \<in> set order then st
         else if list_ex (\<lambda>j. must_before h j i) order then st
         else dfs m h (order @ [i]) st) [0..<length h] st)"

definition overlap :: "history_entry \<Rightarrow> history_entry \<Rightarrow> bool" where
  "overlap a b \<longleftrightarrow> start_tick a < end_tick b \<and> start_tick b < end_tick a"

fun no_overlaps :: "history_entry list \<Rightarrow> bool" where
  "no_overlaps [] \<longleftrightarrow> True"
| "no_overlaps (e # es) \<longleftrightarrow> list_all (\<lambda>b. \<not> overlap e b) es \<and> no_overlaps es"

definition check_concurrent :: "history_entry list \<Rightarrow> string list + unit" where
  "check_concurrent h =
    (if length h > WGL_MAX_OPS
     then Inl [''concurrent check supports at most '' @ fmt_dec WGL_MAX_OPS @ '' ops (have '' @ fmt_dec (length h) @ '')'']
     else if h = [] then Inr ()
     else if no_overlaps h then check_sequential h
     else
       let (found, last_error) = dfs (length h) h [] (False, [])
       in if found then Inr ()
          else if last_error = [] then Inl [''no linearization extends the real-time order''] else Inl last_error)"


section \<open>Runs of a key-value map\<close>

text \<open>What is checked: the results a plain map gives. A failed operation has no effect and tells nothing.\<close>

type_synonym kv = "bytes \<rightharpoonup> bytes"

fun kv_next :: "lin_op \<Rightarrow> op_result \<Rightarrow> kv \<Rightarrow> kv" where
  "kv_next (LinPut k v) ResOk m = m(k \<mapsto> v)"
| "kv_next (LinDelete k) ResOk m = m(k := None)"
| "kv_next _ _ m = m"

definition scan_of :: "bytes \<Rightarrow> kv \<Rightarrow> (bytes \<times> bytes) list \<Rightarrow> bool" where
  "scan_of pre m items \<longleftrightarrow> sorted_wrt (<) (map fst items) \<and> set items = {(k, v). m k = Some v \<and> prefix pre k}"

fun kv_allows :: "lin_op \<Rightarrow> op_result \<Rightarrow> kv \<Rightarrow> bool" where
  "kv_allows _ (ResError _) m \<longleftrightarrow> True"
| "kv_allows (LinPut _ _) r m \<longleftrightarrow> r = ResOk"
| "kv_allows (LinDelete _) r m \<longleftrightarrow> r = ResOk"
| "kv_allows (LinGet k) r m \<longleftrightarrow> r = ResValue (m k)"
| "kv_allows (LinScan pre) r m \<longleftrightarrow> (\<exists>items. r = ResScan items \<and> scan_of pre m items)"

fun kv_run :: "history_entry list \<Rightarrow> kv \<Rightarrow> bool" where
  "kv_run [] m \<longleftrightarrow> True"
| "kv_run (e # es) m \<longleftrightarrow> kv_allows (he_op e) (he_result e) m \<and> kv_run es (kv_next (he_op e) (he_result e) m)"

abbreviation kv_of :: "kv_model \<Rightarrow> kv" where
  "kv_of m \<equiv> \<lambda>k. bt_get k m"

lemma takeWhile_sorted_prefix:
  fixes pre :: bytes
  assumes "sorted_wrt (<) (map fst m)" and "\<And>k. k \<in> fst ` set m \<Longrightarrow> pre \<le> k"
  shows "takeWhile (\<lambda>(k, v). prefix pre k) m = filter (\<lambda>(k, v). prefix pre k) m"
  using assms
proof (induction m)
  case Nil
  show ?case by simp
next
  case (Cons e m)
  show ?case
  proof (cases "prefix pre (fst e)")
    case True
    then show ?thesis using Cons by (auto simp: case_prod_beta)
  next
    case False
    have "\<not> prefix pre k" if k: "k \<in> fst ` set m" for k
    proof
      assume p: "prefix pre k"
      have "fst e < k" "pre \<le> fst e" using Cons.prems k by auto
      then show False using False prefix_convex[of pre "fst e" k] p by auto
    qed
    then have "filter (\<lambda>(k, v). prefix pre k) m = []" by (force simp: filter_empty_conv)
    then show ?thesis using False by (cases e) simp
  qed
qed

lemma model_scan_eq:
  assumes "bt_inv m"
  shows "model_scan pre m = filter (\<lambda>(k, v). prefix pre k) m"
proof -
  have r: "bt_range_from pre m = filter (\<lambda>e. pre \<le> fst e) m" by (rule bt_range_from_eq[OF assms])
  have "bt_inv (bt_range_from pre m)" unfolding r using assms by simp
  then have "model_scan pre m = filter (\<lambda>(k, v). prefix pre k) (bt_range_from pre m)"
    unfolding model_scan_def by (intro takeWhile_sorted_prefix) (auto simp: bt_inv_def r)
  also have "\<dots> = filter (\<lambda>(k, v). prefix pre k) m"
    unfolding r filter_filter by (rule filter_cong) (auto intro: prefix_le)
  finally show ?thesis .
qed

lemma model_scan_iff:
  assumes m: "bt_inv m"
  shows "items = model_scan pre m \<longleftrightarrow> scan_of pre (kv_of m) items"
proof
  assume "items = model_scan pre m"
  then have i: "items = filter (\<lambda>(k, v). prefix pre k) m" by (simp add: model_scan_eq[OF m])
  have "bt_inv items" unfolding i using m by simp
  then show "scan_of pre (kv_of m) items"
    using m by (auto simp: scan_of_def bt_inv_def i bt_get_iff_mem)
next
  assume s: "scan_of pre (kv_of m) items"
  have "bt_inv items" "bt_inv (filter (\<lambda>(k, v). prefix pre k) m)" using s m by (auto simp: scan_of_def bt_inv_def[of items])
  moreover have "bt_get k items = bt_get k (filter (\<lambda>(k, v). prefix pre k) m)" for k
  proof -
    have "bt_get k items = Some v \<longleftrightarrow> bt_get k (filter (\<lambda>(k, v). prefix pre k) m) = Some v" for v
      using s calculation m by (auto simp: bt_get_iff_mem scan_of_def)
    then show ?thesis by (metis not_Some_eq)
  qed
  ultimately show "items = model_scan pre m" unfolding model_scan_eq[OF m] by (rule bt_eqI)
qed

lemma seq_step_spec:
  assumes "bt_inv m"
  shows "bt_inv (fst (seq_step idx x r m)) \<and> kv_of (fst (seq_step idx x r m)) = kv_next x r (kv_of m) \<and>
    (snd (seq_step idx x r m) = [] \<longleftrightarrow> kv_allows x r (kv_of m))"
proof (cases x)
  case (LinScan pre)
  then show ?thesis using assms model_scan_iff[OF assms, of _ pre] by (cases r) (auto simp: Let_def)
qed (use assms in \<open>cases r; auto simp: Let_def fun_eq_iff\<close>)+

lemma seq_loop_spec: "bt_inv m \<Longrightarrow> seq_loop idx es m = [] \<longleftrightarrow> kv_run es (kv_of m)"
proof (induction es arbitrary: idx m)
  case Nil
  show ?case by simp
next
  case (Cons e es)
  note s = seq_step_spec[OF Cons.prems, of idx "he_op e" "he_result e"]
  show ?case using Cons.IH[of "fst (seq_step idx (he_op e) (he_result e) m)" "idx + 1"] s
    by (simp add: case_prod_beta Let_def)
qed

text \<open>A result of the kind its operation can have; the search looks at nothing else.\<close>

fun answers :: "lin_op \<Rightarrow> op_result \<Rightarrow> bool" where
  "answers _ (ResError _) \<longleftrightarrow> True"
| "answers (LinPut _ _) r \<longleftrightarrow> r = ResOk"
| "answers (LinDelete _) r \<longleftrightarrow> r = ResOk"
| "answers (LinGet _) r \<longleftrightarrow> (\<exists>v. r = ResValue v)"
| "answers (LinScan _) r \<longleftrightarrow> (\<exists>items. r = ResScan items)"

definition well_answered :: "history_entry list \<Rightarrow> bool" where
  "well_answered h \<longleftrightarrow> (\<forall>e \<in> set h. answers (he_op e) (he_result e))"

lemma lin_step_spec:
  assumes "bt_inv m" and "answers x r"
  shows "bt_inv (fst (lin_step idx x r m)) \<and> kv_of (fst (lin_step idx x r m)) = kv_next x r (kv_of m) \<and>
    (snd (lin_step idx x r m) = [] \<longleftrightarrow> kv_allows x r (kv_of m))"
proof (cases x)
  case (LinScan pre)
  then show ?thesis using assms model_scan_iff[OF assms(1), of _ pre] by (cases r) (auto simp: Let_def)
qed (use assms in \<open>cases r; auto simp: Let_def fun_eq_iff\<close>)+

lemma lin_loop_spec:
  "bt_inv m \<Longrightarrow> well_answered es \<Longrightarrow> lin_loop idx es m = [] \<longleftrightarrow> kv_run es (kv_of m)"
proof (induction es arbitrary: idx m)
  case Nil
  show ?case by simp
next
  case (Cons e es)
  have a: "answers (he_op e) (he_result e)" and w: "well_answered es" using Cons.prems(2) by (simp_all add: well_answered_def)
  note s = lin_step_spec[OF Cons.prems(1) a, of idx]
  show ?case using Cons.IH[OF _ w, of "fst (lin_step idx (he_op e) (he_result e) m)" "idx + 1"] s
    by (simp add: case_prod_beta Let_def)
qed


section \<open>The search for an order\<close>

text \<open>How the search lengthens an order: by an unused operation that no operation already placed precedes.\<close>

fun extends :: "history_entry list \<Rightarrow> nat list \<Rightarrow> nat list \<Rightarrow> bool" where
  "extends h order [] \<longleftrightarrow> True"
| "extends h order (i # is) \<longleftrightarrow> i < length h \<and> i \<notin> set order \<and> (\<forall>j \<in> set order. \<not> must_before h j i) \<and>
     extends h (order @ [i]) is"

lemma fold_search:
  fixes F :: "'i \<Rightarrow> bool \<times> 'e \<Rightarrow> bool \<times> 'e"
  assumes "\<And>i e. i \<in> set is \<Longrightarrow> fst (F i (False, e)) \<longleftrightarrow> G i" and "\<And>i e. i \<in> set is \<Longrightarrow> F i (True, e) = (True, e)"
  shows "fst (fold F is (b, e)) \<longleftrightarrow> b \<or> (\<exists>i \<in> set is. G i)"
  using assms
proof (induction "is" arbitrary: b e)
  case Nil
  show ?case by simp
next
  case (Cons i "is")
  have s: "fst (F i (b, e)) \<longleftrightarrow> b \<or> G i" using Cons.prems by (cases b) simp_all
  obtain b' e' where f: "F i (b, e) = (b', e')" by fastforce
  have "fst (fold F is (b', e')) \<longleftrightarrow> b' \<or> (\<exists>i \<in> set is. G i)" using Cons by simp
  then show ?case using s f by auto
qed


lemma dfs_found: "dfs m h order (True, e) = (True, e)"
  by (cases m) simp_all

definition completes :: "history_entry list \<Rightarrow> nat list \<Rightarrow> nat list \<Rightarrow> bool" where
  "completes h order ext \<longleftrightarrow> extends h order ext \<and> verify_linearization h (order @ ext) = Inr ()"

lemma completes_Cons:
  "completes h order (i # ext) \<longleftrightarrow>
    i < length h \<and> i \<notin> set order \<and> \<not> list_ex (\<lambda>j. must_before h j i) order \<and> completes h (order @ [i]) ext"
  by (auto simp: completes_def list_ex_iff)

lemma dfs_spec: "fst (dfs m h order (False, e)) \<longleftrightarrow> (\<exists>ext. length ext = m \<and> completes h order ext)"
proof (induction m arbitrary: order e)
  case 0
  have "fst (dfs 0 h order (False, e)) \<longleftrightarrow> completes h order []"
    by (cases "verify_linearization h order") (simp_all add: completes_def)
  then show ?case unfolding length_0_conv by blast
next
  case (Suc m)
  let ?P = "\<lambda>i. i \<notin> set order \<and> \<not> list_ex (\<lambda>j. must_before h j i) order"
  let ?S = "\<lambda>order m. \<exists>ext. length ext = m \<and> completes h order ext"
  have "fst (dfs (Suc m) h order (False, e)) \<longleftrightarrow> False \<or> (\<exists>i \<in> set [0..<length h]. ?P i \<and> ?S (order @ [i]) m)"
    unfolding dfs.simps(2) fst_conv if_False
  proof (rule fold_search)
    fix i e
    show "(if fst (True, e) then (True, e) else if i \<in> set order then (True, e)
      else if list_ex (\<lambda>j. must_before h j i) order then (True, e) else dfs m h (order @ [i]) (True, e)) = (True, e)"
      by simp
    show "fst (if fst (False, e) then (False, e) else if i \<in> set order then (False, e)
      else if list_ex (\<lambda>j. must_before h j i) order then (False, e) else dfs m h (order @ [i]) (False, e)) \<longleftrightarrow>
      ?P i \<and> ?S (order @ [i]) m"
      using Suc.IH[of "order @ [i]" e] by (cases "?P i") simp_all
  qed
  also have "\<dots> \<longleftrightarrow> (\<exists>i ext. length ext = m \<and> completes h order (i # ext))"
    unfolding completes_Cons Bex_def set_upt atLeastLessThan_iff by fast
  also have "\<dots> \<longleftrightarrow> ?S order (Suc m)"
    unfolding length_Suc_conv by blast
  finally show ?case .
qed

text \<open>Orders of all the operations; the ones that respect real time; and the ones the search visits.\<close>

definition orders :: "history_entry list \<Rightarrow> nat list set" where
  "orders h = {order. distinct order \<and> set order = {..<length h}}"

definition in_real_time :: "history_entry list \<Rightarrow> nat list \<Rightarrow> bool" where
  "in_real_time h order \<longleftrightarrow> sorted_wrt (\<lambda>i j. \<not> must_before h j i) order"

definition linearizable :: "history_entry list \<Rightarrow> bool" where
  "linearizable h \<longleftrightarrow> (\<exists>order \<in> orders h. in_real_time h order \<and> kv_run (keep_entries h order) Map.empty)"

lemma extends_iff:
  assumes "distinct order" "sorted_wrt (\<lambda>i j. \<not> must_before h i j) order"
  shows "extends h order ext \<longleftrightarrow> set ext \<subseteq> {..<length h} \<and> distinct (order @ ext) \<and>
    sorted_wrt (\<lambda>i j. \<not> must_before h i j) (order @ ext)"
  using assms
proof (induction ext arbitrary: order)
  case Nil
  then show ?case by simp
next
  case (Cons i ext)
  show ?case
  proof (cases "i < length h \<and> i \<notin> set order \<and> (\<forall>j \<in> set order. \<not> must_before h j i)")
    case True
    then have p: "distinct (order @ [i])" "sorted_wrt (\<lambda>i j. \<not> must_before h i j) (order @ [i])"
      using Cons.prems by (simp_all add: sorted_wrt_append)
    have "extends h order (i # ext) \<longleftrightarrow> extends h (order @ [i]) ext" using True by simp
    also have "\<dots> \<longleftrightarrow> set ext \<subseteq> {..<length h} \<and> distinct ((order @ [i]) @ ext) \<and>
        sorted_wrt (\<lambda>i j. \<not> must_before h i j) ((order @ [i]) @ ext)" by (rule Cons.IH[OF p])
    finally show ?thesis using True by simp
  next
    case False
    have "\<not> extends h order (i # ext)" using False unfolding extends.simps by blast
    moreover have "\<not> must_before h j i"
      if "sorted_wrt (\<lambda>i j. \<not> must_before h i j) (order @ i # ext)" "j \<in> set order" for j
      using that by (simp add: sorted_wrt_append)
    moreover have "i < length h \<and> i \<notin> set order"
      if "set (i # ext) \<subseteq> {..<length h} \<and> distinct (order @ i # ext)" using that by simp
    ultimately show ?thesis using False by blast
  qed
qed

lemma orders_iff: "order \<in> orders h \<longleftrightarrow> length order = length h \<and> set order \<subseteq> {..<length h} \<and> distinct order"
proof
  assume "order \<in> orders h"
  then show "length order = length h \<and> set order \<subseteq> {..<length h} \<and> distinct order"
    using distinct_card[of order] by (auto simp: orders_def)
next
  assume o: "length order = length h \<and> set order \<subseteq> {..<length h} \<and> distinct order"
  then have "card (set order) = card {..<length h}" using distinct_card[of order] by simp
  then have "set order = {..<length h}" using o by (intro card_subset_eq) auto
  then show "order \<in> orders h" using o by (simp add: orders_def)
qed

lemma model_empty: "bt_inv (bt_empty :: kv_model)" "kv_of bt_empty = Map.empty"
  by (simp_all add: bt_empty_def fun_eq_iff)

lemma check_sequential_iff: "check_sequential h = Inr () \<longleftrightarrow> kv_run h Map.empty"
  using seq_loop_spec[OF model_empty(1), of 0 h] unfolding check_sequential_def Let_def model_empty(2) by simp

lemma keep_entries_answered:
  assumes "well_answered h" "set is \<subseteq> {..<length h}"
  shows "well_answered (keep_entries h is)"
  using assms unfolding well_answered_def keep_entries_def by (fastforce dest: nth_mem)

lemma verify_iff:
  assumes "well_answered h" "order \<in> orders h"
  shows "verify_linearization h order = Inr () \<longleftrightarrow> kv_run (keep_entries h order) Map.empty"
proof -
  have "well_answered (keep_entries h order)" using assms by (simp add: keep_entries_answered orders_def)
  from lin_loop_spec[OF model_empty(1) this, of 0] show ?thesis
    unfolding verify_linearization_def Let_def model_empty(2) by simp
qed


definition against_real_time :: "history_entry list \<Rightarrow> nat list \<Rightarrow> bool" where
  "against_real_time h order \<longleftrightarrow> sorted_wrt (\<lambda>i j. \<not> must_before h i j) order"

lemma search_iff:
  assumes "well_answered h"
  shows "fst (dfs (length h) h [] (False, [])) \<longleftrightarrow>
    (\<exists>order \<in> orders h. against_real_time h order \<and> kv_run (keep_entries h order) Map.empty)"
proof -
  have "extends h [] ext \<and> length ext = length h \<longleftrightarrow> ext \<in> orders h \<and> against_real_time h ext" for ext
    by (auto simp: extends_iff orders_iff against_real_time_def)
  then show ?thesis unfolding dfs_spec completes_def append_Nil using verify_iff[OF assms] by blast
qed

lemma check_concurrent_search:
  assumes "length h \<le> WGL_MAX_OPS" "\<not> no_overlaps h"
  shows "check_concurrent h = Inr () \<longleftrightarrow> fst (dfs (length h) h [] (False, []))"
proof -
  have "h \<noteq> []" using assms(2) by auto
  then show ?thesis using assms by (simp add: check_concurrent_def Let_def case_prod_beta)
qed

lemma untimed_orders:
  assumes "\<And>i j. i < length h \<Longrightarrow> j < length h \<Longrightarrow> \<not> must_before h i j" and "order \<in> orders h"
  shows "against_real_time h order" "in_real_time h order"
proof -
  have "order ! i < length h" if "i < length order" for i
    using nth_mem[OF that] assms(2) by (simp add: orders_def)
  then show "against_real_time h order" "in_real_time h order"
    using assms(1) by (simp_all add: against_real_time_def in_real_time_def sorted_wrt_iff_nth_less)
qed

text \<open>
  C38. A history is accepted by the sequential check exactly when, taken in the order it was recorded, it is a run of a
  key-value map: every read and every prefix scan returns what the writes and deletes recorded before it left, and no
  operation has a result of another operation's kind.
\<close>

theorem check_sequential_exact:
  "check_sequential h = Inr () \<longleftrightarrow> kv_run h Map.empty"
  by (rule check_sequential_iff)

text \<open>
  C37. The search for an order of concurrent operations. On a history in which no operation has to come before another in
  real time, some operations overlap, and every result is one its operation can have, the search accepts exactly the
  linearizable histories of at most 14 operations: those for which some order of all the operations is a run of a
  key-value map. Longer histories are refused.
\<close>

theorem check_concurrent_exact:
  assumes "well_answered h" and "\<not> no_overlaps h" and "\<forall>i < length h. \<forall>j < length h. \<not> must_before h i j"
  shows "check_concurrent h = Inr () \<longleftrightarrow> length h \<le> 14 \<and> linearizable h"
proof (cases "length h \<le> WGL_MAX_OPS")
  case True
  note c = check_concurrent_search[OF True assms(2)] search_iff[OF assms(1)]
  have "against_real_time h order \<and> in_real_time h order" if "order \<in> orders h" for order
    using untimed_orders[of h order] assms(3) that by blast
  then have "check_concurrent h = Inr () \<longleftrightarrow> linearizable h" unfolding c linearizable_def by blast
  then show ?thesis using True by (simp add: WGL_MAX_OPS_def)
next
  case False
  then show ?thesis by (simp add: check_concurrent_def) (simp add: WGL_MAX_OPS_def)
qed

theorem check_concurrent_exact_witness:
  "linearizable
    [\<lparr>start_tick = 0, end_tick = 9, client_id = Some 1, he_op = LinGet [1], he_result = ResValue (Some [7])\<rparr>,
     \<lparr>start_tick = 1, end_tick = 8, client_id = Some 2, he_op = LinPut [1] [7], he_result = ResOk\<rparr>]"
  (is "linearizable ?h")
proof -
  have "well_answered ?h" "\<not> no_overlaps ?h" by (simp_all add: well_answered_def overlap_def)
  moreover have "\<forall>i < length ?h. \<forall>j < length ?h. \<not> must_before ?h i j"
    by (simp add: must_before_def All_less_Suc)
  moreover have "check_concurrent ?h = Inr ()" by code_simp
  ultimately show ?thesis using check_concurrent_exact[of ?h] by blast
qed

text \<open>Two clients writing different keys at the same time, and a read of one of them that starts when both are done.\<close>

definition two_writes_then_read :: "bytes option \<Rightarrow> history_entry list" where
  "two_writes_then_read v =
    [\<lparr>start_tick = 0, end_tick = 3, client_id = None, he_op = LinPut [1] [7], he_result = ResOk\<rparr>,
     \<lparr>start_tick = 1, end_tick = 2, client_id = None, he_op = LinPut [2] [8], he_result = ResOk\<rparr>,
     \<lparr>start_tick = 5, end_tick = 6, client_id = None, he_op = LinGet [1], he_result = ResValue v\<rparr>]"

lemma two_writes_simps:
  "length (two_writes_then_read v) = 3" "must_before (two_writes_then_read v) 0 2"
  "must_before (two_writes_then_read v) (Suc 0) 2" "\<not> must_before (two_writes_then_read v) 2 0"
  "\<not> must_before (two_writes_then_read v) 2 (Suc 0)" "\<not> must_before (two_writes_then_read v) 0 (Suc 0)"
  "\<not> must_before (two_writes_then_read v) (Suc 0) 0"
  by (simp_all add: two_writes_then_read_def must_before_def)

lemma two_writes_run:
  "kv_run (keep_entries (two_writes_then_read v) [0, 1, 2]) Map.empty \<longleftrightarrow> v = Some [7]"
  "kv_run (keep_entries (two_writes_then_read v) [1, 0, 2]) Map.empty \<longleftrightarrow> v = Some [7]"
  by (auto simp: two_writes_then_read_def keep_entries_def)

lemma two_writes_orders:
  assumes "order \<in> orders (two_writes_then_read v)" "in_real_time (two_writes_then_read v) order"
  shows "order = [0, 1, 2] \<or> order = [1, 0, 2]"
proof -
  have "length order = 3" "set order \<subseteq> {0, 1, 2}" "distinct order"
    using assms(1) by (auto simp: orders_iff two_writes_simps)
  then obtain a b c where "order = [a, b, c]" "a \<in> {0, 1, 2}" "b \<in> {0, 1, 2}" "c \<in> {0, 1, 2}" "distinct [a, b, c]"
    by (auto simp: length_Suc_conv numeral_3_eq_3)
  then show ?thesis using assms(2) by (auto simp: in_real_time_def two_writes_simps)
qed

lemma two_writes_linearizable: "linearizable (two_writes_then_read v) \<longleftrightarrow> v = Some [7]"
proof
  assume "linearizable (two_writes_then_read v)"
  then show "v = Some [7]" unfolding linearizable_def using two_writes_orders two_writes_run by blast
next
  assume v: "v = Some [7]"
  have "[0, 1, 2] \<in> orders (two_writes_then_read v)" by (auto simp: orders_iff two_writes_simps)
  moreover have "in_real_time (two_writes_then_read v) [0, 1, 2]" by (simp add: in_real_time_def two_writes_simps)
  ultimately show "linearizable (two_writes_then_read v)" unfolding linearizable_def using two_writes_run(1) v by blast
qed

text \<open>
  C36. The test that should keep an operation back until those that ended before it started are placed is the wrong way
  round: it keeps an operation back once one of them is placed. A read that starts after two concurrent writes have
  ended is therefore placed before them. The checker reports the linearizable history, in which the read returns what
  was written, as a violation, and accepts the one in which the written value is lost, which has no linearization.
\<close>

theorem inverted_real_time_order:
  "linearizable (two_writes_then_read (Some [7])) \<and> check_concurrent (two_writes_then_read (Some [7])) \<noteq> Inr () \<and>
   \<not> linearizable (two_writes_then_read None) \<and> check_concurrent (two_writes_then_read None) = Inr ()"
proof -
  have "check_concurrent (two_writes_then_read (Some [7])) \<noteq> Inr ()" "check_concurrent (two_writes_then_read None) = Inr ()"
    by code_simp+
  then show ?thesis by (simp add: two_writes_linearizable)
qed


section \<open>Minimal counterexamples\<close>

record minimal_cex =
  original_indices :: "nat list"
  cex_ops :: "history_entry list"
  why :: "string list"

definition remove_at :: "nat \<Rightarrow> 'a list \<Rightarrow> 'a list" where
  "remove_at pos xs = take pos xs @ drop (pos + 1) xs"

definition check_kept :: "history_entry list \<Rightarrow> nat list \<Rightarrow> string list + unit" where
  "check_kept h is = check_concurrent (history (from_entries (keep_entries h is)))"

text \<open>The first position whose removal leaves a failing subset, with the subset and its violations.\<close>

fun drop_first :: "history_entry list \<Rightarrow> nat list \<Rightarrow> nat list \<Rightarrow> (nat list \<times> string list) option" where
  "drop_first h keep [] = None"
| "drop_first h keep (pos # ps) =
    (case check_kept h (remove_at pos keep) of
       Inl e \<Rightarrow> Some (remove_at pos keep, e)
     | Inr _ \<Rightarrow> drop_first h keep ps)"

lemma drop_first_shorter:
  "drop_first h keep ps = Some (keep', e) \<Longrightarrow> set ps \<subseteq> {..<length keep} \<Longrightarrow> length keep' < length keep"
  by (induction ps) (auto simp: remove_at_def split: sum.splits)

function shrink_forward :: "history_entry list \<Rightarrow> nat list \<Rightarrow> string list \<Rightarrow> nat list \<times> string list" where
  "shrink_forward h keep w =
    (if length keep > 1
     then case drop_first h keep [0..<length keep] of
            Some (candidate, e) \<Rightarrow> shrink_forward h candidate e
          | None \<Rightarrow> (keep, w)
     else (keep, w))"
  by pat_completeness auto
termination
  by (relation "measure (\<lambda>(h, keep, w). length keep)") (auto dest: drop_first_shorter)

fun reverse_pass :: "history_entry list \<Rightarrow> nat list \<Rightarrow> nat list \<Rightarrow> string list \<Rightarrow> nat list \<times> string list" where
  "reverse_pass h [] keep w = (keep, w)"
| "reverse_pass h (pos # ps) keep w =
    (if length keep \<le> 1 then (keep, w)
     else case check_kept h (remove_at pos keep) of
            Inl e \<Rightarrow> reverse_pass h ps (remove_at pos keep) e
          | Inr _ \<Rightarrow> reverse_pass h ps keep w)"

lemma length_remove_at_le: "length (remove_at pos xs) \<le> length xs"
  by (simp add: remove_at_def)

lemma reverse_pass_shorter: "length (fst (reverse_pass h ps keep w)) \<le> length keep"
proof (induction ps arbitrary: keep w)
  case (Cons pos ps)
  show ?case using Cons[of keep w] Cons[of "remove_at pos keep"] length_remove_at_le[of pos keep]
    by (auto split: sum.split intro: order_trans)
qed simp

function shrink_reverse :: "history_entry list \<Rightarrow> nat list \<Rightarrow> string list \<Rightarrow> nat list \<times> string list" where
  "shrink_reverse h keep w =
    (let r = reverse_pass h (rev [0..<length keep]) keep w
     in if length (fst r) = length keep then r else shrink_reverse h (fst r) (snd r))"
  by pat_completeness auto
termination
  by (relation "measure (\<lambda>x. length (fst (snd x)))") (simp_all add: reverse_pass_shorter le_neq_implies_less)

declare shrink_forward.simps [simp del] shrink_reverse.simps [simp del]

definition shrink_indices_to_minimal :: "history_entry list \<Rightarrow> nat list \<Rightarrow> minimal_cex option" where
  "shrink_indices_to_minimal h seed =
    (if seed = [] then None
     else case check_kept h seed of
            Inr _ \<Rightarrow> None
          | Inl w \<Rightarrow>
              let (keep1, w1) = shrink_forward h seed w;
                  (keep2, w2) = shrink_reverse h keep1 w1
              in Some \<lparr>original_indices = keep2, cex_ops = keep_entries h keep2, why = w2\<rparr>)"


definition pick_smaller :: "minimal_cex option \<Rightarrow> minimal_cex \<Rightarrow> minimal_cex" where
  "pick_smaller best cand =
    (case best of None \<Rightarrow> cand | Some b \<Rightarrow> if length (cex_ops cand) < length (cex_ops b) then cand else b)"

definition op_key :: "lin_op \<Rightarrow> bytes option" where
  "op_key x = (case x of LinPut key _ \<Rightarrow> Some key | LinGet key \<Rightarrow> Some key | LinDelete key \<Rightarrow> Some key | LinScan _ \<Rightarrow> None)"

type_synonym partitions = "(bytes, nat list) btree_map \<times> nat list"

definition partition_step :: "nat \<Rightarrow> history_entry \<Rightarrow> partitions \<Rightarrow> partitions" where
  "partition_step i e st =
    (let (by_key, scan_idxs) = st in
     case op_key (he_op e) of
       Some key \<Rightarrow> (bt_insert key ((case bt_get key by_key of None \<Rightarrow> [] | Some is \<Rightarrow> is) @ [i]) by_key, scan_idxs)
     | None \<Rightarrow> (by_key, scan_idxs @ [i]))"

fun partition_loop :: "nat \<Rightarrow> history_entry list \<Rightarrow> partitions \<Rightarrow> partitions" where
  "partition_loop i [] st = st"
| "partition_loop i (e # es) st = partition_loop (i + 1) es (partition_step i e st)"

definition key_and_scan_partitions :: "history_entry list \<Rightarrow> partitions" where
  "key_and_scan_partitions h = partition_loop 0 h (bt_empty, [])"

definition better :: "history_entry list \<Rightarrow> nat list \<Rightarrow> minimal_cex option \<Rightarrow> minimal_cex option" where
  "better h idxs best =
    (case shrink_indices_to_minimal h idxs of Some cex \<Rightarrow> Some (pick_smaller best cex) | None \<Rightarrow> best)"

definition minimal_counterexample :: "history_entry list \<Rightarrow> minimal_cex option" where
  "minimal_counterexample h =
    (case check_concurrent h of
       Inr _ \<Rightarrow> None
     | Inl _ \<Rightarrow>
         let (by_key, scan_idxs) = key_and_scan_partitions h;
             best1 = fold (\<lambda>(_, idxs). better h idxs) by_key None;
             best2 = (if scan_idxs \<noteq> [] then better h scan_idxs best1 else best1)
         in (case best2 of
               None \<Rightarrow> shrink_indices_to_minimal h [0..<length h]
             | Some b \<Rightarrow> Some b))"

definition check_concurrent_detailed :: "history_entry list \<Rightarrow> (string list \<times> minimal_cex option) + unit" where
  "check_concurrent_detailed h =
    (case check_concurrent h of Inr _ \<Rightarrow> Inr () | Inl violations \<Rightarrow> Inl (violations, minimal_counterexample h))"

lemma check_kept_eq: "check_kept h is = check_concurrent (keep_entries h is)"
  by (simp add: check_kept_def from_entries_def)

lemma check_kept_Nil: "check_kept h [] = Inr ()"
  by (simp add: check_kept_eq keep_entries_def check_concurrent_def)

lemma keep_entries_upt: "keep_entries h [0..<length h] = h"
  by (simp add: keep_entries_def map_nth)

lemma remove_at_subseq: "subseq (remove_at pos xs) xs"
proof -
  have "subseq (tl ys) ys" for ys :: "'a list" by (cases ys) auto
  from this[of "drop pos xs"] have "subseq (drop (pos + 1) xs) (drop pos xs)" by (simp add: drop_Suc tl_drop)
  then have "subseq (take pos xs @ drop (pos + 1) xs) (take pos xs @ drop pos xs)"
    by (intro list_emb_append_mono subseq_order.refl)
  then show ?thesis by (simp add: remove_at_def)
qed

lemma drop_first_Some:
  "drop_first h keep ps = Some (keep', e) \<Longrightarrow> check_kept h keep' = Inl e \<and> subseq keep' keep"
  by (induction ps) (auto simp: remove_at_subseq split: sum.splits)

lemma drop_first_None:
  "drop_first h keep ps = None \<Longrightarrow> pos \<in> set ps \<Longrightarrow> check_kept h (remove_at pos keep) = Inr ()"
  by (induction ps) (auto split: sum.splits)

text \<open>Nothing can be dropped: every subset with one operation fewer is accepted.\<close>

definition undroppable :: "history_entry list \<Rightarrow> nat list \<Rightarrow> bool" where
  "undroppable h keep \<longleftrightarrow> (\<forall>pos < length keep. check_kept h (remove_at pos keep) = Inr ())"

lemma shrink_forward_spec:
  assumes "check_kept h keep = Inl w"
  shows "case shrink_forward h keep w of (keep', w') \<Rightarrow>
    check_kept h keep' = Inl w' \<and> subseq keep' keep \<and> undroppable h keep'"
  using assms
proof (induction h keep w rule: shrink_forward.induct)
  case (1 h keep w)
  consider "length keep \<le> 1" | "length keep > 1" "drop_first h keep [0..<length keep] = None"
    | c e where "length keep > 1" "drop_first h keep [0..<length keep] = Some (c, e)" by fastforce
  then show ?case
  proof cases
    case 1
    then have "remove_at pos keep = []" if "pos < length keep" for pos using that by (cases keep) (auto simp: remove_at_def)
    then have "undroppable h keep" by (simp add: undroppable_def check_kept_Nil)
    with 1 show ?thesis using "1.prems" by (simp add: shrink_forward.simps)
  next
    case 2
    then have "undroppable h keep" using drop_first_None[OF 2(2)] by (simp add: undroppable_def)
    then show ?thesis using 2 "1.prems" by (simp add: shrink_forward.simps)
  next
    case (3 c e)
    note d = drop_first_Some[OF 3(2)]
    have "case shrink_forward h c e of (keep', w') \<Rightarrow> check_kept h keep' = Inl w' \<and> subseq keep' c \<and> undroppable h keep'"
      by (rule "1.IH"[OF 3(1,2) refl]) (rule conjunct1[OF d])
    moreover have "shrink_forward h keep w = shrink_forward h c e" using 3 by (simp add: shrink_forward.simps)
    ultimately show ?thesis using d by (auto intro: subseq_order.trans)
  qed
qed


lemma reverse_pass_undroppable:
  "undroppable h keep \<Longrightarrow> set ps \<subseteq> {..<length keep} \<Longrightarrow> reverse_pass h ps keep w = (keep, w)"
  by (induction ps) (auto simp: undroppable_def)

lemma shrink_reverse_undroppable: "undroppable h keep \<Longrightarrow> shrink_reverse h keep w = (keep, w)"
  by (subst shrink_reverse.simps) (simp add: reverse_pass_undroppable subset_iff)

text \<open>What a reported counterexample promises about the history.\<close>

definition sound_cex :: "history_entry list \<Rightarrow> minimal_cex \<Rightarrow> bool" where
  "sound_cex h c \<longleftrightarrow> sorted_wrt (<) (original_indices c) \<and> set (original_indices c) \<subseteq> {..<length h} \<and>
    cex_ops c = keep_entries h (original_indices c) \<and> check_concurrent (cex_ops c) = Inl (why c) \<and>
    undroppable h (original_indices c)"

lemma sorted_subseq: "subseq xs ys \<Longrightarrow> sorted_wrt P ys \<Longrightarrow> sorted_wrt P xs"
  by (induction rule: list_emb.induct) (auto dest: list_emb_set)

lemma shrink_spec:
  assumes "sorted_wrt (<) seed" "set seed \<subseteq> {..<length h}" "shrink_indices_to_minimal h seed = Some c"
  shows "sound_cex h c"
proof -
  obtain w where w0: "check_kept h seed = Inl w"
    using assms(3) by (auto simp: shrink_indices_to_minimal_def split: if_splits sum.splits)
  obtain keep1 w1 where "shrink_forward h seed w = (keep1, w1)" by fastforce
  note w = w0 this
  have k: "check_kept h keep1 = Inl w1" "subseq keep1 seed" "undroppable h keep1"
    using shrink_forward_spec[OF w(1)] w(2) by auto
  have "c = \<lparr>original_indices = keep1, cex_ops = keep_entries h keep1, why = w1\<rparr>"
    using assms(3) w shrink_reverse_undroppable[OF k(3)] by (auto simp: shrink_indices_to_minimal_def split: if_splits)
  then show ?thesis
    using k sorted_subseq[OF k(2) assms(1)] list_emb_set[OF k(2)] assms(2) by (auto simp: sound_cex_def check_kept_eq)
qed

lemma shrink_None: "shrink_indices_to_minimal h seed = None \<longleftrightarrow> check_kept h seed = Inr ()"
  by (auto simp: shrink_indices_to_minimal_def check_kept_Nil case_prod_beta Let_def split: sum.splits)

text \<open>The partitions are increasing lists of positions in the history.\<close>

definition positions_below :: "nat \<Rightarrow> nat list \<Rightarrow> bool" where
  "positions_below n is \<longleftrightarrow> sorted_wrt (<) is \<and> set is \<subseteq> {..<n}"

lemma positions_below_snoc: "positions_below n is \<Longrightarrow> positions_below (Suc n) (is @ [n])"
  by (auto simp: positions_below_def sorted_wrt_append)

lemma positions_below_Suc: "positions_below n is \<Longrightarrow> positions_below (Suc n) is"
  by (auto simp: positions_below_def)

lemma bt_insert_values: "snd ` set (bt_insert k v m) \<subseteq> insert v (snd ` set m)"
  by (induction k v m rule: bt_insert.induct) auto

definition parts_below :: "nat \<Rightarrow> partitions \<Rightarrow> bool" where
  "parts_below n st \<longleftrightarrow> (\<forall>p \<in> snd ` set (fst st). positions_below n p) \<and> positions_below n (snd st)"

lemma parts_below_get:
  assumes "parts_below n (m, ss)"
  shows "positions_below n (case bt_get key m of None \<Rightarrow> [] | Some p \<Rightarrow> p)"
proof (cases "bt_get key m")
  case None
  then show ?thesis by (simp add: positions_below_def)
next
  case (Some p)
  then have "(key, p) \<in> set m" unfolding bt_get_def by (rule map_of_SomeD)
  from imageI[OF this, of snd] have "positions_below n p"
    using assms unfolding parts_below_def fst_conv snd_conv by blast
  then show ?thesis using Some by simp
qed

lemma parts_below_insert:
  assumes "parts_below n (m, ss)" "positions_below n v"
  shows "parts_below n (bt_insert key v m, ss)"
  using assms bt_insert_values[of key v m] unfolding parts_below_def fst_conv snd_conv by blast

lemma parts_below_Suc: "parts_below n st \<Longrightarrow> parts_below (Suc n) st"
  unfolding parts_below_def by (blast intro: positions_below_Suc)

lemma parts_below_step:
  assumes "parts_below n (m, ss)"
  shows "parts_below (Suc n) (partition_step n e (m, ss))"
proof (cases "op_key (he_op e)")
  case None
  then have "partition_step n e (m, ss) = (m, ss @ [n])" by (simp add: partition_step_def)
  moreover have "positions_below (Suc n) (ss @ [n])" using assms by (simp add: parts_below_def positions_below_snoc)
  ultimately show ?thesis using parts_below_Suc[OF assms] by (simp add: parts_below_def)
next
  case (Some key)
  let ?v = "(case bt_get key m of None \<Rightarrow> [] | Some p \<Rightarrow> p) @ [n]"
  have "partition_step n e (m, ss) = (bt_insert key ?v m, ss)" unfolding partition_step_def Some Let_def by simp
  moreover have "positions_below (Suc n) ?v" by (rule positions_below_snoc) (rule parts_below_get[OF assms])
  ultimately show ?thesis using parts_below_insert[OF parts_below_Suc[OF assms]] by metis
qed

lemma partition_loop_below: "parts_below i st \<Longrightarrow> parts_below (i + length es) (partition_loop i es st)"
proof (induction es arbitrary: i st)
  case (Cons e es)
  have "parts_below (Suc i) (partition_step i e st)" using parts_below_step[of i "fst st" "snd st" e] Cons.prems by simp
  from Cons.IH[OF this] show ?case by simp
qed simp

lemma partitions_below: "parts_below (length h) (key_and_scan_partitions h)"
proof -
  have "parts_below 0 (bt_empty, [])" by (simp add: parts_below_def positions_below_def bt_empty_def)
  from partition_loop_below[OF this, of h] show ?thesis by (simp add: key_and_scan_partitions_def)
qed

lemma better_sound:
  assumes "positions_below (length h) is" "\<And>b. best = Some b \<Longrightarrow> sound_cex h b" "better h is best = Some c"
  shows "sound_cex h c"
  using assms shrink_spec[of "is" h]
  by (auto simp: better_def pick_smaller_def positions_below_def split: option.splits if_splits)

lemma fold_better_sound:
  assumes "\<forall>is \<in> snd ` set parts. positions_below (length h) is" "\<And>b. best = Some b \<Longrightarrow> sound_cex h b"
    "fold (\<lambda>(_, idxs). better h idxs) parts best = Some c"
  shows "sound_cex h c"
  using assms
proof (induction parts arbitrary: best)
  case (Cons p parts)
  obtain k idxs where p: "p = (k, idxs)" by fastforce
  have "sound_cex h b" if b: "better h idxs best = Some b" for b
    by (rule better_sound[OF _ _ b]) (use Cons.prems p in auto)
  then show ?case using Cons.IH[of "better h idxs best"] Cons.prems(1,3) p by simp
qed simp

lemma minimal_counterexample_sound:
  assumes "minimal_counterexample h = Some c"
  shows "sound_cex h c"
proof -
  obtain by_key scans where p: "key_and_scan_partitions h = (by_key, scans)" by fastforce
  have pb: "\<forall>is \<in> snd ` set by_key. positions_below (length h) is" "positions_below (length h) scans"
    using partitions_below[of h] by (simp_all add: p parts_below_def)
  define best1 where "best1 = fold (\<lambda>(_, idxs). better h idxs) by_key None"
  define best2 where "best2 = (if scans \<noteq> [] then better h scans best1 else best1)"
  have b1: "sound_cex h b" if "best1 = Some b" for b
    using fold_better_sound[of by_key h None b] pb that by (simp add: best1_def)
  have b2: "sound_cex h b" if "best2 = Some b" for b
    using better_sound[of h scans best1 b] pb b1 that by (auto simp: best2_def split: if_splits)
  have "(case best2 of None \<Rightarrow> shrink_indices_to_minimal h [0..<length h] | Some b \<Rightarrow> Some b) = Some c"
    using assms by (auto simp: minimal_counterexample_def p best1_def best2_def Let_def split: sum.splits)
  then show ?thesis using b2 shrink_spec[of "[0..<length h]" h c] by (auto simp: atLeast0LessThan split: option.splits)
qed

lemma minimal_counterexample_None: "minimal_counterexample h = None \<longleftrightarrow> check_concurrent h = Inr ()"
  using shrink_None[of h "[0..<length h]"]
  by (auto simp: minimal_counterexample_def check_kept_eq keep_entries_upt case_prod_beta Let_def split: sum.splits option.splits)

text \<open>
  C39. A rejected history always yields a counterexample, and only a rejected one does. The counterexample consists of
  operations of the history in their order, is itself rejected for the reason it carries, and is minimal: dropping any
  one of its operations leaves an accepted history. The two shrinking loops it is found with end.
\<close>

theorem minimal_counterexample_correct:
  "(minimal_counterexample h = None \<longleftrightarrow> check_concurrent h = Inr ()) \<and>
   (minimal_counterexample h = Some c \<longrightarrow>
      sorted_wrt (<) (original_indices c) \<and> set (original_indices c) \<subseteq> {..<length h} \<and>
      cex_ops c = keep_entries h (original_indices c) \<and> check_concurrent (cex_ops c) = Inl (why c) \<and>
      (\<forall>pos < length (cex_ops c).
         check_concurrent (keep_entries h (remove_at pos (original_indices c))) = Inr ()))"
  using minimal_counterexample_None[of h] minimal_counterexample_sound[of h c]
  by (auto simp: sound_cex_def undroppable_def check_kept_eq keep_entries_def)

theorem minimal_counterexample_correct_witness:
  "\<exists>c. minimal_counterexample (two_writes_then_read (Some [7])) = Some c \<and> original_indices c = [2] \<and>
    check_concurrent (cex_ops c) = Inl (why c)"
proof -
  have "map_option original_indices (minimal_counterexample (two_writes_then_read (Some [7]))) = Some [2]" by code_simp
  then obtain c where "minimal_counterexample (two_writes_then_read (Some [7])) = Some c" "original_indices c = [2]" by auto
  then show ?thesis using minimal_counterexample_correct[of "two_writes_then_read (Some [7])" c] by blast
qed

end
