(* ===== verification/Spec2Isabelle.thy ===== *)
theory Spec2Isabelle
  imports Kaya_Hlc Wal_Promise Memtable Sst_Build Sst_Cache Range_Table Multi_Raft Raft_Scenarios Linear_Check
begin

text \<open>
  KayaDB is a replicated, multi-version key-value store written in Rust. This development models the parts of it that
  decide what is on disk and what is agreed on: the formats and the write-ahead log of storage, the memtable and
  the table files, the Raft node with its log, messages and cluster configurations, the hosting of several Raft groups, and
  the linearizability checker of its simulator. Every definition is a translation of a function of the sources; the
  engine that combines log, memtable and tables, and the network server, are not modelled.

  \<^bold>\<open>How the parts interact.\<close> A client command is appended to the Raft log of the group that owns its key (\<^verbatim>\<open>Range_Table\<close>,
  \<^verbatim>\<open>Multi_Raft\<close>), replicated and committed by the nodes of the group (\<^verbatim>\<open>Raft_Node\<close>, \<^verbatim>\<open>Raft_Handlers\<close>), and applied to the
  engine. The engine writes it to the write-ahead log (\<^verbatim>\<open>Wal_Codec\<close>, \<^verbatim>\<open>Wal_Log\<close>) on a disk (\<^verbatim>\<open>Sim_Disk\<close>) and into the
  memtable (\<^verbatim>\<open>Memtable\<close>); full memtables become table files (\<^verbatim>\<open>Sst_Block\<close>, \<^verbatim>\<open>Sst_Table\<close>), which the manifest
  (\<^verbatim>\<open>Manifest\<close>) lists. Versions are ordered by timestamps of a hybrid logical clock (\<^verbatim>\<open>Kaya_Hlc\<close>).

  \<^bold>\<open>Shared ground.\<close>
  \<^item> \<^verbatim>\<open>Kaya_Prelude\<close>: words, byte strings, integer encodings, number formatting, generic lemmas.
  \<^item> \<^verbatim>\<open>Kaya_Core\<close> (\<^verbatim>\<open>kaya-core/src/lib.rs\<close>): errors, identifiers, configuration, CRC-32C. Two byte strings that differ in one
    byte have different checksums.
  \<^item> \<^verbatim>\<open>Btree_Map\<close>: the ordered map of the standard library as a sorted list, with the locale \<^verbatim>\<open>ordered_map\<close> for its laws.
  \<^item> \<^verbatim>\<open>Kaya_Hlc\<close> (\<^verbatim>\<open>kaya-core/src/hlc.rs\<close>): merge, guarded merge, tick and the packed form. Merges dominate their inputs,
    the packed form keeps the order, and a tick stands still exactly when the logical counter is saturated.

  \<^bold>\<open>Disk and write-ahead log.\<close>
  \<^item> \<^verbatim>\<open>Rel_Path\<close> (\<^verbatim>\<open>kaya-io/src/path.rs\<close>): normalised paths stay below their directory, up to drive letters.
  \<^item> \<^verbatim>\<open>Sim_Disk\<close> (\<^verbatim>\<open>kaya-io/src/sim.rs\<close>): the simulated disk with volatile and stable bytes, fault schedule and crash;
    what a client may rely on is the locale \<^verbatim>\<open>crash_disk\<close>.
  \<^item> \<^verbatim>\<open>Wal_Codec\<close> (\<^verbatim>\<open>kaya-wal/src/codec.rs\<close>): records; the decoder accepts exactly the encodings and no damaged one.
  \<^item> \<^verbatim>\<open>Wal_Log\<close> (\<^verbatim>\<open>batch.rs\<close>, \<^verbatim>\<open>writer.rs\<close>, \<^verbatim>\<open>recovery.rs\<close>, \<^verbatim>\<open>inspect.rs\<close>): group commit, the segment writer, recovery,
    inspection, as functions of the writer and the disk. The stages of an append are the definitions \<^verbatim>\<open>append_expire\<close> to
    \<^verbatim>\<open>append_finish\<close>.
  \<^item> \<^verbatim>\<open>Wal_Recovery\<close>: segment names, the listing of the directory, and what recovery returns on a disk that holds a log.
  \<^item> \<^verbatim>\<open>Wal_Promise\<close>: the invariant of an open writer, and durability: acknowledged strict appends survive crashes, as long as
    no write is torn and a writer is not used after a failed append. That the last condition is needed is shown too.

  \<^bold>\<open>Tables.\<close>
  \<^item> \<^verbatim>\<open>Internal_Key\<close>, \<^verbatim>\<open>Memtable\<close> (\<^verbatim>\<open>kaya-lsm/src/internal_key.rs\<close>, \<^verbatim>\<open>lib.rs\<close>): versioned keys and the memtable, which refines the
    versioned store of the locale \<^verbatim>\<open>mvcc_store\<close>; scans are exact.
  \<^item> \<^verbatim>\<open>Manifest\<close> (\<^verbatim>\<open>manifest.rs\<close>): edits, frames and replay up to a torn tail.
  \<^item> \<^verbatim>\<open>Sst_Block\<close>, \<^verbatim>\<open>Sst_Table\<close> (\<^verbatim>\<open>sstable.rs\<close>, \<^verbatim>\<open>block_cache.rs\<close>): blocks, bloom filter, footer, builder, reader and cache. LZ4
    and Zstandard are the record \<^verbatim>\<open>compressors\<close>, of which \<^verbatim>\<open>compressors_ok\<close> assumes that decompression inverts compression.
  \<^item> \<^verbatim>\<open>Sst_Codec\<close>, \<^verbatim>\<open>Sst_Footer\<close>, \<^verbatim>\<open>Sst_Reads\<close>, \<^verbatim>\<open>Sst_Build\<close>, \<^verbatim>\<open>Sst_Cache\<close>: round trips of the parts, the bloom filter without false
    negatives, reads of a built file that equal reads of its entries whatever the cache holds (the locale \<^verbatim>\<open>sorted_table\<close>), and the
    cache as a least-recently-used one.

  \<^bold>\<open>Replication.\<close>
  \<^item> \<^verbatim>\<open>Raft_Command\<close>, \<^verbatim>\<open>Raft_Log\<close> (\<^verbatim>\<open>kaya-raft/src/command.rs\<close>, \<^verbatim>\<open>log.rs\<close>, \<^verbatim>\<open>storage.rs\<close>, \<^verbatim>\<open>disk_storage.rs\<close>): commands, snapshots,
    the log and the durable state, with their round trips and what is lost in them.
  \<^item> \<^verbatim>\<open>Raft_Node\<close>, \<^verbatim>\<open>Raft_Handlers\<close> (\<^verbatim>\<open>node.rs\<close>, \<^verbatim>\<open>message.rs\<close>, \<^verbatim>\<open>cluster_config.rs\<close>): the node as a record and every operation its
    driver can call; \<^verbatim>\<open>run_op\<close> is their sum. The loop that applies entries ends, in order; a node votes once in a term.
  \<^item> \<^verbatim>\<open>Raft_Cluster\<close> (\<^verbatim>\<open>kaya-server/src/cluster/election.rs\<close>, \<^verbatim>\<open>raft_persister.rs\<close>): the steps of a cluster, election safety through
    the locale \<^verbatim>\<open>quorum_system\<close>, and its failure for even numbers of voters and unsynced votes.
  \<^item> \<^verbatim>\<open>Raft_Progress\<close>: a silent voter stands for election. \<^verbatim>\<open>Raft_Scenarios\<close>: a voter 0 and a late acknowledgement.
  \<^item> \<^verbatim>\<open>Range_Table\<close>, \<^verbatim>\<open>Multi_Raft\<close> (\<^verbatim>\<open>multi_raft.rs\<close>): ranges partition the key space and are rerouted as asked; hosted groups do not
    affect each other.
  \<^item> \<^verbatim>\<open>Linear_Check\<close> (\<^verbatim>\<open>kaya-sim/src/linear.rs\<close>): the sequential check is exact, the concurrent search is exact for
    unordered operations only, and counterexamples are minimal.

  \<^bold>\<open>Numbers, bounds and loops.\<close> Fixed-width integers are words and wrap as in a release build, and debug assertions are not
  part of it. Lengths, offsets, ticks, Raft terms and log indexes are natural numbers; a term wraps where it is incremented
  (\<^verbatim>\<open>term_next\<close>), and round trips state that numbers fit their fields. Loops are structural or have a termination proof.
  The loop that applies committed entries may append and commit an entry itself; its termination is proved, with a bound on
  the rounds. The search of \<^verbatim>\<open>Linear_Check\<close> recurses over the number of operations that are not placed yet. The
  clock and measured durations are arguments.

  \<^bold>\<open>Not modelled.\<close> The engine (\<^verbatim>\<open>kaya-engine\<close>) apart from the way it reopens the log: reads, writes, flush, compaction,
  transactions, indexes, change feed, snapshots. The choice of tables to compact. Disks other than the simulated one. The
  network protocol, transport and roster (\<^verbatim>\<open>kaya-net\<close>). The server (\<^verbatim>\<open>kaya-server\<close>) apart from the order of running, sending and
  persisting in its event loop. The simulator apart from its checker. Clients, command line tool, tracing, tests and
  benchmarks. They are input and output, policy, or layers over parts that are not modelled.
\<close>

end
